(* ===== verification/Prelude.thy ===== *)
theory Prelude
  imports Main "HOL-Library.Word"
begin

text \<open>
  Shared ground of the development: the ways a run of the C code can stop before it
  returns, sequencing of steps that may stop, the two kinds of statement made about such
  steps (\<open>okE\<close>: it returns and the result satisfies P; \<open>safeE\<close>: it has no
  undefined behaviour, and if it returns the result satisfies P), C integer helpers and
  the generic list and word lemmas the components use.
\<close>

named_theorems result_simps "rewriting of stopped and returned results"
named_theorems inv_intros "introduction rules for component invariants"

subsection \<open>Ways a run can stop\<close>

text \<open>
  \<open>ExitFailure msg\<close> is \<open>exit(EXIT_FAILURE)\<close> behind an assertion macro or a
  logged message; \<open>UB\<close> is undefined behaviour of the C abstract machine: the model
  makes it a value, so that "never happens" is a theorem (\<open>WrongMember\<close> stands for the use
  of a union through another member than the one stored, which C lets through as garbage).
\<close>

datatype ub = NullDeref | UseAfterFree | OutOfBounds | InvalidFree | SignedOverflow | WrongMember

datatype stop = ExitFailure string | UB ub

type_synonym 'a res = "stop + 'a"

definition bindE :: "'a res \<Rightarrow> ('a \<Rightarrow> 'b res) \<Rightarrow> 'b res" where
  "bindE m f = (case m of Inl e \<Rightarrow> Inl e | Inr x \<Rightarrow> f x)"

lemma bindE_Inl [simp, result_simps]: "bindE (Inl e) f = Inl e"
  by (simp add: bindE_def)

lemma bindE_Inr [simp, result_simps]: "bindE (Inr x) f = f x"
  by (simp add: bindE_def)

lemma bindE_cong [fundef_cong]:
  "m = m' \<Longrightarrow> (\<And>x. m' = Inr x \<Longrightarrow> f x = g x) \<Longrightarrow> bindE m f = bindE m' g"
  by (cases m') auto

lemma bindE_eq_Inr: "bindE m f = Inr y \<longleftrightarrow> (\<exists>x. m = Inr x \<and> f x = Inr y)"
  by (cases m) auto

lemma bindE_eq_Inl: "bindE m f = Inl e \<longleftrightarrow> m = Inl e \<or> (\<exists>x. m = Inr x \<and> f x = Inl e)"
  by (cases m) auto

lemma bindE_assoc: "bindE (bindE m f) g = bindE m (\<lambda>x. bindE (f x) g)"
  by (cases m) auto

lemma bindE_if: "bindE (if b then m else n) f = (if b then bindE m f else bindE n f)"
  by simp

subsection \<open>Total and partial statements about a result\<close>

definition okE :: "('a \<Rightarrow> bool) \<Rightarrow> 'a res \<Rightarrow> bool" where
  "okE P m = (case m of Inl e \<Rightarrow> False | Inr x \<Rightarrow> P x)"

definition safeE :: "('a \<Rightarrow> bool) \<Rightarrow> 'a res \<Rightarrow> bool" where
  "safeE P m = (case m of Inl (ExitFailure s) \<Rightarrow> True | Inl (UB u) \<Rightarrow> False | Inr x \<Rightarrow> P x)"

lemma okE_simps [simp, result_simps]:
  "okE P (Inr x) = P x" "okE P (Inl e) = False"
  by (simp_all add: okE_def)

lemma safeE_simps [simp, result_simps]:
  "safeE P (Inr x) = P x" "safeE P (Inl (ExitFailure s)) = True" "safeE P (Inl (UB u)) = False"
  by (simp_all add: safeE_def)

lemma okE_bindE [simp, result_simps]: "okE P (bindE m f) = okE (\<lambda>x. okE P (f x)) m"
  by (cases m) auto

lemma safeE_bindE [simp, result_simps]: "safeE P (bindE m f) = safeE (\<lambda>x. safeE P (f x)) m"
  by (cases m) (auto simp: safeE_def split: stop.splits)

lemma okE_mono: "okE P m \<Longrightarrow> (\<And>x. m = Inr x \<Longrightarrow> P x \<Longrightarrow> Q x) \<Longrightarrow> okE Q m"
  by (cases m) auto

lemma safeE_mono: "safeE P m \<Longrightarrow> (\<And>x. m = Inr x \<Longrightarrow> P x \<Longrightarrow> Q x) \<Longrightarrow> safeE Q m"
  by (cases m) (auto simp: safeE_def split: stop.splits)

lemma okE_safeE: "okE P m \<Longrightarrow> safeE P m"
  by (cases m) auto

lemma okE_iff: "okE P m \<longleftrightarrow> (\<exists>x. m = Inr x \<and> P x)"
  by (cases m) auto

lemma okED: "okE P m \<Longrightarrow> \<exists>x. m = Inr x \<and> P x"
  by (simp add: okE_iff)

lemma safeE_InrD: "safeE P m \<Longrightarrow> m = Inr x \<Longrightarrow> P x"
  by simp

lemma safeE_no_UB: "safeE P m \<Longrightarrow> m \<noteq> Inl (UB u)"
  by auto

lemma okE_if [simp]: "okE P (if b then m else n) = ((b \<longrightarrow> okE P m) \<and> (\<not> b \<longrightarrow> okE P n))"
  by simp

lemma safeE_if [simp]: "safeE P (if b then m else n) = ((b \<longrightarrow> safeE P m) \<and> (\<not> b \<longrightarrow> safeE P n))"
  by simp

subsection \<open>C integers\<close>

text \<open>
  Signed arithmetic that leaves the range of its type is undefined behaviour; the
  functions below return the value when it is representable.
\<close>

definition c_long :: "int \<Rightarrow> int res" where
  "c_long x = (if - (2 ^ 63) \<le> x \<and> x < 2 ^ 63 then Inr x else Inl (UB SignedOverflow))"

definition c_int :: "int \<Rightarrow> int res" where
  "c_int x = (if - (2 ^ 31) \<le> x \<and> x < 2 ^ 31 then Inr x else Inl (UB SignedOverflow))"

text \<open>Conversion to \<open>int\<close> (gcc: modulo \<open>2 ^ 32\<close>, two's complement).\<close>

definition to_int32 :: "int \<Rightarrow> int" where
  "to_int32 x = sint (word_of_int x :: 32 word)"

lemma to_int32_id: "- (2 ^ 31) \<le> x \<Longrightarrow> x < 2 ^ 31 \<Longrightarrow> to_int32 x = x"
  by (simp add: to_int32_def signed_of_int signed_take_bit_int_eq_self)

lemma c_long_ok [simp]: "- (2 ^ 63) \<le> x \<Longrightarrow> x < 2 ^ 63 \<Longrightarrow> c_long x = Inr x"
  by (simp add: c_long_def)

lemma c_int_ok [simp]: "- (2 ^ 31) \<le> x \<Longrightarrow> x < 2 ^ 31 \<Longrightarrow> c_int x = Inr x"
  by (simp add: c_int_def)

lemma uint_of_int64: "0 \<le> x \<Longrightarrow> x < 2 ^ 64 \<Longrightarrow> uint (word_of_int x :: 64 word) = x"
  by (simp add: unsigned_of_int take_bit_int_eq_self)

lemma sint_small64: "uint (w :: 64 word) < 2 ^ 63 \<Longrightarrow> sint w = uint w"
proof -
  assume "uint w < 2 ^ 63"
  moreover have "- (2 ^ 63) \<le> uint w" by (rule order_trans [OF _ unsigned_greater_eq]) simp
  ultimately show ?thesis by (simp add: sint_uint signed_take_bit_int_eq_self)
qed

subsection \<open>Removing an element by moving the last one into its place\<close>

definition swap_remove :: "nat \<Rightarrow> 'a list \<Rightarrow> 'a list" where
  "swap_remove i xs = butlast (xs[i := last xs])"

lemma length_swap_remove [simp]: "length (swap_remove i xs) = length xs - 1"
  by (simp add: swap_remove_def)

lemma nth_swap_remove:
  "j < length xs - 1 \<Longrightarrow> swap_remove i xs ! j = (if j = i then last xs else xs ! j)"
  by (simp add: swap_remove_def nth_butlast)

lemma swap_remove_decomp:
  assumes "i < length xs"
  shows "\<exists>ys zs. xs = ys @ xs ! i # zs \<and> length ys = i
     \<and> swap_remove i xs = (if zs = [] then ys else ys @ last zs # butlast zs)"
proof (intro exI conjI)
  show d: "xs = take i xs @ xs ! i # drop (Suc i) xs" using assms by (rule id_take_nth_drop)
  show "length (take i xs) = i" using assms by simp
  show "swap_remove i xs = (if drop (Suc i) xs = [] then take i xs
      else take i xs @ last (drop (Suc i) xs) # butlast (drop (Suc i) xs))"
  proof (rule nth_equalityI)
    show "length (swap_remove i xs) = length (if drop (Suc i) xs = [] then take i xs
      else take i xs @ last (drop (Suc i) xs) # butlast (drop (Suc i) xs))"
      using assms by (simp, arith)
    fix j assume "j < length (swap_remove i xs)"
    then show "swap_remove i xs ! j = (if drop (Suc i) xs = [] then take i xs
      else take i xs @ last (drop (Suc i) xs) # butlast (drop (Suc i) xs)) ! j"
      using assms by (auto simp: nth_swap_remove nth_append nth_Cons nth_butlast last_drop
          min_def split: nat.splits)
        (metis add_Suc_right le_add_diff_inverse not_less)
  qed
qed

lemma set_swap_remove:
  assumes "distinct xs" "i < length xs"
  shows "set (swap_remove i xs) = set xs - {xs ! i}" "distinct (swap_remove i xs)"
proof -
  obtain ys zs where d: "xs = ys @ xs ! i # zs"
      "swap_remove i xs = (if zs = [] then ys else ys @ last zs # butlast zs)"
    using swap_remove_decomp [OF assms(2)] by blast
  have z: "zs \<noteq> [] \<Longrightarrow> set (last zs # butlast zs) = set zs \<and> (distinct zs \<longrightarrow> distinct (last zs # butlast zs))"
    by (cases zs rule: rev_cases) auto
  have dx: "distinct (ys @ xs ! i # zs)" using assms(1) d(1) by metis
  have sx: "set xs = set (ys @ xs ! i # zs)" using d(1) by metis
  show "set (swap_remove i xs) = set xs - {xs ! i}"
    unfolding sx using dx z d(2) by auto
  show "distinct (swap_remove i xs)" using dx z d(2) by (cases "zs = []") auto
qed

lemma set_swap_remove_sub:
  assumes "i < length xs"
  shows "set xs \<subseteq> insert (xs ! i) (set (swap_remove i xs))"
proof -
  obtain ys zs where d: "xs = ys @ xs ! i # zs"
      "swap_remove i xs = (if zs = [] then ys else ys @ last zs # butlast zs)"
    using swap_remove_decomp [OF assms] by blast
  have "set zs = insert (last zs) (set (butlast zs))" if "zs \<noteq> []"
    using append_butlast_last_id [OF that] by (metis list.simps(15) rotate1.simps(2) set_rotate1)
  then show ?thesis using d(2) by (subst d(1)) auto
qed

lemma swap_remove_map: "xs \<noteq> [] \<Longrightarrow> swap_remove i (map f xs) = map f (swap_remove i xs)"
  by (simp add: swap_remove_def map_butlast map_update last_map)

lemma filter_swap_remove:
  assumes "i < length xs"
  shows "length (filter P xs) = length (filter P (swap_remove i xs)) + (if P (xs ! i) then 1 else 0)"
proof -
  obtain ys zs where d: "xs = ys @ xs ! i # zs"
      "swap_remove i xs = (if zs = [] then ys else ys @ last zs # butlast zs)"
    using swap_remove_decomp [OF assms] by blast
  have z: "zs \<noteq> [] \<Longrightarrow> length (filter P (last zs # butlast zs)) = length (filter P zs)"
    by (cases zs rule: rev_cases) auto
  have "length (filter P xs) = length (filter P (ys @ xs ! i # zs))" using d(1) by metis
  then show ?thesis using d(2) z by (cases "zs = []") auto
qed

lemma swap_remove_split:
  assumes "i < length xs"
  shows "(\<exists>ys. xs = ys @ [xs ! i] \<and> swap_remove i xs = ys)
     \<or> (\<exists>ys zs l. xs = ys @ xs ! i # zs @ [l] \<and> swap_remove i xs = ys @ l # zs)"
proof -
  obtain ys zs where d: "xs = ys @ xs ! i # zs"
      "swap_remove i xs = (if zs = [] then ys else ys @ last zs # butlast zs)"
    using swap_remove_decomp [OF assms] by blast
  show ?thesis
  proof (cases zs rule: rev_cases)
    case Nil
    then show ?thesis using d by auto
  next
    case (snoc zs' l)
    then show ?thesis using d by (intro disjI2 exI [of _ ys] exI [of _ zs'] exI [of _ l]) auto
  qed
qed

lemma set_swap_remove_insert: "i < length xs \<Longrightarrow> set xs = insert (xs ! i) (set (swap_remove i xs))"
proof -
  assume "i < length xs"
  from swap_remove_split [OF this] show ?thesis
  proof (elim disjE exE conjE)
    fix ys assume d: "xs = ys @ [xs ! i]" "swap_remove i xs = ys"
    have "set xs = set (ys @ [xs ! i])" using d(1) by metis
    then show ?thesis using d(2) by auto
  next
    fix ys zs l assume d: "xs = ys @ xs ! i # zs @ [l]" "swap_remove i xs = ys @ l # zs"
    have "set xs = set (ys @ xs ! i # zs @ [l])" using d(1) by metis
    then show ?thesis using d(2) by auto
  qed
qed

lemma set_swap_remove_subset: "i < length xs \<Longrightarrow> set (swap_remove i xs) \<subseteq> set xs"
  using set_swap_remove_insert [of i xs] by auto

lemma distinct_filter_swap_remove:
  assumes "i < length xs" "distinct (filter P (map f xs))"
  shows "distinct (filter P (map f (swap_remove i xs)))"
    and "P (f (xs ! i)) \<Longrightarrow> f (xs ! i) \<notin> f ` set (swap_remove i xs)"
proof -
  have "distinct (filter P (map f (swap_remove i xs)))
      \<and> (P (f (xs ! i)) \<longrightarrow> f (xs ! i) \<notin> f ` set (swap_remove i xs))"
    using swap_remove_split [OF assms(1)]
  proof (elim disjE exE conjE)
    fix ys assume d: "xs = ys @ [xs ! i]" "swap_remove i xs = ys"
    have "distinct (filter P (map f (ys @ [xs ! i])))" using assms(2) d(1) by metis
    then show ?thesis using d(2) by auto
  next
    fix ys zs l assume d: "xs = ys @ xs ! i # zs @ [l]" "swap_remove i xs = ys @ l # zs"
    have "distinct (filter P (map f (ys @ xs ! i # zs @ [l])))" using assms(2) d(1) by metis
    then show ?thesis using d(2) by (auto split: if_splits)
  qed
  then show "distinct (filter P (map f (swap_remove i xs)))"
    and "P (f (xs ! i)) \<Longrightarrow> f (xs ! i) \<notin> f ` set (swap_remove i xs)" by auto
qed

lemma distinct_filter_nth_less:
  assumes "distinct (filter P xs)" "i < j" "j < length xs" "P (xs ! i)"
  shows "xs ! i \<noteq> xs ! j"
proof
  assume eq: "xs ! i = xs ! j"
  have "xs = take i xs @ xs ! i # drop (Suc i) xs"
    using assms by (intro id_take_nth_drop) simp
  then have "distinct (filter P (take i xs @ xs ! i # drop (Suc i) xs))"
    using assms(1) by metis
  then have "xs ! i \<notin> set (drop (Suc i) xs)" using assms(4) by auto
  moreover have "drop (Suc i) xs ! (j - Suc i) \<in> set (drop (Suc i) xs)"
    using assms by (intro nth_mem) simp
  ultimately show False using eq assms by simp
qed

lemma distinct_filter_nth:
  assumes "distinct (filter P xs)" "i < length xs" "j < length xs" "xs ! i = xs ! j" "P (xs ! i)"
  shows "i = j"
  using distinct_filter_nth_less [OF assms(1)] assms(2-5) by (metis linorder_neqE_nat)

end
