(* ===== verification/CMemory.thy ===== *)
theory CMemory
  imports Prelude
begin

text \<open>
  The C memory the components use: a block of memory as a list with checked access
  (\<open>memcpy\<close> out of bounds is undefined behaviour), the little-endian representation of
  integers, and a heap of typed objects whose addresses are never reused, so that an access
  after \<open>free\<close> is always seen. Pointers are options, \<open>None\<close> is \<open>NULL\<close>.
\<close>

subsection \<open>Blocks\<close>

definition mem_write :: "'a list \<Rightarrow> nat \<Rightarrow> 'a list \<Rightarrow> 'a list res" where
  "mem_write blk off src =
     (if off + length src \<le> length blk
      then Inr (take off blk @ src @ drop (off + length src) blk)
      else Inl (UB OutOfBounds))"

definition mem_read :: "'a list \<Rightarrow> nat \<Rightarrow> nat \<Rightarrow> 'a list res" where
  "mem_read blk off n =
     (if off + n \<le> length blk then Inr (take n (drop off blk)) else Inl (UB OutOfBounds))"

definition arr_get :: "'a list \<Rightarrow> nat \<Rightarrow> 'a res" where
  "arr_get xs i = (if i < length xs then Inr (xs ! i) else Inl (UB OutOfBounds))"

definition arr_set :: "'a list \<Rightarrow> nat \<Rightarrow> 'a \<Rightarrow> 'a list res" where
  "arr_set xs i x = (if i < length xs then Inr (xs[i := x]) else Inl (UB OutOfBounds))"

lemma arr_get_ok [simp]: "i < length xs \<Longrightarrow> arr_get xs i = Inr (xs ! i)"
  by (simp add: arr_get_def)

lemma arr_set_ok [simp]: "i < length xs \<Longrightarrow> arr_set xs i x = Inr (xs[i := x])"
  by (simp add: arr_set_def)

lemma mem_write_ok [simp]:
  "off + length src \<le> length blk \<Longrightarrow>
     mem_write blk off src = Inr (take off blk @ src @ drop (off + length src) blk)"
  by (simp add: mem_write_def)

lemma mem_read_ok [simp]: "off + n \<le> length blk \<Longrightarrow> mem_read blk off n = Inr (take n (drop off blk))"
  by (simp add: mem_read_def)

text \<open>A read of one record of a block written record by record.\<close>

lemma mem_write_same:
  assumes "off + length src \<le> length blk"
  shows "take (length src) (drop off (take off blk @ src @ drop (off + length src) blk)) = src"
  using assms by simp

lemma mem_write_before:
  assumes "off + length src \<le> length blk" "o' + n \<le> off"
  shows "take n (drop o' (take off blk @ src @ drop (off + length src) blk))
      = take n (drop o' blk)"
  using assms by (simp add: drop_take)

subsection \<open>Little-endian integers\<close>

type_synonym byte = "8 word"

fun le_bytes :: "nat \<Rightarrow> nat \<Rightarrow> byte list" where
  "le_bytes 0 n = []"
| "le_bytes (Suc k) n = word_of_nat (n mod 256) # le_bytes k (n div 256)"

fun le_val :: "byte list \<Rightarrow> nat" where
  "le_val [] = 0"
| "le_val (b # bs) = unat b + 256 * le_val bs"

lemma length_le_bytes [simp]: "length (le_bytes k n) = k"
  by (induction k arbitrary: n) auto

lemma unat_byte: "unat (word_of_nat (n mod 256) :: byte) = n mod 256"
  by (simp add: unsigned_of_nat take_bit_nat_eq_self)

lemma le_val_bytes: "le_val (le_bytes k n) = n mod 256 ^ k"
proof (induction k arbitrary: n)
  case 0
  show ?case by simp
next
  case (Suc k)
  have "n mod 256 + 256 * ((n div 256) mod 256 ^ k) = n mod (256 * 256 ^ k)"
    by (simp add: mod_mult2_eq)
  then show ?case using Suc by (simp add: unat_byte)
qed

definition u64_bytes :: "64 word \<Rightarrow> byte list" where
  "u64_bytes w = le_bytes 8 (unat w)"

definition u64_of_bytes :: "byte list \<Rightarrow> 64 word" where
  "u64_of_bytes bs = word_of_nat (le_val bs)"

lemma length_u64_bytes [simp]: "length (u64_bytes w) = 8"
  by (simp add: u64_bytes_def)

lemma u64_of_bytes_bytes [simp]: "u64_of_bytes (u64_bytes w) = w"
proof -
  have "unat w < 256 ^ 8" using unsigned_less [of w, where ?'a = nat] by simp
  then show ?thesis by (simp add: u64_of_bytes_def u64_bytes_def le_val_bytes)
qed

subsection \<open>A heap of objects\<close>

type_synonym ptr = "nat option"

record 'o heap =
  cells :: "nat \<Rightarrow> 'o option"
  next_addr :: nat

definition heap_ok :: "'o heap \<Rightarrow> bool" where
  "heap_ok h \<longleftrightarrow> (\<forall>a. next_addr h \<le> a \<longrightarrow> cells h a = None)"

definition empty_heap :: "'o heap" where
  "empty_heap = \<lparr>cells = (\<lambda>_. None), next_addr = 0\<rparr>"

definition halloc :: "'o \<Rightarrow> 'o heap \<Rightarrow> nat \<times> 'o heap" where
  "halloc x h = (next_addr h,
     h\<lparr>cells := (cells h)(next_addr h := Some x), next_addr := Suc (next_addr h)\<rparr>)"

fun hget :: "ptr \<Rightarrow> 'o heap \<Rightarrow> 'o res" where
  "hget None h = Inl (UB NullDeref)"
| "hget (Some a) h = (case cells h a of None \<Rightarrow> Inl (UB UseAfterFree) | Some x \<Rightarrow> Inr x)"

fun hset :: "ptr \<Rightarrow> 'o \<Rightarrow> 'o heap \<Rightarrow> 'o heap res" where
  "hset None x h = Inl (UB NullDeref)"
| "hset (Some a) x h =
     (case cells h a of None \<Rightarrow> Inl (UB UseAfterFree)
      | Some _ \<Rightarrow> Inr (h\<lparr>cells := (cells h)(a := Some x)\<rparr>))"

text \<open>\<open>free(NULL)\<close> does nothing.\<close>

fun hfree :: "ptr \<Rightarrow> 'o heap \<Rightarrow> 'o heap res" where
  "hfree None h = Inr h"
| "hfree (Some a) h =
     (case cells h a of None \<Rightarrow> Inl (UB InvalidFree)
      | Some _ \<Rightarrow> Inr (h\<lparr>cells := (cells h)(a := None)\<rparr>))"

definition hupd :: "ptr \<Rightarrow> ('o \<Rightarrow> 'o) \<Rightarrow> 'o heap \<Rightarrow> 'o heap res" where
  "hupd p f h = bindE (hget p h) (\<lambda>x. hset p (f x) h)"

lemma hget_ok [simp]: "cells h a = Some x \<Longrightarrow> hget (Some a) h = Inr x"
  by simp

lemma hset_ok [simp]: "cells h a = Some y \<Longrightarrow>
    hset (Some a) x h = Inr (h\<lparr>cells := (cells h)(a := Some x)\<rparr>)"
  by simp

lemma hupd_ok [simp]: "cells h a = Some x \<Longrightarrow>
    hupd (Some a) f h = Inr (h\<lparr>cells := (cells h)(a := Some (f x))\<rparr>)"
  by (simp add: hupd_def)

lemma hfree_ok [simp]: "cells h a = Some x \<Longrightarrow> hfree (Some a) h = Inr (h\<lparr>cells := (cells h)(a := None)\<rparr>)"
  by simp

lemma heap_ok_empty [simp, inv_intros]: "heap_ok empty_heap"
  by (simp add: heap_ok_def empty_heap_def)

lemma heap_ok_halloc [inv_intros]: "heap_ok h \<Longrightarrow> heap_ok (snd (halloc x h))"
  by (simp add: heap_ok_def halloc_def)

lemma heap_ok_upd [inv_intros]:
  "heap_ok h \<Longrightarrow> cells h a \<noteq> None \<Longrightarrow> heap_ok (h\<lparr>cells := (cells h)(a := v)\<rparr>)"
  by (auto simp: heap_ok_def)

lemma heap_ok_fresh: "heap_ok h \<Longrightarrow> cells h (next_addr h) = None"
  by (simp add: heap_ok_def)

end
