(* ===== verification/CommonUtils.thy ===== *)
theory CommonUtils
  imports Prelude
begin

text \<open>
  code/c/common/utils.h and debug.h: the assertion macros, which log and call
  \<open>exit(EXIT_FAILURE)\<close>, and the level filter of \<open>dlog\<close>. Where the message is
  written is not modelled; the stopped run carries it.
\<close>

definition assertion_prints_and_exit :: "string \<Rightarrow> 'a res" where
  "assertion_prints_and_exit format = Inl (ExitFailure format)"

definition assert_zero :: "int \<Rightarrow> string \<Rightarrow> unit res" where
  "assert_zero code format = (if code \<noteq> 0 then assertion_prints_and_exit format else Inr ())"

definition io_uring_assert_zero :: "int \<Rightarrow> string \<Rightarrow> unit res" where
  "io_uring_assert_zero code format =
     (if code \<noteq> 0 then assertion_prints_and_exit format else Inr ())"

definition assert_nnull :: "'p option \<Rightarrow> string \<Rightarrow> 'p res" where
  "assert_nnull p format = (case p of None \<Rightarrow> assertion_prints_and_exit format | Some a \<Rightarrow> Inr a)"

definition assert_nonn :: "int \<Rightarrow> string \<Rightarrow> unit res" where
  "assert_nonn code format = (if code < 0 then assertion_prints_and_exit format else Inr ())"

definition io_uring_assert_nonn :: "int \<Rightarrow> string \<Rightarrow> unit res" where
  "io_uring_assert_nonn code format =
     (if code < 0 then assertion_prints_and_exit format else Inr ())"

definition io_uring_assert :: "bool \<Rightarrow> string \<Rightarrow> unit res" where
  "io_uring_assert condition format =
     (if \<not> condition then assertion_prints_and_exit format else Inr ())"

lemmas assertion_defs = assertion_prints_and_exit_def assert_zero_def io_uring_assert_zero_def
  assert_nnull_def assert_nonn_def io_uring_assert_nonn_def io_uring_assert_def

lemma assert_ok [simp]:
  "assert_zero 0 m = Inr ()" "io_uring_assert_zero 0 m = Inr ()"
  "assert_nnull (Some a) m = Inr a" "assert_nnull None m = Inl (ExitFailure m)"
  "0 \<le> c \<Longrightarrow> assert_nonn c m = Inr ()" "c < 0 \<Longrightarrow> assert_nonn c m = Inl (ExitFailure m)"
  "0 \<le> c \<Longrightarrow> io_uring_assert_nonn c m = Inr ()"
  "c \<noteq> 0 \<Longrightarrow> assert_zero c m = Inl (ExitFailure m)"
  "c \<noteq> 0 \<Longrightarrow> io_uring_assert_zero c m = Inl (ExitFailure m)"
  "io_uring_assert True m = Inr ()" "io_uring_assert False m = Inl (ExitFailure m)"
  by (simp_all add: assertion_defs)

lemma assert_no_UB:
  "safeE (\<lambda>_. c = 0) (assert_zero c m)" "safeE (\<lambda>_. c = 0) (io_uring_assert_zero c m)"
  "safeE (\<lambda>_. 0 \<le> c) (assert_nonn c m)" "safeE (\<lambda>_. 0 \<le> c) (io_uring_assert_nonn c m)"
  "safeE (\<lambda>_. b) (io_uring_assert b m)"
  by (simp_all add: assertion_defs)

lemma safe_assert [simp]:
  "safeE P (assert_zero c m) \<longleftrightarrow> (c = 0 \<longrightarrow> P ())"
  "safeE P (io_uring_assert_zero c m) \<longleftrightarrow> (c = 0 \<longrightarrow> P ())"
  "safeE P (assert_nonn c m) \<longleftrightarrow> (0 \<le> c \<longrightarrow> P ())"
  "safeE P (io_uring_assert_nonn c m) \<longleftrightarrow> (0 \<le> c \<longrightarrow> P ())"
  "safeE P (io_uring_assert b m) \<longleftrightarrow> (b \<longrightarrow> P ())"
  "safeE Q (assert_nnull p m) \<longleftrightarrow> (\<forall>a. p = Some a \<longrightarrow> Q a)"
  by (auto simp: assertion_defs split: option.splits)

lemma ok_assert [simp]:
  "okE P (assert_zero c m) \<longleftrightarrow> c = 0 \<and> P ()"
  "okE P (io_uring_assert_zero c m) \<longleftrightarrow> c = 0 \<and> P ()"
  "okE P (assert_nonn c m) \<longleftrightarrow> 0 \<le> c \<and> P ()"
  "okE P (io_uring_assert_nonn c m) \<longleftrightarrow> 0 \<le> c \<and> P ()"
  "okE P (io_uring_assert b m) \<longleftrightarrow> b \<and> P ()"
  "okE Q (assert_nnull p m) \<longleftrightarrow> (\<exists>a. p = Some a \<and> Q a)"
  by (auto simp: assertion_defs split: option.splits)

subsection \<open>The log levels of debug.h\<close>

datatype log_level_t = LOG_EMERG | LOG_ALERT | LOG_CRIT | LOG_ERR | LOG_WARNING | LOG_NOTICE
  | LOG_INFO | LOG_DEBUG

fun log_level_num :: "log_level_t \<Rightarrow> nat" where
  "log_level_num LOG_EMERG = 1"
| "log_level_num LOG_ALERT = 2"
| "log_level_num LOG_CRIT = 3"
| "log_level_num LOG_ERR = 4"
| "log_level_num LOG_WARNING = 5"
| "log_level_num LOG_NOTICE = 6"
| "log_level_num LOG_INFO = 7"
| "log_level_num LOG_DEBUG = 8"

lemma log_level_num_inj: "log_level_num a = log_level_num b \<Longrightarrow> a = b"
  by (cases a; cases b) simp_all

instantiation log_level_t :: linorder
begin

definition less_eq_log_level_t :: "log_level_t \<Rightarrow> log_level_t \<Rightarrow> bool" where
  "less_eq_log_level_t a b = (log_level_num a \<le> log_level_num b)"

definition less_log_level_t :: "log_level_t \<Rightarrow> log_level_t \<Rightarrow> bool" where
  "less_log_level_t a b = (log_level_num a < log_level_num b)"

instance
  by standard (auto simp: less_eq_log_level_t_def less_log_level_t_def intro: log_level_num_inj)

end

text \<open>What \<open>dlog(level, ...)\<close> writes when \<open>DEBUG\<close> is defined or not.\<close>

definition dlog :: "bool \<Rightarrow> log_level_t \<Rightarrow> log_level_t \<Rightarrow> string \<Rightarrow> string option" where
  "dlog debug LOG_LEVEL level format =
     (if debug then (if level \<le> LOG_LEVEL then Some format else None) else None)"

end
