(* ===== verification/TimeUtils.thy ===== *)
theory TimeUtils
  imports Prelude "HOL-Library.Signed_Division"
begin

text \<open>
  code/c/common/time_utils.c: conversion of \<open>struct timespec\<close> to and from
  nanoseconds, subtraction, rebalancing and comparison. \<open>time_t\<close> and \<open>long\<close> are
  64-bit signed (x86-64 Linux): they are integers whose overflow is undefined behaviour.
\<close>

record timespec =
  tv_sec :: int
  tv_nsec :: int

abbreviation NUMBER_10E9 :: int where "NUMBER_10E9 \<equiv> 1000000000"

text \<open>
  \<open>clock_gettime(CLOCK_MONOTONIC, ts)\<close> is a parameter: a function of the outside
  world \<open>'w\<close> that yields the time read and the world afterwards.
\<close>

type_synonym 'w clock = "'w \<Rightarrow> timespec \<times> 'w"

subsection \<open>Time getting\<close>

definition now_monotonic_p :: "'w clock \<Rightarrow> timespec \<Rightarrow> 'w \<Rightarrow> timespec \<times> 'w" where
  "now_monotonic_p clock ts w = (case clock w of (t, w') \<Rightarrow>
     (ts\<lparr>tv_sec := tv_sec t, tv_nsec := tv_nsec t\<rparr>, w'))"

definition now_monotonic :: "'w clock \<Rightarrow> 'w \<Rightarrow> timespec \<times> 'w" where
  "now_monotonic clock w = (let ts = \<lparr>tv_sec = 0, tv_nsec = 0\<rparr> in now_monotonic_p clock ts w)"

subsection \<open>Time manipulation and comparison\<close>

definition timespec_to_ns :: "timespec \<Rightarrow> 64 word" where
  "timespec_to_ns ts = word_of_int (tv_sec ts) * 1000000000 + word_of_int (tv_nsec ts)"

definition ns_to_timespec :: "64 word \<Rightarrow> timespec" where
  "ns_to_timespec ns =
     \<lparr>tv_sec = sint (ns div 1000000000), tv_nsec = sint (ns mod 1000000000)\<rparr>"

definition now_monotonic_ns :: "'w clock \<Rightarrow> 'w \<Rightarrow> 64 word \<times> 'w" where
  "now_monotonic_ns clock w = (case now_monotonic clock w of (ts, w') \<Rightarrow> (timespec_to_ns ts, w'))"

text \<open>The value stored through \<open>ns\<close>.\<close>

definition now_monotonic_ns_p :: "'w clock \<Rightarrow> 'w \<Rightarrow> 64 word \<times> 'w" where
  "now_monotonic_ns_p clock w = (case now_monotonic clock w of (ts, w') \<Rightarrow> (timespec_to_ns ts, w'))"

definition timespec_rebalance :: "timespec \<Rightarrow> timespec res" where
  "timespec_rebalance ts =
     (let hole_parts = to_int32 (tv_nsec ts sdiv NUMBER_10E9)
      in bindE (c_long (tv_sec ts + hole_parts)) (\<lambda>sec.
         let nsec = tv_nsec ts smod NUMBER_10E9 in
         if sec = 0 \<or> nsec = 0 then Inr \<lparr>tv_sec = sec, tv_nsec = nsec\<rparr>
         else let sec_negative = sec < 0; nsec_negative = nsec < 0 in
         if sec_negative = nsec_negative then Inr \<lparr>tv_sec = sec, tv_nsec = nsec\<rparr>
         else if nsec_negative then Inr \<lparr>tv_sec = sec - 1, tv_nsec = nsec + NUMBER_10E9\<rparr>
         else Inr \<lparr>tv_sec = sec + 1, tv_nsec = nsec - NUMBER_10E9\<rparr>))"

definition time_delta :: "timespec \<Rightarrow> timespec \<Rightarrow> timespec res" where
  "time_delta minuend subtrahend =
     bindE (c_long (tv_sec minuend - tv_sec subtrahend)) (\<lambda>sec.
     bindE (c_long (tv_nsec minuend - tv_nsec subtrahend)) (\<lambda>nsec.
     timespec_rebalance \<lparr>tv_sec = sec, tv_nsec = nsec\<rparr>))"

definition timespec_lt :: "timespec \<Rightarrow> timespec \<Rightarrow> bool" where
  "timespec_lt ts_1 ts_2 =
     (if tv_sec ts_1 = tv_sec ts_2 then tv_nsec ts_1 < tv_nsec ts_2
      else tv_sec ts_1 < tv_sec ts_2)"

subsection \<open>Abstract value, balance\<close>

text \<open>The instant a timespec denotes, in nanoseconds, and the balanced normal form.\<close>

definition total_ns :: "timespec \<Rightarrow> int" where
  "total_ns ts = tv_sec ts * NUMBER_10E9 + tv_nsec ts"

definition balanced :: "timespec \<Rightarrow> bool" where
  "balanced ts \<longleftrightarrow> \<bar>tv_nsec ts\<bar> < NUMBER_10E9
     \<and> (tv_sec ts > 0 \<longrightarrow> tv_nsec ts \<ge> 0) \<and> (tv_sec ts < 0 \<longrightarrow> tv_nsec ts \<le> 0)"

text \<open>What \<open>clock_gettime\<close> promises: seconds from 0, a proper nanosecond part.\<close>

definition clock_ts :: "timespec \<Rightarrow> bool" where
  "clock_ts ts \<longleftrightarrow> 0 \<le> tv_sec ts \<and> tv_sec ts < 2 ^ 33 \<and> 0 \<le> tv_nsec ts \<and> tv_nsec ts < NUMBER_10E9"

definition long_range :: "int \<Rightarrow> bool" where
  "long_range x \<longleftrightarrow> - (2 ^ 63) \<le> x \<and> x < 2 ^ 63"

subsection \<open>Truncating division\<close>

lemma sdiv_smod_billion: "x sdiv NUMBER_10E9 * NUMBER_10E9 + x smod NUMBER_10E9 = x"
  by (rule sdiv_mult_smod_eq)

lemma smod_billion_bounds:
  "\<bar>x smod NUMBER_10E9\<bar> < NUMBER_10E9" "0 \<le> x \<Longrightarrow> 0 \<le> x smod NUMBER_10E9"
  "x \<le> 0 \<Longrightarrow> x smod NUMBER_10E9 \<le> 0"
  by (auto simp: signed_modulo_int_def sgn_if abs_if)

lemma sdiv_billion_range:
  assumes "\<bar>x\<bar> < 2 ^ 31 * NUMBER_10E9"
  shows "- (2 ^ 31) \<le> x sdiv NUMBER_10E9" "x sdiv NUMBER_10E9 < 2 ^ 31"
  using assms by (auto simp: signed_divide_int_def sgn_if abs_if)

lemma rebalance_correct:
  assumes ns: "\<bar>tv_nsec ts\<bar> < 2 ^ 31 * NUMBER_10E9"
    and sec: "long_range (tv_sec ts + tv_nsec ts sdiv NUMBER_10E9)"
  shows "\<exists>ts'. timespec_rebalance ts = Inr ts' \<and> balanced ts' \<and> total_ns ts' = total_ns ts"
proof -
  define q r s where "q = tv_nsec ts sdiv NUMBER_10E9" and "r = tv_nsec ts smod NUMBER_10E9"
    and "s = tv_sec ts + q"
  have qr: "q * NUMBER_10E9 + r = tv_nsec ts" and rb: "\<bar>r\<bar> < NUMBER_10E9"
    unfolding q_def r_def by (rule sdiv_smod_billion, rule smod_billion_bounds)
  have hole: "to_int32 q = q"
    using sdiv_billion_range [OF ns] by (simp add: to_int32_id q_def)
  have cl: "c_long s = Inr s" using sec by (simp add: long_range_def s_def q_def)
  show ?thesis
    using qr rb cl
    by (auto simp: timespec_rebalance_def Let_def q_def [symmetric] r_def [symmetric] hole
        s_def [symmetric] balanced_def total_ns_def) (auto simp: s_def algebra_simps)
qed

subsection \<open>Properties\<close>

lemma rebalance_balanced:
  assumes "balanced ts" "long_range (tv_sec ts)"
  shows "timespec_rebalance ts = Inr ts"
proof -
  have ns: "\<bar>tv_nsec ts\<bar> < NUMBER_10E9" using assms(1) by (simp add: balanced_def)
  have q: "tv_nsec ts sdiv NUMBER_10E9 = 0" and r: "tv_nsec ts smod NUMBER_10E9 = tv_nsec ts"
    using ns by (auto simp: signed_divide_int_def signed_modulo_int_def sgn_if abs_if)
  show ?thesis
    using assms by (auto simp: timespec_rebalance_def q r Let_def to_int32_id long_range_def
        balanced_def)
qed

lemma clock_ts_balanced: "clock_ts ts \<Longrightarrow> balanced ts"
  by (simp add: clock_ts_def balanced_def)

lemma time_delta_correct:
  assumes "clock_ts a" "clock_ts b"
  shows "\<exists>d. time_delta a b = Inr d \<and> balanced d \<and> total_ns d = total_ns a - total_ns b"
proof -
  let ?d = "\<lparr>tv_sec = tv_sec a - tv_sec b, tv_nsec = tv_nsec a - tv_nsec b\<rparr>"
  have n: "\<bar>tv_nsec a - tv_nsec b\<bar> < NUMBER_10E9" and s: "\<bar>tv_sec a - tv_sec b\<bar> < 2 ^ 33"
    using assms by (auto simp: clock_ts_def)
  have q: "tv_nsec ?d sdiv NUMBER_10E9 = 0"
    using n by (auto simp: signed_divide_int_def)
  have t: "time_delta a b = timespec_rebalance ?d"
    using n s by (simp add: time_delta_def)
  have e: "\<exists>d. timespec_rebalance ?d = Inr d \<and> balanced d \<and> total_ns d = total_ns ?d"
  proof (rule rebalance_correct)
    show "\<bar>tv_nsec ?d\<bar> < 2 ^ 31 * NUMBER_10E9" using n by simp
    show "long_range (tv_sec ?d + tv_nsec ?d sdiv NUMBER_10E9)"
      unfolding q using s by (simp add: long_range_def abs_less_iff)
  qed
  have "total_ns ?d = total_ns a - total_ns b" by (simp add: total_ns_def algebra_simps)
  with t e show ?thesis by simp
qed

lemma timespec_to_ns_total: "timespec_to_ns ts = word_of_int (total_ns ts)"
  by (simp add: timespec_to_ns_def total_ns_def)

lemma timespec_lt_total:
  assumes "balanced a" "balanced b"
  shows "timespec_lt a b \<longleftrightarrow> total_ns a < total_ns b"
  using assms unfolding balanced_def total_ns_def timespec_lt_def by (auto split: if_splits)




text \<open>The two conversions are inverse: from every \<open>uint64_t\<close>, and from every reading of the clock.\<close>

lemma ns_timespec_ns: "timespec_to_ns (ns_to_timespec ns) = ns"
proof -
  have "ns div 1000000000 * 1000000000 + ns mod 1000000000 = ns"
    by (rule div_mult_mod_eq)
  then show ?thesis by (simp add: timespec_to_ns_def ns_to_timespec_def)
qed

lemma uint_timespec_to_ns:
  assumes "0 \<le> total_ns ts" "total_ns ts < 2 ^ 64"
  shows "uint (timespec_to_ns ts) = total_ns ts"
  unfolding timespec_to_ns_total using assms by (rule uint_of_int64)

lemma clock_total_range: "clock_ts ts \<Longrightarrow> 0 \<le> total_ns ts \<and> total_ns ts < 2 ^ 64"
  by (auto simp: clock_ts_def total_ns_def)

lemma timespec_ns_timespec:
  assumes "clock_ts ts"
  shows "ns_to_timespec (timespec_to_ns ts) = ts"
proof -
  let ?w = "timespec_to_ns ts"
  have w: "uint ?w = total_ns ts"
    using clock_total_range [OF assms] by (intro uint_timespec_to_ns) auto
  have b: "0 \<le> tv_sec ts" "tv_sec ts < 2 ^ 33" "0 \<le> tv_nsec ts" "tv_nsec ts < NUMBER_10E9"
    using assms by (auto simp: clock_ts_def)
  have d: "total_ns ts div NUMBER_10E9 = tv_sec ts" "total_ns ts mod NUMBER_10E9 = tv_nsec ts"
    using b by (auto simp: total_ns_def)
  have u: "uint (?w div 1000000000) = tv_sec ts" "uint (?w mod 1000000000) = tv_nsec ts"
    using d by (simp_all add: uint_div uint_mod w)
  show ?thesis
    using u b by (simp add: ns_to_timespec_def sint_small64)
qed

lemma now_monotonic_reads [simp]: "now_monotonic clock w = clock w"
  by (cases "clock w") (simp add: now_monotonic_def now_monotonic_p_def)

subsection \<open>Claims\<close>




text \<open>when more whole seconds sit in the nanosecond field than an \<open>int\<close> holds, the
  conversion to \<open>int hole_parts\<close> loses them: \<open>2 ^ 32\<close> seconds become none.\<close>

lemma rebalance_truncates_hole_parts:
  "timespec_rebalance \<lparr>tv_sec = 0, tv_nsec = 4294967296 * NUMBER_10E9\<rparr>
     = Inr \<lparr>tv_sec = 0, tv_nsec = 0\<rparr>
   \<and> total_ns \<lparr>tv_sec = 0, tv_nsec = 4294967296 * NUMBER_10E9\<rparr> = 2 ^ 32 * NUMBER_10E9"
  by (simp add: timespec_rebalance_def to_int32_def total_ns_def Let_def)

text \<open>the first example of the comment above \<open>timespec_rebalance\<close> (2 s and -13e5 ns
  become 0 s and 7e5 ns) is not what the code computes.\<close>

lemma rebalance_comment_example:
  "timespec_rebalance \<lparr>tv_sec = 2, tv_nsec = - 1300000\<rparr> = Inr \<lparr>tv_sec = 1, tv_nsec = 998700000\<rparr>"
  by (simp add: timespec_rebalance_def to_int32_def Let_def)

text \<open>C35: for two readings of the clock, end not before start, the delta never overflows, is
  balanced and converts to the exact number of nanoseconds between them.\<close>

theorem delta_ns_exact:
  assumes "clock_ts start" "clock_ts end'" "total_ns start \<le> total_ns end'"
  shows "\<exists>d. time_delta end' start = Inr d \<and> balanced d
     \<and> uint (timespec_to_ns d) = total_ns end' - total_ns start"
proof -
  obtain d where d: "time_delta end' start = Inr d" "balanced d"
      "total_ns d = total_ns end' - total_ns start"
    using time_delta_correct [OF assms(2,1)] by blast
  moreover have "uint (timespec_to_ns d) = total_ns d"
    using d(3) assms(3) clock_total_range [OF assms(1)] clock_total_range [OF assms(2)]
    by (intro uint_timespec_to_ns) auto
  ultimately show ?thesis by simp
qed

theorem delta_ns_exact_witness:
  "\<exists>d. time_delta \<lparr>tv_sec = 5, tv_nsec = 100\<rparr> \<lparr>tv_sec = 3, tv_nsec = 200\<rparr> = Inr d \<and> balanced d
     \<and> uint (timespec_to_ns d) = 1999999900"
  using delta_ns_exact [of "\<lparr>tv_sec = 3, tv_nsec = 200\<rparr>" "\<lparr>tv_sec = 5, tv_nsec = 100\<rparr>"]
  by (simp add: clock_ts_def total_ns_def)

text \<open>C36: on balanced arguments the comparison orders timespecs by the instant they denote.\<close>

theorem timespec_lt_by_instant:
  assumes "balanced a" "balanced b"
  shows "timespec_lt a b \<longleftrightarrow> total_ns a < total_ns b"
  using assms by (rule timespec_lt_total)

theorem timespec_lt_by_instant_witness:
  "timespec_lt \<lparr>tv_sec = - 2, tv_nsec = - 5\<rparr> \<lparr>tv_sec = - 1, tv_nsec = - 900000000\<rparr>"
  using timespec_lt_by_instant [of "\<lparr>tv_sec = - 2, tv_nsec = - 5\<rparr>" "\<lparr>tv_sec = - 1, tv_nsec = - 900000000\<rparr>"]
  by (simp add: balanced_def total_ns_def)

end
