(* ===== verification/Measurements.thy ===== *)
theory Measurements
  imports CMemory CommonUtils
begin

text \<open>
  code/c/common/measurements.c: the preallocated container of equal-sized entries, at the
  level of its bytes, and its abstraction to the list of entries. The interface
  \<open>bounded_log\<close> is what the benchmark relies on: an append-only log with a capacity.
\<close>

text \<open>\<open>struct meas_value_holder\<close>: one \<open>uint64_t\<close>, 8 bytes.\<close>

record meas_value_holder =
  mv_value :: "64 word"

text \<open>\<open>struct meas_pcontainer\<close>; \<open>mc_ptr\<close> is the block behind \<open>ptr\<close>.\<close>

record meas_pcontainer =
  mc_entry_size :: "64 word"
  mc_capacity :: "64 word"
  mc_size :: "64 word"
  mc_ptr :: "byte list option"

definition meas_create_value_holder :: "64 word \<Rightarrow> meas_value_holder" where
  "meas_create_value_holder value = \<lparr>mv_value = value\<rparr>"

text \<open>The bytes of a holder in memory (x86-64), and the holder a pointer to bytes reads.\<close>

definition holder_bytes :: "meas_value_holder \<Rightarrow> byte list" where
  "holder_bytes h = u64_bytes (mv_value h)"

definition holder_of_bytes :: "byte list \<Rightarrow> meas_value_holder" where
  "holder_of_bytes bs = \<lparr>mv_value = u64_of_bytes bs\<rparr>"

text \<open>
  \<open>malloc\<close> is a parameter: for a size in bytes, a block of that many bytes with any
  content, or \<open>None\<close>. The product of the two sizes wraps, as \<open>size_t\<close> does.
\<close>

definition malloc_spec :: "(nat \<Rightarrow> byte list option) \<Rightarrow> bool" where
  "malloc_spec malloc \<longleftrightarrow> (\<forall>n b. malloc n = Some b \<longrightarrow> length b = n)"

definition meas_pcontainer_create ::
    "(nat \<Rightarrow> byte list option) \<Rightarrow> 64 word \<Rightarrow> 64 word \<Rightarrow> meas_pcontainer res" where
  "meas_pcontainer_create malloc entry_size capacity =
     (let container = \<lparr>mc_entry_size = entry_size, mc_capacity = capacity, mc_size = 0, mc_ptr = None\<rparr>
      in bindE (assert_nnull (malloc (unat (entry_size * capacity))) ''malloc'') (\<lambda>p.
         Inr (container\<lparr>mc_ptr := Some p\<rparr>)))"

definition meas_pcontainer_store ::
    "meas_pcontainer \<Rightarrow> byte list \<Rightarrow> 64 word \<Rightarrow> (int \<times> meas_pcontainer) res" where
  "meas_pcontainer_store container holder holder_size =
     (if mc_entry_size container \<noteq> holder_size then Inr (- 1, container)
      else if mc_size container = mc_capacity container then Inr (- 1, container)
      else case mc_ptr container of
        None \<Rightarrow> Inl (UB NullDeref)
      | Some blk \<Rightarrow>
         bindE (mem_read holder 0 (unat holder_size)) (\<lambda>src.
         bindE (mem_write blk (unat (mc_size container * holder_size)) src) (\<lambda>blk'.
         Inr (0, container\<lparr>mc_ptr := Some blk', mc_size := mc_size container + 1\<rparr>))))"

text \<open>\<open>free\<close> of the block, after which the pointer is \<open>NULL\<close> and the size 0.\<close>

definition meas_pcontainer_free :: "meas_pcontainer \<Rightarrow> meas_pcontainer" where
  "meas_pcontainer_free container = container\<lparr>mc_ptr := None, mc_size := 0\<rparr>"

subsection \<open>Abstraction and invariant\<close>

definition mc_block :: "meas_pcontainer \<Rightarrow> byte list" where
  "mc_block c = (case mc_ptr c of None \<Rightarrow> [] | Some b \<Rightarrow> b)"

definition mc_entry :: "meas_pcontainer \<Rightarrow> nat \<Rightarrow> byte list" where
  "mc_entry c i = take (unat (mc_entry_size c)) (drop (i * unat (mc_entry_size c)) (mc_block c))"

definition mc_entries :: "meas_pcontainer \<Rightarrow> byte list list" where
  "mc_entries c = map (mc_entry c) [0..<unat (mc_size c)]"

definition mc_inv :: "meas_pcontainer \<Rightarrow> bool" where
  "mc_inv c \<longleftrightarrow> mc_ptr c \<noteq> None \<and> unat (mc_size c) \<le> unat (mc_capacity c)
     \<and> length (mc_block c) = unat (mc_entry_size c) * unat (mc_capacity c)
     \<and> unat (mc_entry_size c) * unat (mc_capacity c) < 2 ^ 64"

lemma unat_mult64: "unat a * unat b < 2 ^ 64 \<Longrightarrow> unat (a * b :: 64 word) = unat a * unat b"
  by (simp add: unat_word_ariths)

lemma unat_Suc64: "unat (a :: 64 word) < unat (b :: 64 word) \<Longrightarrow> unat (a + 1) = Suc (unat a)"
  using unsigned_less [of b, where ?'a = nat] by (simp add: unat_word_ariths)

lemma create_inv:
  assumes "malloc_spec malloc" "unat es * unat cap < 2 ^ 64"
    and "meas_pcontainer_create malloc es cap = Inr c"
  shows "mc_inv c \<and> mc_entries c = [] \<and> mc_entry_size c = es \<and> mc_capacity c = cap"
  using assms
  by (auto simp: meas_pcontainer_create_def mc_inv_def mc_entries_def mc_block_def malloc_spec_def
      unat_mult64 bindE_eq_Inr assertion_defs split: option.splits)

text \<open>A store into a block with room for it, however the block's length and the capacity relate.\<close>

lemma store_fits:
  assumes b: "mc_ptr c = Some b" "length b < 2 ^ 64"
    and fit: "unat (mc_size c) * unat (mc_entry_size c) + unat (mc_entry_size c) \<le> length b"
    and room: "unat (mc_size c) < unat (mc_capacity c)" and len: "length h = unat (mc_entry_size c)"
  shows "\<exists>b'. meas_pcontainer_store c h (mc_entry_size c) = Inr (0, c\<lparr>mc_ptr := Some b', mc_size := mc_size c + 1\<rparr>)
     \<and> length b' = length b \<and> mc_entries (c\<lparr>mc_ptr := Some b', mc_size := mc_size c + 1\<rparr>) = mc_entries c @ [h]"
proof -
  let ?es = "unat (mc_entry_size c)" and ?n = "unat (mc_size c)"
  have off: "unat (mc_size c * mc_entry_size c) = ?n * ?es"
    using fit b(2) by (intro unat_mult64) simp
  define b' where "b' = take (?n * ?es) b @ h @ drop (?n * ?es + ?es) b"
  define c' where "c' = c\<lparr>mc_ptr := Some b', mc_size := mc_size c + 1\<rparr>"
  have st: "meas_pcontainer_store c h (mc_entry_size c) = Inr (0, c')"
    using room fit by (auto simp: meas_pcontainer_store_def b(1) off len b'_def c'_def)
  have n': "unat (mc_size c') = Suc ?n" using unat_Suc64 [OF room] by (simp add: c'_def)
  have l: "length b' = length b" using fit len by (simp add: b'_def)
  have old: "mc_entry c' i = mc_entry c i" if "i < ?n" for i
  proof -
    have "i * ?es + ?es \<le> ?n * ?es" using mult_le_mono1 [of "Suc i" ?n ?es] that by simp
    with mem_write_before [of "?n * ?es" h b "i * ?es" ?es] fit len b show ?thesis
      by (simp add: mc_entry_def mc_block_def c'_def b'_def)
  qed
  have "mc_entry c' ?n = h"
    using mem_write_same [of "?n * ?es" h b] fit len b
    by (simp add: mc_entry_def mc_block_def c'_def b'_def)
  then have "mc_entries c' = mc_entries c @ [h]" using old n' by (simp add: mc_entries_def)
  with st l show ?thesis unfolding c'_def by blast
qed

lemma store_appends:
  assumes inv: "mc_inv c" and room: "mc_size c \<noteq> mc_capacity c"
    and len: "length h = unat (mc_entry_size c)"
  shows "\<exists>c'. meas_pcontainer_store c h (mc_entry_size c) = Inr (0, c') \<and> mc_inv c'
     \<and> mc_entries c' = mc_entries c @ [h] \<and> mc_capacity c' = mc_capacity c
     \<and> mc_entry_size c' = mc_entry_size c"
proof -
  let ?es = "unat (mc_entry_size c)" and ?n = "unat (mc_size c)" and ?k = "unat (mc_capacity c)"
  obtain b where b: "mc_ptr c = Some b" "length b = ?es * ?k" "?es * ?k < 2 ^ 64"
    using inv by (auto simp: mc_inv_def mc_block_def)
  have nk: "?n < ?k" using inv room by (auto simp: mc_inv_def word_unat_eq_iff le_less)
  have fit: "?n * ?es + ?es \<le> length b"
    using mult_le_mono1 [of "Suc ?n" ?k ?es] nk b(2) by (simp add: algebra_simps)
  have lb: "length b < 2 ^ 64" using b(2,3) by simp
  from store_fits [OF b(1) lb fit nk len] obtain b' where b':
    "meas_pcontainer_store c h (mc_entry_size c) = Inr (0, c\<lparr>mc_ptr := Some b', mc_size := mc_size c + 1\<rparr>)"
    "length b' = length b" "mc_entries (c\<lparr>mc_ptr := Some b', mc_size := mc_size c + 1\<rparr>) = mc_entries c @ [h]" by blast
  have "mc_inv (c\<lparr>mc_ptr := Some b', mc_size := mc_size c + 1\<rparr>)"
    using b b'(2) nk unat_Suc64 [OF nk] by (simp add: mc_inv_def mc_block_def)
  with b' show ?thesis by auto
qed

lemma store_full: "mc_size c = mc_capacity c \<Longrightarrow> meas_pcontainer_store c h s = Inr (- 1, c)"
  by (simp add: meas_pcontainer_store_def)

lemma store_wrong_size: "mc_entry_size c \<noteq> s \<Longrightarrow> meas_pcontainer_store c h s = Inr (- 1, c)"
  by (simp add: meas_pcontainer_store_def)

lemma length_mc_entries [simp]: "length (mc_entries c) = unat (mc_size c)"
  by (simp add: mc_entries_def)

subsection \<open>The interface: a bounded log\<close>

text \<open>Storing one element after another; the return codes are ignored, as a full log is.\<close>

fun store_list :: "('e \<Rightarrow> 'c \<Rightarrow> (int \<times> 'c) res) \<Rightarrow> 'e list \<Rightarrow> 'c \<Rightarrow> 'c res" where
  "store_list store [] c = Inr c"
| "store_list store (e # es) c = bindE (store e c) (\<lambda>(rc, c'). store_list store es c')"

locale bounded_log =
  fixes entries :: "'c \<Rightarrow> 'e list"
    and cap :: "'c \<Rightarrow> nat"
    and invar :: "'c \<Rightarrow> bool"
    and store :: "'e \<Rightarrow> 'c \<Rightarrow> (int \<times> 'c) res"
  assumes bounded: "invar c \<Longrightarrow> length (entries c) \<le> cap c"
    and room: "invar c \<Longrightarrow> length (entries c) < cap c \<Longrightarrow>
      \<exists>c'. store e c = Inr (0, c') \<and> invar c' \<and> cap c' = cap c \<and> entries c' = entries c @ [e]"
    and full: "invar c \<Longrightarrow> length (entries c) = cap c \<Longrightarrow> store e c = Inr (- 1, c)"
begin

lemma store_cases:
  assumes "invar c"
  shows "\<exists>rc c'. store e c = Inr (rc, c') \<and> invar c' \<and> cap c' = cap c
     \<and> entries c' = take (cap c) (entries c @ [e]) \<and> (rc < 0 \<longleftrightarrow> length (entries c) = cap c)"
proof (cases "length (entries c) = cap c")
  case True
  with full [OF assms] assms show ?thesis by auto
next
  case False
  with bounded [OF assms] have "length (entries c) < cap c" by simp
  with room [OF assms, of e] show ?thesis by auto
qed

lemma store_list_entries:
  assumes "invar c"
  shows "\<exists>c'. store_list store es c = Inr c' \<and> invar c' \<and> cap c' = cap c
     \<and> entries c' = take (cap c) (entries c @ es)"
  using assms
proof (induction es arbitrary: c)
  case Nil
  with bounded show ?case by auto
next
  case (Cons e es)
  obtain rc c1 where c1: "store e c = Inr (rc, c1)" "invar c1" "cap c1 = cap c"
      "entries c1 = take (cap c) (entries c @ [e])"
    using store_cases [OF Cons.prems] by blast
  have "take (cap c) (entries c1 @ es) = take (cap c) (entries c @ e # es)"
    using bounded [OF Cons.prems] c1(4) by (cases "length (entries c) = cap c") auto
  with Cons.IH [OF c1(2)] c1 show ?case by simp
qed

end

text \<open>The container of value holders, read as the list of the stored values.\<close>

definition mc_values :: "meas_pcontainer \<Rightarrow> 64 word list" where
  "mc_values c = map (\<lambda>bs. mv_value (holder_of_bytes bs)) (mc_entries c)"

definition store_value :: "64 word \<Rightarrow> meas_pcontainer \<Rightarrow> (int \<times> meas_pcontainer) res" where
  "store_value v c = meas_pcontainer_store c (holder_bytes (meas_create_value_holder v)) 8"

definition values_inv :: "meas_pcontainer \<Rightarrow> bool" where
  "values_inv c \<longleftrightarrow> mc_inv c \<and> mc_entry_size c = 8"

lemma holder_roundtrip [simp]:
  "holder_of_bytes (holder_bytes h) = h" "length (holder_bytes h) = 8"
  by (simp_all add: holder_bytes_def holder_of_bytes_def)

lemma holder_nonempty [simp]: "holder_bytes h \<noteq> []"
  using holder_roundtrip(2) [of h] by (metis list.size(3) zero_neq_numeral)

interpretation value_log: bounded_log mc_values "\<lambda>c. unat (mc_capacity c)" values_inv store_value
proof (unfold_locales, goal_cases)
  case (1 c)
  then show ?case by (simp add: values_inv_def mc_inv_def mc_values_def)
next
  case (2 c e)
  then have "mc_size c \<noteq> mc_capacity c" by (auto simp: mc_values_def)
  with 2 obtain c' where "meas_pcontainer_store c (holder_bytes (meas_create_value_holder e)) 8 = Inr (0, c')"
      "mc_inv c'" "mc_entry_size c' = 8" "mc_capacity c' = mc_capacity c"
      "mc_entries c' = mc_entries c @ [holder_bytes (meas_create_value_holder e)]"
    using store_appends [of c "holder_bytes (meas_create_value_holder e)"]
    by (auto simp: values_inv_def)
  then show ?case
    by (simp add: values_inv_def store_value_def mc_values_def meas_create_value_holder_def)
next
  case (3 c e)
  then show ?case
    by (simp add: store_value_def mc_values_def store_full word_unat_eq_iff)
qed

subsection \<open>Claims\<close>

text \<open>C33: whatever is stored, one value holder after another, a fresh container then holds
  exactly the first \<open>capacity\<close> values, in order and bit for bit, and no store leaves
  the block.\<close>

theorem container_keeps_values:
  assumes "malloc_spec malloc" "8 * unat capacity < 2 ^ 64"
    and "meas_pcontainer_create malloc 8 capacity = Inr c"
  shows "\<exists>c'. store_list store_value vs c = Inr c' \<and> mc_values c' = take (unat capacity) vs
     \<and> values_inv c'"
proof -
  have "values_inv c" "mc_values c = []" "mc_capacity c = capacity"
    using create_inv [of malloc 8 capacity c] assms by (auto simp: values_inv_def mc_values_def)
  with value_log.store_list_entries [of c vs] show ?thesis by auto
qed

theorem container_keeps_values_witness:
  "\<exists>c'. store_list store_value [10, 20, 30]
      \<lparr>mc_entry_size = 8, mc_capacity = 2, mc_size = 0, mc_ptr = Some (replicate 16 7)\<rparr> = Inr c'
     \<and> mc_values c' = [10, 20] \<and> values_inv c'"
  using container_keeps_values [of "\<lambda>n. Some (replicate n 7)" 2
      "\<lparr>mc_entry_size = 8, mc_capacity = 2, mc_size = 0, mc_ptr = Some (replicate 16 7)\<rparr>" "[10, 20, 30]"]
  by (simp add: malloc_spec_def meas_pcontainer_create_def)

text \<open>Stores up to what the block has room for.\<close>

definition store_entry :: "64 word \<Rightarrow> byte list \<Rightarrow> meas_pcontainer \<Rightarrow> (int \<times> meas_pcontainer) res" where
  "store_entry es h c = meas_pcontainer_store c h es"

lemma store_list_fits:
  assumes "mc_ptr c = Some b" "length b < 2 ^ 64" "(unat (mc_size c) + length hs) * unat (mc_entry_size c) \<le> length b"
    and "unat (mc_size c) + length hs \<le> unat (mc_capacity c)" "\<forall>h \<in> set hs. length h = unat (mc_entry_size c)"
  shows "\<exists>c' b'. store_list (store_entry (mc_entry_size c)) hs c = Inr c' \<and> mc_ptr c' = Some b' \<and> length b' = length b
     \<and> unat (mc_size c') = unat (mc_size c) + length hs \<and> mc_entries c' = mc_entries c @ hs
     \<and> mc_capacity c' = mc_capacity c \<and> mc_entry_size c' = mc_entry_size c"
  using assms
proof (induction hs arbitrary: c b)
  case (Cons h hs)
  let ?es = "unat (mc_entry_size c)"
  have "(unat (mc_size c) + 1) * ?es \<le> (unat (mc_size c) + length (h # hs)) * ?es" by (intro mult_le_mono1) simp
  then have fit: "unat (mc_size c) * ?es + ?es \<le> length b" using le_trans [OF _ Cons.prems(3)] by (simp add: algebra_simps)
  have nk: "unat (mc_size c) < unat (mc_capacity c)" and len: "length h = ?es" using Cons.prems(4,5) by auto
  from store_fits [OF Cons.prems(1,2) fit nk len] obtain b1 where b1:
    "meas_pcontainer_store c h (mc_entry_size c) = Inr (0, c\<lparr>mc_ptr := Some b1, mc_size := mc_size c + 1\<rparr>)"
    "length b1 = length b" "mc_entries (c\<lparr>mc_ptr := Some b1, mc_size := mc_size c + 1\<rparr>) = mc_entries c @ [h]" by blast
  define c1 where "c1 = c\<lparr>mc_ptr := Some b1, mc_size := mc_size c + 1\<rparr>"
  have c1: "mc_ptr c1 = Some b1" "unat (mc_size c1) = Suc (unat (mc_size c))" "mc_capacity c1 = mc_capacity c"
    "mc_entry_size c1 = mc_entry_size c" "mc_entries c1 = mc_entries c @ [h]"
    using b1(3) unat_Suc64 [OF nk] by (simp_all add: c1_def)
  have "\<exists>c' b'. store_list (store_entry (mc_entry_size c1)) hs c1 = Inr c' \<and> mc_ptr c' = Some b' \<and> length b' = length b1
     \<and> unat (mc_size c') = unat (mc_size c1) + length hs \<and> mc_entries c' = mc_entries c1 @ hs
     \<and> mc_capacity c' = mc_capacity c1 \<and> mc_entry_size c' = mc_entry_size c1"
    using Cons.prems b1(2) c1 by (intro Cons.IH) (auto simp: algebra_simps)
  moreover have "store_entry (mc_entry_size c) h c = Inr (0, c1)" using b1(1) by (simp add: store_entry_def c1_def)
  ultimately show ?case using b1(2) c1 by auto
qed simp

text \<open>C38: \<open>malloc\<close> is asked for the product of the sizes modulo \<open>2 ^ 64\<close>. As many entries as
  fit into that many bytes are stored, in order and inside the block. If the product did not wrap
  the container is full by then and refuses the next; if it wrapped, the next store writes outside
  the block although the container is below its capacity.\<close>

theorem container_size_wraps:
  assumes "malloc_spec malloc" "meas_pcontainer_create malloc es capacity = Inr c" "es \<noteq> 0"
    and "length hs = unat (es * capacity) div unat es" "\<forall>h \<in> set (h0 # hs). length h = unat es"
  shows "\<exists>c'. store_list (\<lambda>h c. meas_pcontainer_store c h es) hs c = Inr c' \<and> mc_entries c' = hs
     \<and> meas_pcontainer_store c' h0 es
        = (if unat es * unat capacity < 2 ^ 64 then Inr (- 1, c') else Inl (UB OutOfBounds))"
proof -
  let ?e = "unat es" and ?k = "unat capacity" and ?B = "unat (es * capacity)"
  have e: "0 < ?e" using assms(3) by (simp add: unat_gt_0)
  have B: "?B = ?e * ?k mod 2 ^ 64" by (simp add: unat_word_ariths)
  obtain b where b: "c = \<lparr>mc_entry_size = es, mc_capacity = capacity, mc_size = 0, mc_ptr = Some b\<rparr>" "length b = ?B"
    using assms(1,2) by (auto simp: meas_pcontainer_create_def malloc_spec_def bindE_eq_Inr assertion_defs split: option.splits)
  have "?B < 2 ^ 64" unfolding B by simp
  then have fit: "length hs * ?e \<le> ?B" "?B < length hs * ?e + ?e" "?B < 2 ^ 64"
    using e assms(4) dividend_less_div_times [of ?e ?B] by (auto simp: algebra_simps)
  have le: "?B \<le> ?e * ?k" unfolding B by simp
  have "length hs \<le> ?k" using assms(4) e div_le_mono [OF le, of ?e] by simp
  have c0: "mc_ptr c = Some b" "mc_size c = 0" "mc_capacity c = capacity" "mc_entry_size c = es" "mc_entries c = []"
    using b(1) by (simp_all add: mc_entries_def)
  have "length b < 2 ^ 64" "(unat (mc_size c) + length hs) * unat (mc_entry_size c) \<le> length b"
    "unat (mc_size c) + length hs \<le> unat (mc_capacity c)" "\<forall>h \<in> set hs. length h = unat (mc_entry_size c)"
    unfolding b(2) c0 unsigned_0 add_0 using fit \<open>length hs \<le> ?k\<close> assms(5) by simp_all
  from store_list_fits [OF c0(1) this] obtain c' b' where c':
    "store_list (store_entry es) hs c = Inr c'" "mc_ptr c' = Some b'" "length b' = ?B" "unat (mc_size c') = length hs"
    "mc_entries c' = hs" "mc_capacity c' = capacity" "mc_entry_size c' = es"
    unfolding b(2) c0 unsigned_0 add_0 append_Nil by blast
  have "meas_pcontainer_store c' h0 es = (if ?e * ?k < 2 ^ 64 then Inr (- 1, c') else Inl (UB OutOfBounds))"
  proof (cases "?e * ?k < 2 ^ 64")
    case True
    then have "unat (mc_size c') = ?k" using c'(4) assms(4) e by (simp add: B)
    then show ?thesis using True c'(6) by (simp add: store_full word_unat_eq_iff)
  next
    case False
    then have "?B < ?e * ?k" using fit(3) by simp
    from le_less_trans [OF fit(1) this] have "length hs * ?e < ?k * ?e" by (simp only: mult.commute [of ?e])
    then have "mc_size c' \<noteq> mc_capacity c'" using c'(4,6) by auto
    moreover have "unat (mc_size c' * es) = length hs * ?e"
      using unat_mult64 [of "mc_size c'" es] le_less_trans [OF fit(1,3)] unfolding c'(4) by blast
    moreover have "h0 \<noteq> []" "length h0 = ?e" using assms(5) e by auto
    ultimately have "meas_pcontainer_store c' h0 es = Inl (UB OutOfBounds)"
      using c'(2,3,7) fit(2) by (simp add: meas_pcontainer_store_def mem_write_def)
    then show ?thesis using False by simp
  qed
  then show ?thesis using c'(1,5) by (auto simp: store_entry_def [abs_def])
qed

text \<open>With \<open>2 ^ 61 + 1\<close> entries of 8 bytes the block has 8 bytes: the second store is outside.\<close>

theorem container_size_wraps_witness:
  "\<exists>c c'. meas_pcontainer_create (\<lambda>n. Some (replicate n 0)) 8 (2 ^ 61 + 1) = Inr c
     \<and> store_list (\<lambda>h c. meas_pcontainer_store c h 8) [replicate 8 1] c = Inr c' \<and> mc_entries c' = [replicate 8 1]
     \<and> meas_pcontainer_store c' (replicate 8 2) 8 = Inl (UB OutOfBounds)"
proof -
  obtain c where c: "meas_pcontainer_create (\<lambda>n. Some (replicate n 0)) 8 (2 ^ 61 + 1) = Inr c"
    by (simp add: meas_pcontainer_create_def)
  show ?thesis
    using container_size_wraps [OF _ c, of "[replicate 8 1]" "replicate 8 2"] c by (simp add: malloc_spec_def)
qed

end
