(* ===== verification/Printf.thy ===== *)
theory Printf
  imports Prelude "HOL-Library.Monad_Syntax"
begin

text \<open>
  The decimal conversions \<open>%lu\<close> and \<open>%d\<close> of \<open>fprintf\<close>, as the C standard
  describes them, with readers that invert them: used to show that the file the benchmark
  writes determines the data it was written from.
\<close>

definition digit :: "nat \<Rightarrow> char" where
  "digit d = char_of (48 + d)"

definition is_digit :: "char \<Rightarrow> bool" where
  "is_digit c \<longleftrightarrow> (48::nat) \<le> of_char c \<and> (of_char c :: nat) \<le> 57"

definition digit_val :: "char \<Rightarrow> nat" where
  "digit_val c = of_char c - 48"

fun show_nat :: "nat \<Rightarrow> string" where
  "show_nat n = (if n < 10 then [digit n] else show_nat (n div 10) @ [digit (n mod 10)])"

declare show_nat.simps [simp del]

definition show_int :: "int \<Rightarrow> string" where
  "show_int z = (if z < 0 then CHR ''-'' # show_nat (nat (- z)) else show_nat (nat z))"

fun read_digits :: "nat \<Rightarrow> string \<Rightarrow> nat \<times> string" where
  "read_digits acc [] = (acc, [])"
| "read_digits acc (c # cs) =
     (if is_digit c then read_digits (10 * acc + digit_val c) cs else (acc, c # cs))"

definition read_nat :: "string \<Rightarrow> (nat \<times> string) option" where
  "read_nat s = (case s of [] \<Rightarrow> None | c # _ \<Rightarrow> if is_digit c then Some (read_digits 0 s) else None)"

definition read_int :: "string \<Rightarrow> (int \<times> string) option" where
  "read_int s = (case s of
     [] \<Rightarrow> None
   | c # cs \<Rightarrow> if c = CHR ''-'' then map_option (\<lambda>(n, r). (- int n, r)) (read_nat cs)
                else map_option (\<lambda>(n, r). (int n, r)) (read_nat s))"

fun expect :: "string \<Rightarrow> string \<Rightarrow> string option" where
  "expect [] s = Some s"
| "expect (c # cs) [] = None"
| "expect (c # cs) (d # ds) = (if c = d then expect cs ds else None)"

definition stops :: "string \<Rightarrow> bool" where
  "stops s \<longleftrightarrow> (case s of [] \<Rightarrow> True | c # _ \<Rightarrow> \<not> is_digit c)"

lemma is_digit_digit [simp]: "d < 10 \<Longrightarrow> is_digit (digit d)"
  by (simp add: is_digit_def digit_def of_char_of)

lemma digit_val_digit [simp]: "d < 10 \<Longrightarrow> digit_val (digit d) = d"
  by (simp add: digit_val_def digit_def of_char_of)

lemma expect_append [simp]: "expect p (p @ s) = Some s"
  by (induction p) auto

lemma show_nat_nonempty: "\<exists>c cs. show_nat n = c # cs \<and> is_digit c"
proof (induction n rule: show_nat.induct)
  case (1 n)
  then show ?case by (cases "n < 10") (auto simp: show_nat.simps [of n])
qed

lemma read_digits_append:
  assumes "\<forall>c \<in> set s. is_digit c"
  shows "read_digits acc (s @ t) = read_digits (fst (read_digits acc s)) t"
  using assms by (induction s arbitrary: acc) auto

lemma digits_show_nat: "\<forall>c \<in> set (show_nat n). is_digit c"
proof (induction n rule: show_nat.induct)
  case (1 n)
  then show ?case by (cases "n < 10") (auto simp: show_nat.simps [of n])
qed

lemma read_digits_show_nat: "fst (read_digits 0 (show_nat n)) = n"
proof (induction n rule: show_nat.induct)
  case (1 n)
  then show ?case
    by (cases "n < 10") (auto simp: show_nat.simps [of n] read_digits_append [OF digits_show_nat])
qed

lemma read_digits_stops: "stops s \<Longrightarrow> read_digits acc s = (acc, s)"
  by (cases s) (auto simp: stops_def)

lemma read_nat_show [simp]:
  assumes "stops s"
  shows "read_nat (show_nat n @ s) = Some (n, s)"
proof -
  have "read_digits 0 (show_nat n @ s) = (n, s)"
    using assms
    by (simp add: read_digits_append [OF digits_show_nat] read_digits_show_nat read_digits_stops)
  moreover obtain c cs where "show_nat n = c # cs" "is_digit c"
    using show_nat_nonempty by blast
  ultimately show ?thesis by (simp add: read_nat_def)
qed

lemma minus_no_digit: "\<not> is_digit CHR ''-''"
  by (simp add: is_digit_def)

lemma read_int_show [simp]:
  assumes "stops s"
  shows "read_int (show_int z @ s) = Some (z, s)"
proof (cases "z < 0")
  case True
  then show ?thesis using assms by (simp add: read_int_def show_int_def)
next
  case False
  obtain c cs where c: "show_nat (nat z) = c # cs" "is_digit c" using show_nat_nonempty by blast
  then have "c \<noteq> CHR ''-''" using minus_no_digit by auto
  with c False read_nat_show [OF assms, of "nat z"] show ?thesis
    by (auto simp: read_int_def show_int_def)
qed

end
