(* ===== verification/ServerBench.thy ===== *)
theory ServerBench
  imports Measurements TimeUtils Printf
begin

text \<open>
  code/c/server/server_benchmark.c: the benchmarking record of a server. Operations that
  read the clock take it as a parameter and pass the world along.
\<close>

record server_bench =
  do_measure :: int
  client_no :: int
  request_no :: "64 word"
  meas_start_time :: timespec
  meas_end_time :: timespec
  event_latency :: meas_pcontainer

abbreviation zero_ts :: timespec where "zero_ts \<equiv> \<lparr>tv_sec = 0, tv_nsec = 0\<rparr>"

definition sb_create :: "(nat \<Rightarrow> byte list option) \<Rightarrow> int \<Rightarrow> server_bench res" where
  "sb_create malloc expected_no_events =
     (let instance = \<lparr>do_measure = 0, client_no = 0, request_no = 0,
        meas_start_time = zero_ts, meas_end_time = zero_ts,
        event_latency = \<lparr>mc_entry_size = 0, mc_capacity = 0, mc_size = 0, mc_ptr = None\<rparr>\<rparr>
      in bindE (meas_pcontainer_create malloc 8 (word_of_int expected_no_events)) (\<lambda>c.
         Inr (instance\<lparr>event_latency := c\<rparr>)))"

definition sb_free :: "server_bench \<Rightarrow> server_bench" where
  "sb_free this = this\<lparr>event_latency := meas_pcontainer_free (event_latency this)\<rparr>"

definition sb_start :: "'w clock \<Rightarrow> server_bench \<times> 'w \<Rightarrow> server_bench \<times> 'w" where
  "sb_start clock = (\<lambda>(this, w).
     if do_measure this \<noteq> 0 then (this, w)
     else case now_monotonic clock w of (t, w') \<Rightarrow>
       (this\<lparr>do_measure := 1, meas_start_time := t\<rparr>, w'))"

definition sb_stop :: "'w clock \<Rightarrow> server_bench \<times> 'w \<Rightarrow> server_bench \<times> 'w" where
  "sb_stop clock = (\<lambda>(this, w). case now_monotonic clock w of (t, w') \<Rightarrow>
     (this\<lparr>do_measure := 0, meas_end_time := t\<rparr>, w'))"

definition sb_client_connected :: "server_bench \<Rightarrow> server_bench res" where
  "sb_client_connected this =
     bindE (c_int (client_no this + 1)) (\<lambda>n. Inr (this\<lparr>client_no := n\<rparr>))"

definition sb_requests_performed :: "server_bench \<Rightarrow> int \<Rightarrow> server_bench" where
  "sb_requests_performed this count =
     (if do_measure this = 0 then this
      else this\<lparr>request_no := request_no this + word_of_int count\<rparr>)"

definition sb_record_event ::
    "'w clock \<Rightarrow> timespec \<Rightarrow> timespec \<Rightarrow> server_bench \<times> 'w \<Rightarrow> (server_bench \<times> 'w) res" where
  "sb_record_event clock start end' = (\<lambda>(this, w).
     if do_measure this = 0 then Inr (this, w)
     else bindE (time_delta end' start) (\<lambda>delta.
       let delta_ns = timespec_to_ns delta;
           value_held = meas_create_value_holder delta_ns
       in bindE (meas_pcontainer_store (event_latency this) (holder_bytes value_held) 8) (\<lambda>(rc, c).
          let this' = this\<lparr>event_latency := c\<rparr>
          in if rc < 0 then Inr (sb_stop clock (this', w)) else Inr (this', w))))"

subsection \<open>Saving\<close>

text \<open>The cast of \<open>ptr + i * entry_size\<close> to a holder and its dereference.\<close>

definition holder_at :: "meas_pcontainer \<Rightarrow> nat \<Rightarrow> meas_value_holder res" where
  "holder_at c i = (case mc_ptr c of
     None \<Rightarrow> Inl (UB NullDeref)
   | Some blk \<Rightarrow> bindE (mem_read blk (unat (word_of_nat i * mc_entry_size c)) 8)
       (\<lambda>bs. Inr (holder_of_bytes bs)))"

fun save_values :: "meas_pcontainer \<Rightarrow> nat list \<Rightarrow> string res" where
  "save_values c [] = Inr []"
| "save_values c (i # is) =
     bindE (holder_at c i) (\<lambda>holder.
     bindE (save_values c is) (\<lambda>rest.
     Inr (''{\"value\":'' @ show_nat (unat (mv_value holder)) @ ''}''
        @ (if word_of_nat i \<noteq> mc_size c - 1 then '','' else []) @ rest)))"

text \<open>
  The text written to \<open>./bench_file.json\<close>, or \<open>None\<close> while measuring; \<open>fopen\<close> is
  the pointer \<open>fopen\<close> returned.
\<close>

definition sb_save_bench :: "'f option \<Rightarrow> server_bench \<Rightarrow> string option res" where
  "sb_save_bench fopen this =
     (if do_measure this \<noteq> 0 then Inr None
      else bindE (assert_nnull fopen ''fopen'') (\<lambda>_.
        bindE (save_values (event_latency this) [0..<unat (mc_size (event_latency this))]) (\<lambda>vals.
        Inr (Some (''{''
          @ ''\"meas_start_time\":'' @ show_nat (unat (timespec_to_ns (meas_start_time this))) @ '',''
          @ ''\"meas_end_time\":'' @ show_nat (unat (timespec_to_ns (meas_end_time this))) @ '',''
          @ ''\"client_no\":'' @ show_int (client_no this) @ '',''
          @ ''\"request_no\":'' @ show_nat (unat (request_no this)) @ '',''
          @ ''\"event_latency\": ['' @ vals @ '']'' @ ''}'')))))"

subsection \<open>Reading the file back\<close>

text \<open>A reader of the file: what a consumer of \<open>bench_file.json\<close> can recover.\<close>

fun parse_values :: "nat \<Rightarrow> string \<Rightarrow> (nat list \<times> string) option" where
  "parse_values 0 s = None"
| "parse_values (Suc k) s = do {
     s1 \<leftarrow> expect ''{\"value\":'' s;
     (v, s2) \<leftarrow> read_nat s1;
     s3 \<leftarrow> expect ''}'' s2;
     (case expect '','' s3 of
        Some s4 \<Rightarrow> do { (vs, r) \<leftarrow> parse_values k s4; Some (v # vs, r) }
      | None \<Rightarrow> Some ([v], s3)) }"

definition parse_array :: "string \<Rightarrow> (nat list \<times> string) option" where
  "parse_array s = (case expect '']'' s of
     Some r \<Rightarrow> Some ([], r)
   | None \<Rightarrow> do { (vs, r) \<leftarrow> parse_values (length s) s; r' \<leftarrow> expect '']'' r; Some (vs, r') })"

definition parse_bench :: "string \<Rightarrow> (nat \<times> nat \<times> int \<times> nat \<times> nat list) option" where
  "parse_bench s = do {
     s \<leftarrow> expect ''{\"meas_start_time\":'' s; (t0, s) \<leftarrow> read_nat s;
     s \<leftarrow> expect '',\"meas_end_time\":'' s; (t1, s) \<leftarrow> read_nat s;
     s \<leftarrow> expect '',\"client_no\":'' s; (c, s) \<leftarrow> read_int s;
     s \<leftarrow> expect '',\"request_no\":'' s; (r, s) \<leftarrow> read_nat s;
     s \<leftarrow> expect '',\"event_latency\": ['' s; (vs, s) \<leftarrow> parse_array s;
     s \<leftarrow> expect ''}'' s;
     (if s = [] then Some (t0, t1, c, r, vs) else None) }"

fun join_values :: "nat list \<Rightarrow> string" where
  "join_values [] = []"
| "join_values (v # vs) = ''{\"value\":'' @ show_nat v @ ''}''
     @ (if vs = [] then [] else '','') @ join_values vs"

lemma stops_simps [simp]:
  "stops []" "stops (CHR ''}'' # s)" "stops (CHR '','' # s)" "stops (CHR '']'' # s)"
  by (simp_all add: stops_def is_digit_def)

lemma parse_join:
  assumes "vs \<noteq> []" "length vs \<le> k"
  shows "parse_values k (join_values vs @ CHR '']'' # r) = Some (vs, CHR '']'' # r)"
  using assms
proof (induction vs arbitrary: k)
  case Nil
  then show ?case by simp
next
  case (Cons v vs)
  then obtain k' where k: "k = Suc k'" "length vs \<le> k'" by (cases k) auto
  show ?case
    using Cons.IH [of k'] k by (cases "vs = []") auto
qed

lemma length_join: "length vs \<le> length (join_values vs)"
  by (induction vs) auto

lemma parse_array_join: "parse_array (join_values vs @ CHR '']'' # r) = Some (vs, r)"
proof (cases vs)
  case Nil
  then show ?thesis by (simp add: parse_array_def)
next
  case (Cons v ws)
  have "parse_values (length (join_values vs @ CHR '']'' # r)) (join_values vs @ CHR '']'' # r)
      = Some (vs, CHR '']'' # r)"
    using length_join [of vs] Cons by (intro parse_join) auto
  moreover have "expect '']'' (join_values vs @ CHR '']'' # r) = None" using Cons by simp
  ultimately show ?thesis by (simp add: parse_array_def)
qed

lemma holder_at_value:
  assumes inv: "values_inv c" and i: "i < unat (mc_size c)"
  shows "holder_at c i = Inr \<lparr>mv_value = mc_values c ! i\<rparr>"
proof -
  obtain b where b: "mc_ptr c = Some b" "length b = 8 * unat (mc_capacity c)"
      "8 * unat (mc_capacity c) < 2 ^ 64" "unat (mc_size c) \<le> unat (mc_capacity c)"
    using inv by (auto simp: values_inv_def mc_inv_def mc_block_def)
  have "i < 2 ^ 64" using i unsigned_less [of "mc_size c", where ?'a = nat] by simp
  then have u: "unat (word_of_nat i :: 64 word) = i"
    by (simp add: unsigned_of_nat take_bit_nat_eq_self)
  have es: "mc_entry_size c = 8" using inv by (simp add: values_inv_def)
  have off: "unat (word_of_nat i * 8 :: 64 word) = i * 8"
    using i b unat_mult64 [of "word_of_nat i" 8] by (simp add: u)
  have "i * 8 + 8 \<le> length b" using i b by simp
  then show ?thesis
    using i by (simp add: holder_at_def b off es mc_values_def mc_entries_def mc_entry_def
        mc_block_def holder_of_bytes_def)
qed

lemma last_index: "Suc i \<le> unat (n :: 64 word) \<Longrightarrow> word_of_nat i = n - 1 \<longleftrightarrow> Suc i = unat n"
proof -
  assume a: "Suc i \<le> unat n"
  have "i < 2 ^ 64" using a unsigned_less [of n, where ?'a = nat] by simp
  then have "unat (word_of_nat i :: 64 word) = i"
    by (simp add: unsigned_of_nat take_bit_nat_eq_self)
  moreover have "unat (n - 1) = unat n - 1" using a by (simp add: unat_sub_if' unat_eq_0)
  ultimately show ?thesis using a by (auto simp: word_unat_eq_iff)
qed

lemma save_values_join:
  assumes inv: "values_inv c" and "k \<le> unat (mc_size c)"
  shows "save_values c [k..<unat (mc_size c)] = Inr (join_values (map unat (drop k (mc_values c))))"
  using assms(2)
proof (induction k rule: inc_induct)
  case base
  have "length (mc_values c) = unat (mc_size c)" by (simp add: mc_values_def)
  then show ?case by simp
next
  case (step k)
  have len: "length (mc_values c) = unat (mc_size c)" by (simp add: mc_values_def)
  have d: "drop k (mc_values c) = mc_values c ! k # drop (Suc k) (mc_values c)"
    using step.hyps len by (simp add: Cons_nth_drop_Suc)
  show ?case
    using step holder_at_value [OF inv, of k] last_index [of k "mc_size c"] len
    by (simp add: upt_conv_Cons d) 
qed

lemma save_bench_parses:
  assumes "values_inv (event_latency b)" "do_measure b = 0"
  shows "\<exists>s. sb_save_bench (Some f) b = Inr (Some s) \<and> parse_bench s = Some
     (unat (timespec_to_ns (meas_start_time b)), unat (timespec_to_ns (meas_end_time b)),
      client_no b, unat (request_no b), map unat (mc_values (event_latency b)))"
proof -
  have "save_values (event_latency b) [0..<unat (mc_size (event_latency b))]
      = Inr (join_values (map unat (mc_values (event_latency b))))"
    using save_values_join [OF assms(1), of 0] by simp
  then show ?thesis
    using assms(2) parse_array_join [of "map unat (mc_values (event_latency b))" "''}''"]
    by (simp add: sb_save_bench_def parse_bench_def)
qed

subsection \<open>The invariant of the benchmark and its operations\<close>

definition bench_inv :: "server_bench \<Rightarrow> bool" where
  "bench_inv b \<longleftrightarrow> values_inv (event_latency b) \<and> - (2 ^ 31) \<le> client_no b \<and> client_no b < 2 ^ 31"

lemma sb_create_inv:
  assumes "malloc_spec malloc" "sb_create malloc n = Inr b" "0 \<le> n" "n < 2 ^ 31"
  shows "bench_inv b \<and> mc_values (event_latency b) = [] \<and> do_measure b = 0 \<and> client_no b = 0
     \<and> request_no b = 0 \<and> unat (mc_capacity (event_latency b)) = nat n"
proof -
  have u: "unat (word_of_int n :: 64 word) = nat n"
    using assms by (simp add: unsigned_of_int take_bit_int_eq_self)
  obtain c where c: "meas_pcontainer_create malloc 8 (word_of_int n) = Inr c"
    using assms(2) by (auto simp: sb_create_def bindE_eq_Inr)
  have "mc_inv c \<and> mc_entries c = [] \<and> mc_entry_size c = 8 \<and> mc_capacity c = word_of_int n"
    using assms u by (intro create_inv [OF _ _ c]) auto
  then show ?thesis
    using assms(2) c u by (auto simp: sb_create_def bench_inv_def values_inv_def mc_values_def)
qed

lemma record_event_cases:
  assumes inv: "bench_inv b" and m: "do_measure b \<noteq> 0"
    and t: "clock_ts start" "clock_ts end'" "total_ns start \<le> total_ns end'"
  shows "\<exists>v c rc. uint v = total_ns end' - total_ns start
     \<and> store_value v (event_latency b) = Inr (rc, c) \<and> values_inv c
     \<and> mc_capacity c = mc_capacity (event_latency b)
     \<and> mc_values c = take (unat (mc_capacity c)) (mc_values (event_latency b) @ [v])
     \<and> (rc < 0 \<longleftrightarrow> length (mc_values (event_latency b)) = unat (mc_capacity c))
     \<and> sb_record_event clock start end' (b, w) =
        Inr (if rc < 0 then sb_stop clock (b\<lparr>event_latency := c\<rparr>, w) else (b\<lparr>event_latency := c\<rparr>, w))"
proof -
  obtain d where d: "time_delta end' start = Inr d" "balanced d"
      "total_ns d = total_ns end' - total_ns start"
    using time_delta_correct [OF t(2,1)] by blast
  have v: "uint (timespec_to_ns d) = total_ns end' - total_ns start"
    using d(3) t(3) clock_total_range [OF t(1)] clock_total_range [OF t(2)]
    by (subst uint_timespec_to_ns) auto
  have iv: "values_inv (event_latency b)" using inv by (simp add: bench_inv_def)
  obtain rc c where s: "store_value (timespec_to_ns d) (event_latency b) = Inr (rc, c)" "values_inv c"
      "mc_capacity c = mc_capacity (event_latency b)"
      "mc_values c = take (unat (mc_capacity c)) (mc_values (event_latency b) @ [timespec_to_ns d])"
      "rc < 0 \<longleftrightarrow> length (mc_values (event_latency b)) = unat (mc_capacity c)"
    using value_log.store_cases [OF iv, of "timespec_to_ns d"] by (auto simp: word_unat_eq_iff)
  have "sb_record_event clock start end' (b, w) =
        Inr (if rc < 0 then sb_stop clock (b\<lparr>event_latency := c\<rparr>, w) else (b\<lparr>event_latency := c\<rparr>, w))"
    using m d(1) s(1) by (simp add: sb_record_event_def store_value_def Let_def)
  with v s show ?thesis by blast
qed

lemma record_event_off: "do_measure b = 0 \<Longrightarrow> sb_record_event clock s e (b, w) = Inr (b, w)"
  by (simp add: sb_record_event_def)

lemma sb_stop_simps [simp]:
  "event_latency (fst (sb_stop clock (b, w))) = event_latency b"
  "do_measure (fst (sb_stop clock (b, w))) = 0"
  "client_no (fst (sb_stop clock (b, w))) = client_no b"
  "request_no (fst (sb_stop clock (b, w))) = request_no b"
  "meas_start_time (fst (sb_stop clock (b, w))) = meas_start_time b"
  "meas_end_time (fst (sb_stop clock (b, w))) = fst (clock w)"
  by (simp_all add: sb_stop_def split: prod.splits)

lemma sb_start_simps [simp]:
  "event_latency (fst (sb_start clock (b, w))) = event_latency b"
  "do_measure (fst (sb_start clock (b, w))) \<noteq> 0"
  "client_no (fst (sb_start clock (b, w))) = client_no b"
  "request_no (fst (sb_start clock (b, w))) = request_no b"
  by (auto simp: sb_start_def split: prod.splits)

lemma sb_create_safe:
  assumes "malloc_spec malloc"
  shows "safeE (\<lambda>b. bench_inv b \<and> client_no b = 0) (sb_create malloc 10000000)"
proof (cases "sb_create malloc 10000000")
  case (Inl e)
  then show ?thesis
    by (cases e) (auto simp: sb_create_def meas_pcontainer_create_def assert_nnull_def
        assertion_prints_and_exit_def bindE_def split: option.splits if_splits sum.splits)
next
  case (Inr b)
  then show ?thesis using sb_create_inv [OF assms Inr] by simp
qed

text \<open>What \<open>main\<close> of each server starts with: a benchmark in the build that has one.\<close>

lemma bench_setup_safe:
  assumes "malloc_spec malloc"
  shows "safeE (\<lambda>b. on \<longrightarrow> bench_inv b \<and> client_no b = 0) (if on then sb_create malloc 10000000 else Inr b0)"
  using sb_create_safe [OF assms] by (auto elim: safeE_mono)

lemma bench_inv_ops [inv_intros]:
  "bench_inv b \<Longrightarrow> bench_inv (fst (sb_start clock (b, w)))"
  "bench_inv b \<Longrightarrow> bench_inv (fst (sb_stop clock (b, w)))"
  "bench_inv b \<Longrightarrow> bench_inv (sb_requests_performed b k)"
  "bench_inv b \<Longrightarrow> sb_client_connected b = Inr b' \<Longrightarrow> bench_inv b'"
  by (auto simp: bench_inv_def sb_requests_performed_def sb_client_connected_def c_int_def
      split: if_splits)

lemma save_bench_safe: "bench_inv b \<Longrightarrow> do_measure b = 0 \<Longrightarrow> safeE (\<lambda>_. True) (sb_save_bench f b)"
proof (cases f)
  case None
  assume "do_measure b = 0"
  then show ?thesis by (simp add: None sb_save_bench_def)
next
  case (Some x)
  assume "bench_inv b" "do_measure b = 0"
  then obtain t where "sb_save_bench (Some x) b = Inr (Some t)"
    using save_bench_parses [of b x] by (auto simp: bench_inv_def)
  then show ?thesis by (simp add: Some)
qed

text \<open>Whatever two readings of the clock: no undefined behaviour, the invariant is kept.\<close>

lemma record_event_safe:
  assumes inv: "bench_inv b" and t: "clock_ts start" "clock_ts end'"
  shows "\<exists>b' w'. sb_record_event clock start end' (b, w) = Inr (b', w') \<and> bench_inv b'
     \<and> client_no b' = client_no b \<and> (w' = w \<or> w' = snd (clock w))"
proof (cases "do_measure b = 0")
  case True
  with inv show ?thesis by (simp add: sb_record_event_def)
next
  case False
  obtain d where d: "time_delta end' start = Inr d"
    using time_delta_correct [OF t(2,1)] by blast
  have iv: "values_inv (event_latency b)" using inv by (simp add: bench_inv_def)
  obtain rc c where s: "store_value (timespec_to_ns d) (event_latency b) = Inr (rc, c)" "values_inv c"
    using value_log.store_cases [OF iv, of "timespec_to_ns d"] by auto
  have c: "bench_inv (b\<lparr>event_latency := c\<rparr>)" using inv s(2) by (simp add: bench_inv_def)
  obtain b' w' where bw: "sb_stop clock (b\<lparr>event_latency := c\<rparr>, w) = (b', w')" by force
  have w': "w' = snd (clock w)" using bw by (auto simp: sb_stop_def split: prod.splits)
  have b': "bench_inv b'" "client_no b' = client_no b"
    using sb_stop_simps [of clock "b\<lparr>event_latency := c\<rparr>" w, unfolded bw] c
    by (simp_all add: bench_inv_def)
  have "sb_record_event clock start end' (b, w) =
        Inr (if rc < 0 then (b', w') else (b\<lparr>event_latency := c\<rparr>, w))"
    using False d s(1) bw by (simp add: sb_record_event_def store_value_def Let_def)
  with c w' b' show ?thesis by (cases "rc < 0") auto
qed

subsection \<open>Abstract benchmark and refinement\<close>

text \<open>The calls a server makes on its benchmark, and what they mean.\<close>

datatype bench_op = BStart | BStop | BClient | BRequests int | BRecord timespec timespec

fun bench_step :: "'w clock \<Rightarrow> bench_op \<Rightarrow> server_bench \<times> 'w \<Rightarrow> (server_bench \<times> 'w) res" where
  "bench_step clock BStart bw = Inr (sb_start clock bw)"
| "bench_step clock BStop bw = Inr (sb_stop clock bw)"
| "bench_step clock BClient bw = bindE (sb_client_connected (fst bw)) (\<lambda>b. Inr (b, snd bw))"
| "bench_step clock (BRequests k) bw = Inr (sb_requests_performed (fst bw) k, snd bw)"
| "bench_step clock (BRecord s e) bw = sb_record_event clock s e bw"

fun bench_run :: "'w clock \<Rightarrow> bench_op list \<Rightarrow> server_bench \<times> 'w \<Rightarrow> (server_bench \<times> 'w) res" where
  "bench_run clock [] bw = Inr bw"
| "bench_run clock (x # xs) bw = bindE (bench_step clock x bw) (bench_run clock xs)"

record bench_spec =
  sp_on :: bool
  sp_clients :: int
  sp_requests :: int
  sp_latencies :: "int list"

fun spec_step :: "nat \<Rightarrow> bench_op \<Rightarrow> bench_spec \<Rightarrow> bench_spec" where
  "spec_step n BStart s = s\<lparr>sp_on := True\<rparr>"
| "spec_step n BStop s = s\<lparr>sp_on := False\<rparr>"
| "spec_step n BClient s = s\<lparr>sp_clients := sp_clients s + 1\<rparr>"
| "spec_step n (BRequests k) s = (if sp_on s then s\<lparr>sp_requests := sp_requests s + k\<rparr> else s)"
| "spec_step n (BRecord a b) s =
     (if \<not> sp_on s then s
      else if length (sp_latencies s) = n then s\<lparr>sp_on := False\<rparr>
      else s\<lparr>sp_latencies := sp_latencies s @ [total_ns b - total_ns a]\<rparr>)"

definition spec_init :: bench_spec where
  "spec_init = \<lparr>sp_on = False, sp_clients = 0, sp_requests = 0, sp_latencies = []\<rparr>"

definition spec_run :: "nat \<Rightarrow> bench_op list \<Rightarrow> bench_spec" where
  "spec_run n ops = fold (spec_step n) ops spec_init"

text \<open>Events are recorded with two readings of the clock, in order.\<close>

fun op_ok :: "bench_op \<Rightarrow> bool" where
  "op_ok (BRecord a b) = (clock_ts a \<and> clock_ts b \<and> total_ns a \<le> total_ns b)"
| "op_ok _ = True"

definition bench_rel :: "nat \<Rightarrow> server_bench \<Rightarrow> bench_spec \<Rightarrow> bool" where
  "bench_rel n b s \<longleftrightarrow> bench_inv b \<and> unat (mc_capacity (event_latency b)) = n
     \<and> (do_measure b \<noteq> 0 \<longleftrightarrow> sp_on s) \<and> client_no b = sp_clients s
     \<and> request_no b = word_of_int (sp_requests s)
     \<and> map uint (mc_values (event_latency b)) = sp_latencies s"

lemma bench_step_refines:
  assumes "bench_rel n b s" "op_ok x" "sp_clients s + 1 < 2 ^ 31"
  shows "\<exists>b' w'. bench_step clock x (b, w) = Inr (b', w') \<and> bench_rel n b' (spec_step n x s)"
proof (cases x)
  case (BRecord st en)
  show ?thesis
  proof (cases "do_measure b = 0")
    case True
    with assms(1) BRecord show ?thesis by (simp add: bench_rel_def record_event_off)
  next
    case False
    have iv: "bench_inv b" using assms(1) by (simp add: bench_rel_def)
    have ok: "clock_ts st" "clock_ts en" "total_ns st \<le> total_ns en"
      using assms(2) BRecord by auto
    obtain v c and rc :: int where r: "uint v = total_ns en - total_ns st" "values_inv c"
        "mc_capacity c = mc_capacity (event_latency b)"
        "mc_values c = take (unat (mc_capacity c)) (mc_values (event_latency b) @ [v])"
        "rc < 0 \<longleftrightarrow> length (mc_values (event_latency b)) = unat (mc_capacity c)"
        "sb_record_event clock st en (b, w) =
          Inr (if rc < 0 then sb_stop clock (b\<lparr>event_latency := c\<rparr>, w) else (b\<lparr>event_latency := c\<rparr>, w))"
      using record_event_cases [OF iv False ok, of clock w] by blast
    have len: "length (mc_values (event_latency b)) \<le> unat (mc_capacity c)"
      using value_log.bounded iv r(3) by (auto simp: bench_inv_def)
    have n: "unat (mc_capacity c) = n" "map uint (mc_values (event_latency b)) = sp_latencies s"
      using assms(1) r(3) by (auto simp: bench_rel_def)
    have ll: "length (sp_latencies s) = length (mc_values (event_latency b))"
      using n(2) by (metis length_map)
    show ?thesis
    proof (cases "rc < 0")
      case True
      obtain b' w' where bw: "sb_stop clock (b\<lparr>event_latency := c\<rparr>, w) = (b', w')" by force
      note f = sb_stop_simps [of clock "b\<lparr>event_latency := c\<rparr>" w, unfolded bw]
      show ?thesis
        using True r assms(1) n ll BRecord bw f
        by (auto simp: bench_rel_def bench_inv_def)
    next
      case neg: False
      then show ?thesis
        using r assms(1) n ll BRecord len False
        by (auto simp: bench_rel_def bench_inv_def)
    qed
  qed
next
  case BStart
  then show ?thesis
    using assms(1) sb_start_simps [of clock b w] bench_inv_ops(1) [of b clock w]
    by (cases "sb_start clock (b, w)") (auto simp: bench_rel_def)
next
  case BStop
  then show ?thesis
    using assms(1) sb_stop_simps [of clock b w] bench_inv_ops(2) [of b clock w]
    by (cases "sb_stop clock (b, w)") (auto simp: bench_rel_def)
next
  case BClient
  then show ?thesis
    using assms by (auto simp: bench_rel_def bench_inv_def sb_client_connected_def)
next
  case (BRequests k)
  then show ?thesis
    using assms(1) by (auto simp: bench_rel_def bench_inv_def sb_requests_performed_def)
qed

definition clients_of :: "bench_op list \<Rightarrow> nat" where
  "clients_of ops = length (filter (\<lambda>x. x = BClient) ops)"

lemma spec_clients_step:
  "sp_clients (spec_step n x s) = sp_clients s + (if x = BClient then 1 else 0)"
  by (cases x) auto

lemma bench_run_refines:
  assumes "bench_rel n b s" "list_all op_ok ops" "sp_clients s + int (clients_of ops) + 1 < 2 ^ 31"
  shows "\<exists>b' w'. bench_run clock ops (b, w) = Inr (b', w') \<and> bench_rel n b' (fold (spec_step n) ops s)"
  using assms
proof (induction ops arbitrary: b w s)
  case Nil
  then show ?case by simp
next
  case (Cons x xs)
  have ok: "op_ok x" and c: "sp_clients s + 1 < 2 ^ 31" using Cons.prems by auto
  obtain b1 w1 where b1: "bench_step clock x (b, w) = Inr (b1, w1)" "bench_rel n b1 (spec_step n x s)"
    using bench_step_refines [OF Cons.prems(1) ok c, of clock w] by blast
  have "\<exists>b' w'. bench_run clock xs (b1, w1) = Inr (b', w')
      \<and> bench_rel n b' (fold (spec_step n) xs (spec_step n x s))"
    using Cons.prems by (intro Cons.IH [OF b1(2)]) (auto simp: spec_clients_step clients_of_def)
  with b1 show ?case by simp
qed

subsection \<open>Claims\<close>

text \<open>C19: from creation on, for every sequence of calls with ordered clock readings and fewer
  than \<open>2 ^ 31 - 1\<close> clients, the benchmark never stops the program and holds what the
  abstract benchmark says: connections always counted, requests and latencies only while
  measuring, latencies exact and in order, measuring switched off by the first event that
  finds the log full.\<close>

theorem bench_refines_spec:
  assumes "malloc_spec malloc" "sb_create malloc n = Inr b" "0 \<le> n" "n < 2 ^ 31"
    and "list_all op_ok ops" "clients_of ops + 1 < 2 ^ 31"
  shows "\<exists>b' w'. bench_run clock ops (b, w) = Inr (b', w') \<and> bench_inv b'
     \<and> (do_measure b' \<noteq> 0 \<longleftrightarrow> sp_on (spec_run (nat n) ops))
     \<and> client_no b' = sp_clients (spec_run (nat n) ops)
     \<and> request_no b' = word_of_int (sp_requests (spec_run (nat n) ops))
     \<and> map uint (mc_values (event_latency b')) = sp_latencies (spec_run (nat n) ops)"
proof -
  have "bench_rel (nat n) b spec_init"
    using sb_create_inv [OF assms(1-4)] by (simp add: bench_rel_def spec_init_def)
  from bench_run_refines [OF this assms(5), of clock w] assms(6)
  show ?thesis by (auto simp: bench_rel_def spec_run_def spec_init_def)
qed

theorem bench_refines_spec_witness:
  "\<exists>b b' w'. sb_create (\<lambda>k. Some (replicate k 0)) 1 = Inr b
     \<and> bench_run (\<lambda>k :: int. (\<lparr>tv_sec = k, tv_nsec = 0\<rparr>, k + 1))
         [BClient, BRequests 3, BStart, BRequests 2, BRecord \<lparr>tv_sec = 1, tv_nsec = 5\<rparr> \<lparr>tv_sec = 1, tv_nsec = 9\<rparr>] (b, 0)
         = Inr (b', w')
     \<and> client_no b' = 1 \<and> request_no b' = 2 \<and> map uint (mc_values (event_latency b')) = [4]"
proof -
  obtain b where b: "sb_create (\<lambda>k. Some (replicate k 0)) 1 = Inr b"
    by (simp add: sb_create_def meas_pcontainer_create_def)
  show ?thesis
    using bench_refines_spec [of "\<lambda>k. Some (replicate k 0)" 1 b
        "[BClient, BRequests 3, BStart, BRequests 2, BRecord \<lparr>tv_sec = 1, tv_nsec = 5\<rparr> \<lparr>tv_sec = 1, tv_nsec = 9\<rparr>]"
        "\<lambda>k :: int. (\<lparr>tv_sec = k, tv_nsec = 0\<rparr>, k + 1)" 0] b
    by (auto simp: malloc_spec_def spec_run_def spec_init_def clients_of_def clock_ts_def total_ns_def)
qed

text \<open>C20: what \<open>sb_save_bench\<close> writes when not measuring determines the benchmark: reading
  the file back yields both times, the client and request counts and every latency in order;
  no read of the container leaves its block.\<close>

theorem bench_file_roundtrip:
  assumes "bench_inv b" "do_measure b = 0"
  shows "\<exists>s. sb_save_bench (Some f) b = Inr (Some s) \<and> parse_bench s = Some
     (unat (timespec_to_ns (meas_start_time b)), unat (timespec_to_ns (meas_end_time b)),
      client_no b, unat (request_no b), map unat (mc_values (event_latency b)))"
  using assms by (intro save_bench_parses) (auto simp: bench_inv_def)

theorem bench_file_roundtrip_witness:
  "\<exists>s. sb_save_bench (Some ()) \<lparr>do_measure = 0, client_no = 3, request_no = 7,
       meas_start_time = \<lparr>tv_sec = 0, tv_nsec = 5\<rparr>, meas_end_time = \<lparr>tv_sec = 0, tv_nsec = 9\<rparr>,
       event_latency = \<lparr>mc_entry_size = 8, mc_capacity = 1, mc_size = 0, mc_ptr = Some (replicate 8 0)\<rparr>\<rparr>
      = Inr (Some s) \<and> parse_bench s = Some (5, 9, 3, 7, [])"
  using bench_file_roundtrip [of "\<lparr>do_measure = 0, client_no = 3, request_no = 7,
       meas_start_time = \<lparr>tv_sec = 0, tv_nsec = 5\<rparr>, meas_end_time = \<lparr>tv_sec = 0, tv_nsec = 9\<rparr>,
       event_latency = \<lparr>mc_entry_size = 8, mc_capacity = 1, mc_size = 0, mc_ptr = Some (replicate 8 0)\<rparr>\<rparr>" "()"]
  by (simp add: bench_inv_def values_inv_def mc_inv_def mc_block_def timespec_to_ns_def mc_values_def
      mc_entries_def)

text \<open>C37: when the latency log is full, measuring stops at that event, but the
  \<open>sb_stop\<close> a server calls at shutdown overwrites the end time: the saved end is the
  shutdown's clock reading, whatever the first one was, while requests in between are not
  counted.\<close>

theorem full_log_end_time_overwritten:
  assumes "bench_inv b" "do_measure b \<noteq> 0"
    and "length (mc_values (event_latency b)) = unat (mc_capacity (event_latency b))"
    and "clock_ts start" "clock_ts end'" "total_ns start \<le> total_ns end'"
  shows "\<exists>b' w'. sb_record_event clock start end' (b, w) = Inr (b', w') \<and> do_measure b' = 0
     \<and> meas_end_time b' = fst (clock w)
     \<and> sb_requests_performed b' k = b'
     \<and> meas_end_time (fst (sb_stop clock (b', w'))) = fst (clock w')"
proof -
  obtain v c and rc :: int where r: "mc_capacity c = mc_capacity (event_latency b)"
      "rc < 0 \<longleftrightarrow> length (mc_values (event_latency b)) = unat (mc_capacity c)"
      "sb_record_event clock start end' (b, w) =
        Inr (if rc < 0 then sb_stop clock (b\<lparr>event_latency := c\<rparr>, w) else (b\<lparr>event_latency := c\<rparr>, w))"
    using record_event_cases [OF assms(1,2,4-6), of clock w] by blast
  obtain b' w' where bw: "sb_stop clock (b\<lparr>event_latency := c\<rparr>, w) = (b', w')" by force
  show ?thesis
    using r assms(3) bw sb_stop_simps [of clock "b\<lparr>event_latency := c\<rparr>" w, unfolded bw]
    by (auto simp: sb_requests_performed_def)
qed

theorem full_log_end_time_overwritten_witness:
  "\<exists>b' w'. sb_record_event (\<lambda>k :: int. (\<lparr>tv_sec = k, tv_nsec = 0\<rparr>, k + 1))
       \<lparr>tv_sec = 1, tv_nsec = 0\<rparr> \<lparr>tv_sec = 2, tv_nsec = 0\<rparr>
       (\<lparr>do_measure = 1, client_no = 1, request_no = 7, meas_start_time = zero_ts, meas_end_time = zero_ts,
         event_latency = \<lparr>mc_entry_size = 8, mc_capacity = 0, mc_size = 0, mc_ptr = Some []\<rparr>\<rparr>, 10)
     = Inr (b', w') \<and> meas_end_time b' = \<lparr>tv_sec = 10, tv_nsec = 0\<rparr>"
  using full_log_end_time_overwritten [of "\<lparr>do_measure = 1, client_no = 1, request_no = 7,
      meas_start_time = zero_ts, meas_end_time = zero_ts,
      event_latency = \<lparr>mc_entry_size = 8, mc_capacity = 0, mc_size = 0, mc_ptr = Some []\<rparr>\<rparr>"
      "\<lparr>tv_sec = 1, tv_nsec = 0\<rparr>" "\<lparr>tv_sec = 2, tv_nsec = 0\<rparr>"
      "\<lambda>k :: int. (\<lparr>tv_sec = k, tv_nsec = 0\<rparr>, k + 1)" 10 0]
  by (auto simp: bench_inv_def values_inv_def mc_inv_def mc_block_def mc_values_def mc_entries_def
      clock_ts_def total_ns_def)

end
