(* ===== verification/Libc.thy ===== *)
theory Libc
  imports CMemory CommonUtils TimeUtils
begin

text \<open>
  The C library and kernel calls the servers make, as a parameter: a record of functions
  over an abstract world \<open>'w\<close>. Each takes the world and returns the results the code
  can see (the return code, \<open>errno\<close> after the call where the code reads it, data
  delivered through pointers) and the world afterwards. \<open>malloc\<close> and \<open>calloc\<close> yield,
  on success, the content of the block at each offset. Nothing is assumed about them here;
  what a theorem needs of the kernel is one of the named predicates at the end.
\<close>

record 'w env =
  e_malloc :: "nat \<Rightarrow> 'w \<Rightarrow> (nat \<Rightarrow> byte) option \<times> 'w"
  e_clock :: "'w clock"
  e_read :: "int \<Rightarrow> nat \<Rightarrow> 'w \<Rightarrow> (int \<times> byte list) \<times> 'w"
  e_write :: "int \<Rightarrow> byte list \<Rightarrow> 'w \<Rightarrow> int \<times> 'w"
  e_accept4 :: "int \<Rightarrow> 'w \<Rightarrow> (int \<times> int) \<times> 'w"
  e_close :: "int \<Rightarrow> 'w \<Rightarrow> int \<times> 'w"
  e_socket :: "'w \<Rightarrow> int \<times> 'w"
  e_fcntl_nonblock :: "int \<Rightarrow> 'w \<Rightarrow> int \<times> 'w"
  e_bind :: "int \<Rightarrow> 16 word \<Rightarrow> 32 word \<Rightarrow> 'w \<Rightarrow> int \<times> 'w"
  e_listen :: "int \<Rightarrow> int \<Rightarrow> 'w \<Rightarrow> int \<times> 'w"
  e_timerfd_create :: "'w \<Rightarrow> int \<times> 'w"
  e_timerfd_settime :: "int \<Rightarrow> timespec \<Rightarrow> timespec \<Rightarrow> 'w \<Rightarrow> int \<times> 'w"
  e_sigaction_usr1 :: "'w \<Rightarrow> int \<times> 'w"
  e_sigemptyset :: "'w \<Rightarrow> int \<times> 'w"
  e_sigaddset_usr1 :: "'w \<Rightarrow> int \<times> 'w"
  e_sigprocmask :: "bool \<Rightarrow> 'w \<Rightarrow> int \<times> 'w"

text \<open>The numbers of errno the code compares with (Linux).\<close>

abbreviation EINTR :: int where "EINTR \<equiv> 4"
abbreviation EAGAIN :: int where "EAGAIN \<equiv> 11"
abbreviation EWOULDBLOCK :: int where "EWOULDBLOCK \<equiv> 11"

text \<open>
  The build's \<open>#if\<close> switches and \<open>DEFAULT_BUFFER_SIZE\<close>:
  \<open>DO_SERVER_SIDE_BENCHMARKING\<close>, \<open>BENCH_MEASURE_SERVICING_LATENCY\<close>.
\<close>

record config =
  DO_BENCH :: bool
  MEASURE_LATENCY :: bool
  DEFAULT_BUFFER_SIZE :: nat

text \<open>\<open>DEFAULT_BUFFER_SIZE + sizeof(void *)\<close>\<close>

definition DEFAULT_SERVER_BUFFER_SIZE :: "config \<Rightarrow> nat" where
  "DEFAULT_SERVER_BUFFER_SIZE cfg = DEFAULT_BUFFER_SIZE cfg + 8"

definition latency_on :: "config \<Rightarrow> bool" where
  "latency_on cfg \<longleftrightarrow> DO_BENCH cfg \<and> MEASURE_LATENCY cfg"

subsection \<open>What theorems assume of the kernel\<close>

text \<open>
  A view of the world: the open descriptors, and for each descriptor the bytes the process
  has read from it and written to it since it was opened.
\<close>

record 'w kview =
  kv_open :: "'w \<Rightarrow> int set"
  kv_in :: "'w \<Rightarrow> int \<Rightarrow> byte list"
  kv_out :: "'w \<Rightarrow> int \<Rightarrow> byte list"

definition same_view :: "'w kview \<Rightarrow> 'w \<Rightarrow> 'w \<Rightarrow> bool" where
  "same_view v w w' \<longleftrightarrow> kv_open v w' = kv_open v w \<and> kv_in v w' = kv_in v w \<and> kv_out v w' = kv_out v w"

text \<open>read(2): at most the requested bytes, delivered in order, nothing on error.\<close>

definition read_spec :: "('w, 'x) env_scheme \<Rightarrow> 'w kview \<Rightarrow> bool" where
  "read_spec env v \<longleftrightarrow> (\<forall>fd n w rc data w'. e_read env fd n w = ((rc, data), w') \<longrightarrow>
     rc \<le> int n \<and> length data = nat rc
     \<and> kv_open v w' = kv_open v w \<and> kv_out v w' = kv_out v w
     \<and> kv_in v w' = (kv_in v w)(fd := kv_in v w fd @ data))"

text \<open>write(2): a prefix of the buffer is accepted.\<close>

definition write_spec :: "('w, 'x) env_scheme \<Rightarrow> 'w kview \<Rightarrow> bool" where
  "write_spec env v \<longleftrightarrow> (\<forall>fd bs w rc w'. e_write env fd bs w = (rc, w') \<longrightarrow>
     rc \<le> int (length bs)
     \<and> kv_open v w' = kv_open v w \<and> kv_in v w' = kv_in v w
     \<and> kv_out v w' = (kv_out v w)(fd := kv_out v w fd @ take (nat rc) bs))"

text \<open>accept4(2): a descriptor that was not open, with nothing transferred, or -1.\<close>

definition accept_spec :: "('w, 'x) env_scheme \<Rightarrow> 'w kview \<Rightarrow> bool" where
  "accept_spec env v \<longleftrightarrow> (\<forall>ls w rc er w'. e_accept4 env ls w = ((rc, er), w') \<longrightarrow>
     (if rc < 0 then rc = - 1 \<and> same_view v w w'
      else rc \<notin> kv_open v w \<and> kv_open v w' = insert rc (kv_open v w)
        \<and> kv_in v w' = (kv_in v w)(rc := []) \<and> kv_out v w' = (kv_out v w)(rc := [])))"

text \<open>close(2): success removes an open descriptor and nothing else; a descriptor that is
  not open is refused. \<open>close_reliable\<close>: an open descriptor is always closed.\<close>

definition close_spec :: "('w, 'x) env_scheme \<Rightarrow> 'w kview \<Rightarrow> bool" where
  "close_spec env v \<longleftrightarrow> (\<forall>fd w rc w'. e_close env fd w = (rc, w') \<longrightarrow>
     kv_in v w' = kv_in v w \<and> kv_out v w' = kv_out v w
     \<and> (fd \<notin> kv_open v w \<longrightarrow> rc \<noteq> 0)
     \<and> kv_open v w' = (if rc = 0 then kv_open v w - {fd} else kv_open v w))"

definition close_reliable :: "('w, 'x) env_scheme \<Rightarrow> 'w kview \<Rightarrow> bool" where
  "close_reliable env v \<longleftrightarrow> (\<forall>fd w. fd \<in> kv_open v w \<longrightarrow> fst (e_close env fd w) = 0)"

text \<open>Allocation and the clock touch no descriptor, and the clock reads a proper time.\<close>

definition quiet_spec :: "('w, 'x) env_scheme \<Rightarrow> 'w kview \<Rightarrow> bool" where
  "quiet_spec env v \<longleftrightarrow> (\<forall>n w. same_view v w (snd (e_malloc env n w)))
     \<and> (\<forall>w. same_view v w (snd (e_clock env w)) \<and> clock_ts (fst (e_clock env w)))"

definition kernel_spec :: "('w, 'x) env_scheme \<Rightarrow> 'w kview \<Rightarrow> bool" where
  "kernel_spec env v \<longleftrightarrow> read_spec env v \<and> write_spec env v \<and> accept_spec env v
     \<and> close_spec env v \<and> quiet_spec env v"

text \<open>The calls of start-up: socket(2) and timerfd_create(2) open a fresh descriptor or fail with
  -1; the others change no descriptor.\<close>

definition opens_fresh :: "'w kview \<Rightarrow> 'w \<Rightarrow> int \<Rightarrow> 'w \<Rightarrow> bool" where
  "opens_fresh v w rc w' \<longleftrightarrow>
     (if rc < 0 then rc = - 1 \<and> same_view v w w'
      else rc \<notin> kv_open v w \<and> kv_open v w' = insert rc (kv_open v w)
        \<and> kv_in v w' = (kv_in v w)(rc := []) \<and> kv_out v w' = (kv_out v w)(rc := []))"

definition setup_spec :: "('w, 'x) env_scheme \<Rightarrow> 'w kview \<Rightarrow> bool" where
  "setup_spec env v \<longleftrightarrow>
     (\<forall>w. opens_fresh v w (fst (e_socket env w)) (snd (e_socket env w)))
     \<and> (\<forall>w. opens_fresh v w (fst (e_timerfd_create env w)) (snd (e_timerfd_create env w)))
     \<and> (\<forall>fd w. same_view v w (snd (e_fcntl_nonblock env fd w)))
     \<and> (\<forall>fd p a w. same_view v w (snd (e_bind env fd p a w)))
     \<and> (\<forall>fd n w. same_view v w (snd (e_listen env fd n w)))
     \<and> (\<forall>fd a b w. same_view v w (snd (e_timerfd_settime env fd a b w)))
     \<and> (\<forall>w. same_view v w (snd (e_sigaction_usr1 env w)))
     \<and> (\<forall>w. same_view v w (snd (e_sigemptyset env w)))
     \<and> (\<forall>w. same_view v w (snd (e_sigaddset_usr1 env w)))
     \<and> (\<forall>b w. same_view v w (snd (e_sigprocmask env b w)))"

lemma same_view_refl [simp]: "same_view v w w"
  by (simp add: same_view_def)

lemma same_view_trans: "same_view v a b \<Longrightarrow> same_view v b c \<Longrightarrow> same_view v a c"
  by (simp add: same_view_def)

lemma setup_specD:
  assumes "setup_spec env v"
  shows "e_socket env w = (rc, w') \<Longrightarrow> opens_fresh v w rc w'"
    "e_timerfd_create env w = (rc, w') \<Longrightarrow> opens_fresh v w rc w'"
    "e_fcntl_nonblock env fd w = (rc, w') \<Longrightarrow> same_view v w w'"
    "e_bind env fd p a w = (rc, w') \<Longrightarrow> same_view v w w'"
    "e_listen env fd n w = (rc, w') \<Longrightarrow> same_view v w w'"
    "e_timerfd_settime env fd ta tb w = (rc, w') \<Longrightarrow> same_view v w w'"
    "e_sigaction_usr1 env w = (rc, w') \<Longrightarrow> same_view v w w'"
    "e_sigemptyset env w = (rc, w') \<Longrightarrow> same_view v w w'"
    "e_sigaddset_usr1 env w = (rc, w') \<Longrightarrow> same_view v w w'"
    "e_sigprocmask env b w = (rc, w') \<Longrightarrow> same_view v w w'"
  using assms unfolding setup_spec_def by (metis fst_conv snd_conv)+

lemma kernel_specD:
  assumes "kernel_spec env v"
  shows "read_spec env v" "write_spec env v" "accept_spec env v" "close_spec env v" "quiet_spec env v"
  using assms by (simp_all add: kernel_spec_def)

end
