(* ===== verification/ServerUtils.thy ===== *)
theory ServerUtils
  imports Libc
begin

text \<open>
  code/c/server/server_utils.c: setting up the timer, the signal handler and the listening
  socket, accepting a client and echoing one message.
\<close>

abbreviation DEFAULT_SERVER_LISTENING_BACKLOG :: int where "DEFAULT_SERVER_LISTENING_BACKLOG \<equiv> 128"
abbreviation BENCH_EXPECTED_MESSAGES :: int where "BENCH_EXPECTED_MESSAGES \<equiv> 10000000"

definition create_warmup_timer :: "('w, 'x) env_scheme \<Rightarrow> int \<Rightarrow> 'w \<Rightarrow> (int \<times> 'w) res" where
  "create_warmup_timer env SERVER_WARMUP_TIME_S w =
     (case e_timerfd_create env w of (timer_fd, w) \<Rightarrow>
      bindE (assert_nonn timer_fd ''timerfd_create'') (\<lambda>_.
      let it_interval = \<lparr>tv_sec = 0, tv_nsec = 0\<rparr>;
          it_value = \<lparr>tv_sec = SERVER_WARMUP_TIME_S, tv_nsec = 0\<rparr>
      in case e_timerfd_settime env timer_fd it_interval it_value w of (rc, w) \<Rightarrow>
      bindE (assert_zero rc ''timerfd_settime'') (\<lambda>_. Inr (timer_fd, w))))"

definition register_signal_handler :: "('w, 'x) env_scheme \<Rightarrow> 'w \<Rightarrow> 'w res" where
  "register_signal_handler env w = (case e_sigaction_usr1 env w of (rc, w) \<Rightarrow>
     bindE (assert_zero rc ''sigaction'') (\<lambda>_. Inr w))"

text \<open>The handler: the new value of the global \<open>server_running\<close>.\<close>

definition stop_server_signal_handler :: "int \<Rightarrow> int" where
  "stop_server_signal_handler server_running = 0"

text \<open>\<open>htons\<close>: the two bytes of a port swapped (little-endian host).\<close>

definition htons :: "16 word \<Rightarrow> 16 word" where
  "htons p = p * 256 + p div 256"

definition create_ipv4_listening_socket :: "('w, 'x) env_scheme \<Rightarrow> 16 word \<Rightarrow> 'w \<Rightarrow> (int \<times> 'w) res" where
  "create_ipv4_listening_socket env port w =
     (case e_socket env w of (socket_fd, w) \<Rightarrow>
      bindE (assert_nonn socket_fd ''socket'') (\<lambda>_.
      case e_fcntl_nonblock env socket_fd w of (rc, w) \<Rightarrow>
      bindE (assert_nonn rc ''fcntl'') (\<lambda>_.
      let sin_port = htons port; s_addr = 0
      in case e_bind env socket_fd sin_port s_addr w of (rc, w) \<Rightarrow>
      bindE (assert_zero rc ''bind'') (\<lambda>_.
      case e_listen env socket_fd DEFAULT_SERVER_LISTENING_BACKLOG w of (rc, w) \<Rightarrow>
      bindE (assert_zero rc ''listen'') (\<lambda>_. Inr (socket_fd, w))))))"

definition accept_client :: "('w, 'x) env_scheme \<Rightarrow> int \<Rightarrow> 'w \<Rightarrow> (int \<times> 'w) res" where
  "accept_client env listening_socket w =
     (case e_accept4 env listening_socket w of ((client_socket, errno), w) \<Rightarrow>
      if client_socket < 0 \<and> (errno = EAGAIN \<or> errno = EWOULDBLOCK) then Inr (- 1, w)
      else bindE (assert_nonn client_socket ''accept'') (\<lambda>_. Inr (client_socket, w)))"

text \<open>
  \<open>read_n_echo fd buf buffer_size\<close>; the data \<open>read\<close> delivers is written to the front
  of \<open>buf\<close>, and the buffer is returned with the result.
\<close>

definition read_n_echo ::
    "('w, 'x) env_scheme \<Rightarrow> config \<Rightarrow> int \<Rightarrow> byte list \<Rightarrow> nat \<Rightarrow> 'w \<Rightarrow> (int \<times> byte list \<times> 'w) res" where
  "read_n_echo env cfg fd buf buffer_size w =
     (case e_read env fd buffer_size w of ((read_bytes, data), w) \<Rightarrow>
      bindE (assert_nonn read_bytes ''read'') (\<lambda>_.
      bindE (mem_write buf 0 data) (\<lambda>buf.
      if read_bytes = 0 then Inr (0, buf, w)
      else if read_bytes > int (DEFAULT_BUFFER_SIZE cfg)
        then Inl (ExitFailure ''recv: got more than expected'')
      else if read_bytes < int (DEFAULT_BUFFER_SIZE cfg)
        then Inl (ExitFailure ''recv: got less than expected'')
      else bindE (mem_read buf 0 (nat read_bytes)) (\<lambda>msg.
      case e_write env fd msg w of (sent_bytes, w) \<Rightarrow>
      bindE (assert_nonn sent_bytes ''write'') (\<lambda>_.
      if sent_bytes < int (DEFAULT_BUFFER_SIZE cfg)
        then Inl (ExitFailure ''send: less than expected'')
      else Inr (read_bytes, buf, w))))))"

subsection \<open>Lemmas\<close>

text \<open>Every byte read on a descriptor has been written back to it.\<close>

definition echoed :: "'w kview \<Rightarrow> 'w \<Rightarrow> bool" where
  "echoed v w \<longleftrightarrow> (\<forall>fd. kv_out v w fd = kv_in v w fd)"

lemma accept_client_safe:
  assumes "accept_spec env v"
  shows "safeE (\<lambda>(c, w'). (c = - 1 \<and> same_view v w w')
     \<or> (0 \<le> c \<and> c \<notin> kv_open v w \<and> kv_open v w' = insert c (kv_open v w)
        \<and> kv_in v w' = (kv_in v w)(c := []) \<and> kv_out v w' = (kv_out v w)(c := [])))
     (accept_client env ls w)"
proof -
  obtain rc er w' where a: "e_accept4 env ls w = ((rc, er), w')" by (metis prod.collapse)
  show ?thesis
    using assms [unfolded accept_spec_def, rule_format, OF a] a
    by (auto simp: accept_client_def split: if_splits)
qed

lemma read_n_echo_safe:
  assumes rs: "read_spec env v" and ws: "write_spec env v" and len: "n \<le> length buf"
  shows "safeE (\<lambda>(r, buf', w'). length buf' = length buf \<and> (r = 0 \<or> r = int (DEFAULT_BUFFER_SIZE cfg))
     \<and> kv_open v w' = kv_open v w
     \<and> (\<exists>msg. length msg = nat r \<and> take (nat r) buf' = msg
          \<and> kv_in v w' = (kv_in v w)(fd := kv_in v w fd @ msg)
          \<and> kv_out v w' = (kv_out v w)(fd := kv_out v w fd @ msg)))
     (read_n_echo env cfg fd buf n w)"
proof -
  obtain rc data w1 where r: "e_read env fd n w = ((rc, data), w1)" by (metis prod.collapse)
  note R = rs [unfolded read_spec_def, rule_format, OF r]
  have fit: "0 + length data \<le> length buf" using R len by auto
  let ?buf = "take 0 buf @ data @ drop (0 + length data) buf"
  show ?thesis
  proof (cases "0 < rc \<and> rc = int (DEFAULT_BUFFER_SIZE cfg)")
    case False
    then show ?thesis using r R fit by (auto simp: read_n_echo_def)
  next
    case True
    then have msg: "take (nat rc) ?buf = data" "nat rc \<le> length ?buf" using R fit by auto
    obtain sent w2 where s: "e_write env fd data w1 = (sent, w2)" by (metis prod.collapse)
    note S = ws [unfolded write_spec_def, rule_format, OF s]
    show ?thesis
      using True r R fit s S msg
      by (auto simp: read_n_echo_def)
  qed
qed

lemma read_n_echo_echoed:
  assumes "read_spec env v" "write_spec env v" "n \<le> length buf" "echoed v w"
    and "read_n_echo env cfg fd buf n w = Inr (r, buf', w')"
  shows "echoed v w'"
  using read_n_echo_safe [OF assms(1-3), where cfg = cfg and fd = fd and w = w] assms(4,5) by (auto simp: echoed_def)

text \<open>The start-up calls: either they exit, or they open one fresh descriptor or none.\<close>

definition opened :: "'w kview \<Rightarrow> 'w \<Rightarrow> int \<Rightarrow> 'w \<Rightarrow> bool" where
  "opened v w fd w' \<longleftrightarrow> 0 \<le> fd \<and> fd \<notin> kv_open v w \<and> kv_open v w' = insert fd (kv_open v w)
     \<and> kv_in v w' = (kv_in v w)(fd := []) \<and> kv_out v w' = (kv_out v w)(fd := [])"

lemma opened_echoed: "opened v w fd w' \<Longrightarrow> echoed v w \<Longrightarrow> echoed v w'"
  by (auto simp: opened_def echoed_def)

lemma same_view_echoed: "same_view v w w' \<Longrightarrow> echoed v w \<Longrightarrow> echoed v w'"
  by (simp add: same_view_def echoed_def)

lemma opened_then: "opened v w fd w1 \<Longrightarrow> same_view v w1 w2 \<Longrightarrow> opened v w fd w2"
  by (simp add: opened_def same_view_def)

lemma same_then_opened: "same_view v w w1 \<Longrightarrow> opened v w1 fd w2 \<Longrightarrow> opened v w fd w2"
  by (simp add: opened_def same_view_def)

lemma opens_fresh_opened: "opens_fresh v w fd w' \<Longrightarrow> 0 \<le> fd \<Longrightarrow> opened v w fd w'"
  by (simp add: opens_fresh_def opened_def)

lemma warmup_timer_safe:
  assumes S: "setup_spec env v"
  shows "safeE (\<lambda>(fd, w'). opened v w fd w') (create_warmup_timer env secs w)"
proof -
  obtain fd w1 where 1: "e_timerfd_create env w = (fd, w1)" by force
  obtain r w2 where 2: "e_timerfd_settime env fd \<lparr>tv_sec = 0, tv_nsec = 0\<rparr> \<lparr>tv_sec = secs, tv_nsec = 0\<rparr> w1 = (r, w2)"
    by force
  have "0 \<le> fd \<Longrightarrow> opened v w fd w2"
    by (rule opened_then [OF opens_fresh_opened [OF setup_specD(2) [OF S 1]] setup_specD(6) [OF S 2]])
  then show ?thesis by (simp add: create_warmup_timer_def 1 2)
qed

lemma signal_handler_safe:
  assumes S: "setup_spec env v"
  shows "safeE (same_view v w) (register_signal_handler env w)"
  using setup_specD(7) [OF S] by (auto simp: register_signal_handler_def split: prod.splits)

lemma listening_socket_safe:
  assumes S: "setup_spec env v"
  shows "safeE (\<lambda>(fd, w'). opened v w fd w') (create_ipv4_listening_socket env port w)"
proof -
  obtain fd w1 where 1: "e_socket env w = (fd, w1)" by force
  obtain r2 w2 where 2: "e_fcntl_nonblock env fd w1 = (r2, w2)" by force
  obtain r3 w3 where 3: "e_bind env fd (htons port) 0 w2 = (r3, w3)" by force
  obtain r4 w4 where 4: "e_listen env fd 128 w3 = (r4, w4)" by force
  have "same_view v w1 w4"
    using setup_specD(3-5) [OF S] 2 3 4 same_view_trans by metis
  moreover have "0 \<le> fd \<Longrightarrow> opened v w fd w1" using setup_specD(1) [OF S 1] by (rule opens_fresh_opened)
  ultimately show ?thesis
    using opened_then by (auto simp: create_ipv4_listening_socket_def 1 2 3 4)
qed

subsection \<open>Claims\<close>

text \<open>C17: \<open>read_n_echo\<close> has no undefined behaviour with a buffer as large as it says. It
  returns in two cases only: the peer closed (0, nothing written), or a message of exactly
  \<open>DEFAULT_BUFFER_SIZE\<close> bytes arrived, is at the front of the buffer and has been written
  back whole; any other length, a failed call and a short write exit.\<close>

theorem read_n_echo_exact:
  assumes "read_spec env v" "write_spec env v" "n \<le> length buf"
    and "e_read env fd n w = ((rc, data), w1)" "0 < DEFAULT_BUFFER_SIZE cfg"
  shows "if rc = 0 then read_n_echo env cfg fd buf n w = Inr (0, buf, w1)
     else if rc = int (DEFAULT_BUFFER_SIZE cfg) \<and> int (DEFAULT_BUFFER_SIZE cfg) \<le> fst (e_write env fd data w1)
     then \<exists>w2. read_n_echo env cfg fd buf n w = Inr (rc, data @ drop (length data) buf, w2)
       \<and> length data = DEFAULT_BUFFER_SIZE cfg
       \<and> kv_in v w2 fd = kv_in v w fd @ data \<and> kv_out v w2 fd = kv_out v w fd @ data
     else \<exists>m. read_n_echo env cfg fd buf n w = Inl (ExitFailure m)"
proof -
  note R = assms(1) [unfolded read_spec_def, rule_format, OF assms(4)]
  have fit: "length data \<le> length buf" using R assms(3) by auto
  obtain sent w2 where s: "e_write env fd data w1 = (sent, w2)" by force
  note S = assms(2) [unfolded write_spec_def, rule_format, OF s]
  consider "rc < 0" | "rc = 0" | "0 < rc" "rc \<noteq> int (DEFAULT_BUFFER_SIZE cfg)" | "rc = int (DEFAULT_BUFFER_SIZE cfg)" "0 < rc"
    by linarith
  then show ?thesis
  proof cases
    case 4
    then have l: "length data = DEFAULT_BUFFER_SIZE cfg" using R by simp
    have w: "sent < 0 \<Longrightarrow> sent < int (DEFAULT_BUFFER_SIZE cfg)" by simp
    show ?thesis
    proof (cases "sent < int (DEFAULT_BUFFER_SIZE cfg)")
      case True
      then show ?thesis
        using 4 R S s l fit assms(4) by (cases "sent < 0") (auto simp: read_n_echo_def)
    next
      case False
      then have "0 \<le> sent" by linarith
      then show ?thesis
        using False 4 R S s l fit assms(4) by (simp add: read_n_echo_def)
    qed
  qed (use R fit assms(4,5) in \<open>auto simp: read_n_echo_def\<close>)
qed

end
