(* ===== verification/PollfdVector.thy ===== *)
theory PollfdVector
  imports Libc
begin

text \<open>
  code/c/server/poll/pollfd_vector.c: the growing array of \<open>struct pollfd\<close> with its
  parallel array of private-data pointers, and its abstraction to one list of pairs. The
  interface \<open>conn_vector\<close> is what the poll server relies on.
\<close>

text \<open>\<open>struct pollfd\<close> of poll.h, and the event bits the code uses.\<close>

record pollfd =
  pf_fd :: int
  pf_events :: "16 word"
  pf_revents :: "16 word"

abbreviation POLLIN :: "16 word" where "POLLIN \<equiv> 1"
abbreviation POLLERR :: "16 word" where "POLLERR \<equiv> 8"
abbreviation POLLHUP :: "16 word" where "POLLHUP \<equiv> 16"

text \<open>
  Calls of the poll server beyond the common ones. \<open>realloc\<close> yields, on success, the
  content of the fresh part of the block at each index. \<open>ppoll\<close> takes the entries
  polled and yields the return code, \<open>errno\<close>, the \<open>revents\<close> written and whether
  SIGUSR1 was delivered while waiting.
\<close>

record 'w poll_env = "'w env" +
  e_realloc_data :: "nat \<Rightarrow> 'w \<Rightarrow> (nat \<Rightarrow> pollfd) option \<times> 'w"
  e_realloc_pd :: "nat \<Rightarrow> 'w \<Rightarrow> (nat \<Rightarrow> ptr) option \<times> 'w"
  e_ppoll :: "(int \<times> 16 word) list \<Rightarrow> 'w \<Rightarrow> (int \<times> int \<times> 16 word list \<times> bool) \<times> 'w"

text \<open>
  \<open>struct pollfd_vector\<close>. \<open>pv_blk\<close> identifies the block \<open>data\<close> points to:
  after \<open>realloc\<close> pointers into the old block are invalid, moved or not.
\<close>

record pollfd_vector =
  pv_blk :: nat
  pv_data :: "pollfd list"
  pv_size :: "32 word"
  pv_capacity :: "32 word"
  pv_pd :: "ptr list"

definition DATA_INITIAL_SIZE :: "32 word" where "DATA_INITIAL_SIZE = 16"
definition DATA_CAPACITY_EXTEND_MULT :: "32 word" where "DATA_CAPACITY_EXTEND_MULT = 2"

definition zero_pollfd :: pollfd where
  "zero_pollfd = \<lparr>pf_fd = 0, pf_events = 0, pf_revents = 0\<rparr>"

text \<open>\<open>sizeof(struct pollfd)\<close> and \<open>sizeof(void *)\<close> are 8.\<close>

definition pollfdv_create :: "('w, 'x) poll_env_scheme \<Rightarrow> 'w \<Rightarrow> (pollfd_vector \<times> 'w) res" where
  "pollfdv_create env w =
     (let capacity = DATA_INITIAL_SIZE
      in case e_malloc env (unat capacity * 8) w of (data_ptr, w) \<Rightarrow>
      bindE (assert_nnull data_ptr ''calloc pollfdv.data'') (\<lambda>_.
      case e_malloc env (unat capacity * 8) w of (pd_ptr, w) \<Rightarrow>
      bindE (assert_nnull pd_ptr ''calloc pollfdv.pd'') (\<lambda>_.
      let data = map (\<lambda>d. d\<lparr>pf_fd := - 1\<rparr>) (replicate (unat capacity) zero_pollfd)
      in Inr (\<lparr>pv_blk = 0, pv_data = data, pv_size = 0, pv_capacity = capacity,
               pv_pd = replicate (unat capacity) None\<rparr>, w))))"

definition pollfdv_free :: "pollfd_vector \<Rightarrow> pollfd_vector" where
  "pollfdv_free v = v\<lparr>pv_blk := Suc (pv_blk v), pv_data := [], pv_pd := [], pv_size := 0, pv_capacity := 0\<rparr>"

text \<open>The content of a block after \<open>realloc\<close> to \<open>n\<close> elements.\<close>

definition realloc_content :: "nat \<Rightarrow> (nat \<Rightarrow> 'a) \<Rightarrow> 'a list \<Rightarrow> 'a list" where
  "realloc_content n fresh old = map (\<lambda>i. if i < length old then old ! i else fresh i) [0..<n]"

definition pollfdv_extend ::
    "('w, 'x) poll_env_scheme \<Rightarrow> pollfd_vector \<times> 'w \<Rightarrow> (pollfd_vector \<times> 'w) res" where
  "pollfdv_extend env = (\<lambda>(v, w).
     let new_capacity = pv_capacity v * DATA_CAPACITY_EXTEND_MULT
     in case e_realloc_data env (unat new_capacity * 8) w of (new_data_ptr, w) \<Rightarrow>
     bindE (assert_nnull new_data_ptr ''realloc pollfdv.data'') (\<lambda>fresh_data.
     case e_realloc_pd env (unat new_capacity * 8) w of (new_pd_ptr, w) \<Rightarrow>
     bindE (assert_nnull new_pd_ptr ''realloc pollfdv.pd'') (\<lambda>fresh_pd.
     Inr (v\<lparr>pv_blk := Suc (pv_blk v),
            pv_data := realloc_content (unat new_capacity) fresh_data (pv_data v),
            pv_pd := realloc_content (unat new_capacity) fresh_pd (pv_pd v),
            pv_capacity := new_capacity\<rparr>, w))))"

definition pollfdv_add ::
    "('w, 'x) poll_env_scheme \<Rightarrow> pollfd \<Rightarrow> ptr \<Rightarrow> pollfd_vector \<times> 'w \<Rightarrow> (pollfd_vector \<times> 'w) res" where
  "pollfdv_add env conf private_data = (\<lambda>(v, w).
     bindE (if pv_size v \<ge> pv_capacity v then pollfdv_extend env (v, w) else Inr (v, w)) (\<lambda>(v, w).
     if pv_size v \<ge> pv_capacity v
     then Inl (ExitFailure ''Did not find a place to add a new entry in pollfdv'')
     else bindE (arr_set (pv_data v) (unat (pv_size v)) conf) (\<lambda>data.
          bindE (arr_set (pv_pd v) (unat (pv_size v)) private_data) (\<lambda>pd.
          Inr (v\<lparr>pv_data := data, pv_pd := pd, pv_size := pv_size v + 1\<rparr>, w)))))"

definition pollfdv_remove_index :: "32 word \<Rightarrow> pollfd_vector \<Rightarrow> pollfd_vector res" where
  "pollfdv_remove_index index v =
     (if index \<ge> pv_capacity v then Inr v
      else bindE (arr_get (pv_data v) (unat index)) (\<lambda>ent.
      if pf_fd ent = - 1 then Inr v
      else let last = unat (pv_size v - 1) in
      bindE (if index \<noteq> pv_size v - 1
             then bindE (arr_get (pv_data v) last) (\<lambda>d.
                  bindE (arr_set (pv_data v) (unat index) d) (\<lambda>data.
                  bindE (arr_get (pv_pd v) last) (\<lambda>p.
                  bindE (arr_set (pv_pd v) (unat index) p) (\<lambda>pd.
                  Inr (v\<lparr>pv_data := data, pv_pd := pd\<rparr>)))))
             else Inr v) (\<lambda>v.
      bindE (arr_set (pv_data v) last (zero_pollfd\<lparr>pf_fd := - 1\<rparr>)) (\<lambda>data.
      bindE (arr_set (pv_pd v) last None) (\<lambda>pd.
      Inr (v\<lparr>pv_data := data, pv_pd := pd, pv_size := pv_size v - 1\<rparr>))))))"

subsection \<open>Abstraction and invariant\<close>

definition pv_entries :: "pollfd_vector \<Rightarrow> (pollfd \<times> ptr) list" where
  "pv_entries v = take (unat (pv_size v)) (zip (pv_data v) (pv_pd v))"

definition pv_inv :: "pollfd_vector \<Rightarrow> bool" where
  "pv_inv v \<longleftrightarrow> length (pv_data v) = unat (pv_capacity v) \<and> length (pv_pd v) = unat (pv_capacity v)
     \<and> unat (pv_size v) \<le> unat (pv_capacity v) \<and> 0 < unat (pv_capacity v)"

lemma length_pv_entries [simp]: "pv_inv v \<Longrightarrow> length (pv_entries v) = unat (pv_size v)"
  by (simp add: pv_inv_def pv_entries_def)

lemma nth_pv_entries:
  "pv_inv v \<Longrightarrow> i < unat (pv_size v) \<Longrightarrow> pv_entries v ! i = (pv_data v ! i, pv_pd v ! i)"
  by (simp add: pv_inv_def pv_entries_def)

lemma length_realloc_content [simp]: "length (realloc_content n f xs) = n"
  by (simp add: realloc_content_def)

lemma take_realloc_content: "k \<le> length xs \<Longrightarrow> k \<le> n \<Longrightarrow> take k (realloc_content n f xs) = take k xs"
  by (rule nth_equalityI) (auto simp: realloc_content_def)

lemma unat_Suc32: "unat (a :: 32 word) < unat (b :: 32 word) \<Longrightarrow> unat (a + 1) = Suc (unat a)"
  using unsigned_less [of b, where ?'a = nat] by (simp add: unat_word_ariths)

lemma unat_double32: "unat (a :: 32 word) < 2 ^ 31 \<Longrightarrow> unat (a * 2) = 2 * unat a"
  by (simp add: unat_word_ariths)

lemma unat_minus_one32: "0 < unat (a :: 32 word) \<Longrightarrow> unat (a - 1) = unat a - 1"
  by (auto simp: unat_sub_if' unat_eq_0)

subsection \<open>The operations on the abstract list\<close>

lemma create_pv_inv:
  "safeE (\<lambda>(v, w'). pv_inv v \<and> pv_entries v = [] \<and> pv_capacity v = 16
      \<and> (\<forall>d \<in> set (pv_data v). d = zero_pollfd\<lparr>pf_fd := - 1\<rparr>)) (pollfdv_create env w)"
  by (simp add: pollfdv_create_def pv_inv_def pv_entries_def DATA_INITIAL_SIZE_def Let_def
      split: prod.splits)

text \<open>The vector after an addition that finds room.\<close>

definition appended_vec :: "pollfd \<Rightarrow> ptr \<Rightarrow> pollfd_vector \<Rightarrow> pollfd_vector" where
  "appended_vec conf p v = v\<lparr>pv_data := (pv_data v)[unat (pv_size v) := conf],
     pv_pd := (pv_pd v)[unat (pv_size v) := p], pv_size := pv_size v + 1\<rparr>"

lemma add_room_eq:
  assumes "pv_inv v" "pv_size v < pv_capacity v"
  shows "pollfdv_add env conf p (v, w) = Inr (appended_vec conf p v, w)"
proof -
  have "unat (pv_size v) < unat (pv_capacity v)" using assms(2) by (simp add: word_less_nat_alt)
  moreover have "\<not> pv_capacity v \<le> pv_size v" using assms(2) by simp
  ultimately show ?thesis using assms(1) by (simp add: pollfdv_add_def pv_inv_def appended_vec_def)
qed

lemma appended_inv:
  assumes "pv_inv v" "pv_size v < pv_capacity v"
    and "v' = appended_vec conf p v"
  shows "pv_inv v' \<and> pv_entries v' = pv_entries v @ [(conf, p)]"
proof -
  have lt: "unat (pv_size v) < unat (pv_capacity v)" using assms(2) by (simp add: word_less_nat_alt)
  have sz: "unat (pv_size v + 1) = Suc (unat (pv_size v))" using lt by (rule unat_Suc32)
  have z: "zip ((pv_data v)[unat (pv_size v) := conf]) ((pv_pd v)[unat (pv_size v) := p])
      = (zip (pv_data v) (pv_pd v))[unat (pv_size v) := (conf, p)]"
    by (simp add: update_zip)
  show ?thesis
    using assms(1,3) lt sz
    by (simp add: pv_inv_def pv_entries_def z take_Suc_conv_app_nth appended_vec_def)
qed

lemma extend_doubles:
  assumes "pv_inv v" "unat (pv_capacity v) < 2 ^ 31"
  shows "safeE (\<lambda>(v', w'). pv_inv v' \<and> pv_entries v' = pv_entries v \<and> pv_size v' = pv_size v
     \<and> unat (pv_capacity v') = 2 * unat (pv_capacity v) \<and> pv_blk v' = Suc (pv_blk v)
     \<and> take (unat (pv_capacity v)) (pv_data v') = pv_data v) (pollfdv_extend env (v, w))"
proof -
  let ?n = "unat (pv_capacity v)" and ?k = "unat (pv_size v)"
  have n: "unat (pv_capacity v * 2) = 2 * ?n" using assms(2) by (rule unat_double32)
  have len: "length (pv_data v) = ?n" "length (pv_pd v) = ?n" "?k \<le> ?n" "0 < ?n"
    using assms(1) by (simp_all add: pv_inv_def)
  have t: "take ?k (zip (realloc_content (2 * ?n) f (pv_data v)) (realloc_content (2 * ?n) g (pv_pd v)))
      = take ?k (zip (pv_data v) (pv_pd v))" for f g
    using len by (simp add: take_zip take_realloc_content)
  have c: "take ?n (realloc_content (2 * ?n) f (pv_data v)) = pv_data v" for f
    using take_realloc_content [of ?n "pv_data v" "2 * ?n" f] len by simp
  show ?thesis
    using len t c
    by (simp add: pollfdv_extend_def pv_inv_def pv_entries_def n DATA_CAPACITY_EXTEND_MULT_def
        split: prod.splits)
qed

lemma extend_wraps:
  assumes "pv_inv v" "2 ^ 31 \<le> unat (pv_capacity v)" "pv_capacity v \<le> pv_size v"
  shows "safeE (\<lambda>(v', w'). pv_capacity v' \<le> pv_size v') (pollfdv_extend env (v, w))"
proof -
  have "unat (pv_capacity v * 2) \<le> unat (pv_capacity v)"
    using assms(2) unsigned_less [of "pv_capacity v", where ?'a = nat]
    by (simp add: unat_word_ariths mod_if) (arith?)
  then have "pv_capacity v * 2 \<le> pv_size v"
    using assms(3) by (simp add: word_le_nat_alt)
  then show ?thesis
    by (simp add: pollfdv_extend_def DATA_CAPACITY_EXTEND_MULT_def Let_def split: prod.splits)
qed

lemma add_safe:
  fixes w :: 'w
  assumes inv: "pv_inv v"
  shows "safeE (\<lambda>(v', w'). pv_inv v' \<and> pv_entries v' = pv_entries v @ [(conf, p)]
     \<and> (pv_blk v' = pv_blk v \<longleftrightarrow> pv_size v < pv_capacity v)) (pollfdv_add env conf p (v, w))"
proof (cases "pv_size v < pv_capacity v")
  case True
  with inv appended_inv [OF inv True refl] show ?thesis by (simp add: add_room_eq appended_vec_def)
next
  case False
  then have ge: "pv_capacity v \<le> pv_size v" by simp
  have add: "pollfdv_add env conf p (v, w) = bindE (pollfdv_extend env (v, w)) (\<lambda>(v, w).
      if pv_capacity v \<le> pv_size v
      then Inl (ExitFailure ''Did not find a place to add a new entry in pollfdv'')
      else pollfdv_add env conf p (v, w))"
    using ge by (auto simp: pollfdv_add_def bindE_def split: sum.splits)
  show ?thesis
  proof (cases "unat (pv_capacity v) < 2 ^ 31")
    case small: True
    show ?thesis
      unfolding add safeE_bindE
    proof (rule safeE_mono [OF extend_doubles [OF inv small]])
      fix x :: "pollfd_vector \<times> 'w"
      assume "case x of (v', w') \<Rightarrow> pv_inv v' \<and> pv_entries v' = pv_entries v \<and> pv_size v' = pv_size v
        \<and> unat (pv_capacity v') = 2 * unat (pv_capacity v) \<and> pv_blk v' = Suc (pv_blk v)
        \<and> take (unat (pv_capacity v)) (pv_data v') = pv_data v"
      then obtain v' w' where x: "x = (v', w')" "pv_inv v'" "pv_entries v' = pv_entries v"
          "pv_size v' = pv_size v" "unat (pv_capacity v') = 2 * unat (pv_capacity v)"
          "pv_blk v' = Suc (pv_blk v)" by auto
      have lt: "pv_size v' < pv_capacity v'"
        using inv x by (simp add: pv_inv_def word_less_nat_alt)
      show "safeE (\<lambda>(v', w'). pv_inv v' \<and> pv_entries v' = pv_entries v @ [(conf, p)]
          \<and> (pv_blk v' = pv_blk v \<longleftrightarrow> pv_size v < pv_capacity v))
        (case x of (v, w) \<Rightarrow> if pv_capacity v \<le> pv_size v
          then Inl (ExitFailure ''Did not find a place to add a new entry in pollfdv'')
          else pollfdv_add env conf p (v, w))"
        using x lt appended_inv [OF x(2) lt refl, where conf = conf and p = p] False
        by (simp add: add_room_eq appended_vec_def)
    qed
  next
    case big: False
    then show ?thesis
      unfolding add safeE_bindE
      by (intro safeE_mono [OF extend_wraps [OF inv _ ge]]) auto
  qed
qed

lemma add_total:
  assumes "pv_inv v" "unat (pv_capacity v) < 2 ^ 31"
    and "\<forall>n w. fst (e_realloc_data env n w) \<noteq> None" "\<forall>n w. fst (e_realloc_pd env n w) \<noteq> None"
  shows "okE (\<lambda>(v', w'). pv_inv v' \<and> pv_entries v' = pv_entries v @ [(conf, p)]
     \<and> (pv_blk v' = pv_blk v \<longleftrightarrow> pv_size v < pv_capacity v)) (pollfdv_add env conf p (v, w))"
proof -
  have "\<exists>x. pollfdv_add env conf p (v, w) = Inr x"
  proof (cases "pv_size v < pv_capacity v")
    case True
    then show ?thesis using assms(1) by (simp add: add_room_eq)
  next
    case False
    obtain f w1 where f: "e_realloc_data env (unat (pv_capacity v * 2) * 8) w = (Some f, w1)"
      using assms(3) by (metis option.exhaust prod.collapse)
    obtain g w2 where g: "e_realloc_pd env (unat (pv_capacity v * 2) * 8) w1 = (Some g, w2)"
      using assms(4) by (metis option.exhaust prod.collapse)
    have n: "unat (pv_capacity v * 2) = 2 * unat (pv_capacity v)"
      using assms(2) by (rule unat_double32)
    have "\<not> pv_capacity v * 2 \<le> pv_size v" "unat (pv_size v) < 2 * unat (pv_capacity v)"
      using assms(1) False n by (auto simp: pv_inv_def word_le_nat_alt)
    with False n f g show ?thesis
      by (simp add: pollfdv_add_def pollfdv_extend_def DATA_CAPACITY_EXTEND_MULT_def Let_def)
  qed
  with add_safe [OF assms(1), of conf p env w] show ?thesis by (auto simp: okE_iff)
qed

text \<open>The vector after the removal of a live entry.\<close>

definition removed_vec :: "32 word \<Rightarrow> pollfd_vector \<Rightarrow> pollfd_vector" where
  "removed_vec index v = v\<lparr>
     pv_data := (pv_data v)[unat index := pv_data v ! (unat (pv_size v) - 1),
       unat (pv_size v) - 1 := zero_pollfd\<lparr>pf_fd := - 1\<rparr>],
     pv_pd := (pv_pd v)[unat index := pv_pd v ! (unat (pv_size v) - 1), unat (pv_size v) - 1 := None],
     pv_size := pv_size v - 1\<rparr>"

lemma remove_eq:
  assumes inv: "pv_inv v" and i: "index < pv_size v" and live: "pf_fd (pv_data v ! unat index) \<noteq> - 1"
  shows "pollfdv_remove_index index v = Inr (removed_vec index v)"
proof -
  have lt: "unat index < unat (pv_size v)" using i by (simp add: word_less_nat_alt)
  have cap: "unat (pv_size v) \<le> unat (pv_capacity v)" using inv by (simp add: pv_inv_def)
  have nle: "\<not> pv_capacity v \<le> index" using lt cap by (simp add: word_le_nat_alt)
  have last: "unat (pv_size v - 1) = unat (pv_size v) - 1" using lt by (intro unat_minus_one32) simp
  have eq: "index = pv_size v - 1 \<longleftrightarrow> unat index = unat (pv_size v) - 1"
    unfolding word_unat_eq_iff last ..
  have l: "unat (pv_size v) - 1 < length (pv_data v)" "unat (pv_size v) - 1 < length (pv_pd v)"
      "unat index < length (pv_data v)" "unat index < length (pv_pd v)"
    using inv lt cap by (auto simp: pv_inv_def)
  show ?thesis
    using live l
    by (cases "unat index = unat (pv_size v) - 1")
      (simp_all add: pollfdv_remove_index_def nle last eq Let_def removed_vec_def)
qed

lemma removed_inv:
  assumes inv: "pv_inv v" and i: "index < pv_size v"
    and v': "v' = removed_vec index v"
  shows "pv_inv v' \<and> pv_entries v' = swap_remove (unat index) (pv_entries v)"
proof -
  let ?n = "unat (pv_size v)"
  have lt: "unat index < ?n" using i by (simp add: word_less_nat_alt)
  have sz: "unat (pv_size v - 1) = ?n - 1" using lt by (intro unat_minus_one32) simp
  have inv': "pv_inv v'" using inv v' [unfolded removed_vec_def] lt sz by (auto simp: pv_inv_def)
  have n': "unat (pv_size v') = ?n - 1" using v' [unfolded removed_vec_def] sz by simp
  moreover have "pv_entries v' = swap_remove (unat index) (pv_entries v)"
  proof (rule nth_equalityI)
    show "length (pv_entries v') = length (swap_remove (unat index) (pv_entries v))"
      using inv inv' n' by simp
    fix j assume "j < length (pv_entries v')"
    then have j: "j < ?n - 1" using inv' n' by simp
    have last: "last (pv_entries v) = pv_entries v ! (?n - 1)"
      using inv lt by (subst last_conv_nth) (auto simp flip: length_greater_0_conv)
    show "pv_entries v' ! j = swap_remove (unat index) (pv_entries v) ! j"
      using inv inv' n' j lt v' [unfolded removed_vec_def]
      by (auto simp: nth_pv_entries nth_swap_remove last pv_inv_def nth_list_update)
  qed
  ultimately show ?thesis using inv' by simp
qed

subsection \<open>The interface: a vector with removal by swapping\<close>

datatype 'e vec_op = VAdd 'e | VRemove nat

text \<open>What a sequence of operations means on the list; \<open>None\<close> when a removal is not at the
  index of a live element.\<close>

fun list_run :: "('e \<Rightarrow> bool) \<Rightarrow> 'e vec_op list \<Rightarrow> 'e list \<Rightarrow> 'e list option" where
  "list_run live [] xs = Some xs"
| "list_run live (VAdd e # ops) xs = list_run live ops (xs @ [e])"
| "list_run live (VRemove i # ops) xs =
     (if i < length xs \<and> live (xs ! i) then list_run live ops (swap_remove i xs) else None)"

fun vec_run :: "('e \<Rightarrow> 'v \<Rightarrow> 'v res) \<Rightarrow> (nat \<Rightarrow> 'v \<Rightarrow> 'v res) \<Rightarrow> 'e vec_op list \<Rightarrow> 'v \<Rightarrow> 'v res" where
  "vec_run add remove [] v = Inr v"
| "vec_run add remove (VAdd e # ops) v = bindE (add e v) (vec_run add remove ops)"
| "vec_run add remove (VRemove i # ops) v = bindE (remove i v) (vec_run add remove ops)"

locale conn_vector =
  fixes content :: "'v \<Rightarrow> 'e list"
    and invar :: "'v \<Rightarrow> bool"
    and live :: "'e \<Rightarrow> bool"
    and add :: "'e \<Rightarrow> 'v \<Rightarrow> 'v res"
    and remove :: "nat \<Rightarrow> 'v \<Rightarrow> 'v res"
  assumes add_law: "invar v \<Longrightarrow> safeE (\<lambda>v'. invar v' \<and> content v' = content v @ [e]) (add e v)"
    and remove_law: "invar v \<Longrightarrow> i < length (content v) \<Longrightarrow> live (content v ! i) \<Longrightarrow>
      okE (\<lambda>v'. invar v' \<and> content v' = swap_remove i (content v)) (remove i v)"
begin

lemma run_refines:
  assumes "invar v" "list_run live ops (content v) = Some xs"
  shows "safeE (\<lambda>v'. invar v' \<and> content v' = xs) (vec_run add remove ops v)"
  using assms
proof (induction ops arbitrary: v)
  case Nil
  then show ?case by simp
next
  case (Cons x ops)
  show ?case
  proof (cases x)
    case (VAdd e)
    have "safeE (\<lambda>v'. safeE (\<lambda>v''. invar v'' \<and> content v'' = xs) (vec_run add remove ops v')) (add e v)"
      using Cons.prems VAdd
      by (intro safeE_mono [OF add_law [OF Cons.prems(1)]] Cons.IH) auto
    then show ?thesis using VAdd by simp
  next
    case (VRemove i)
    then have i: "i < length (content v)" "live (content v ! i)"
      using Cons.prems(2) by (auto split: if_splits)
    have "safeE (\<lambda>v'. safeE (\<lambda>v''. invar v'' \<and> content v'' = xs) (vec_run add remove ops v')) (remove i v)"
      using Cons.prems VRemove
      by (intro safeE_mono [OF okE_safeE [OF remove_law [OF Cons.prems(1) i]]] Cons.IH)
        (auto split: if_splits)
    then show ?thesis using VRemove by simp
  qed
qed

end

definition vec_add :: "('w, 'x) poll_env_scheme \<Rightarrow> pollfd \<times> ptr \<Rightarrow> pollfd_vector \<times> 'w \<Rightarrow> (pollfd_vector \<times> 'w) res" where
  "vec_add env e vw = pollfdv_add env (fst e) (snd e) vw"

definition vec_remove :: "nat \<Rightarrow> pollfd_vector \<times> 'w \<Rightarrow> (pollfd_vector \<times> 'w) res" where
  "vec_remove i vw = bindE (pollfdv_remove_index (word_of_nat i) (fst vw)) (\<lambda>v. Inr (v, snd vw))"

definition entry_live :: "pollfd \<times> ptr \<Rightarrow> bool" where
  "entry_live e \<longleftrightarrow> pf_fd (fst e) \<noteq> - 1"

lemma remove_ok:
  assumes inv: "pv_inv v" and i: "index < pv_size v" and live: "entry_live (pv_entries v ! unat index)"
  shows "okE (\<lambda>v'. pv_inv v' \<and> pv_entries v' = swap_remove (unat index) (pv_entries v))
     (pollfdv_remove_index index v)"
proof -
  have lt: "unat index < unat (pv_size v)" using i by (simp add: word_less_nat_alt)
  have "pf_fd (pv_data v ! unat index) \<noteq> - 1"
    using live nth_pv_entries [OF inv lt] by (simp add: entry_live_def)
  from remove_eq [OF inv i this] removed_inv [OF inv i refl] show ?thesis by simp
qed

interpretation vec: conn_vector "\<lambda>vw :: pollfd_vector \<times> 'w. pv_entries (fst vw)" "\<lambda>vw. pv_inv (fst vw)"
  entry_live "vec_add env" vec_remove
  for env :: "('w, 'x) poll_env_scheme"
proof (unfold_locales, goal_cases)
  case (1 vw e)
  then have "safeE (\<lambda>(v', w'). pv_inv v' \<and> pv_entries v' = pv_entries (fst vw) @ [(fst e, snd e)]
      \<and> (pv_blk v' = pv_blk (fst vw) \<longleftrightarrow> pv_size (fst vw) < pv_capacity (fst vw)))
    (pollfdv_add env (fst e) (snd e) (fst vw, snd vw))" by (rule add_safe)
  then show ?case unfolding vec_add_def by (auto elim: safeE_mono)
next
  case (2 vw i)
  then have i: "i < unat (pv_size (fst vw))" by simp
  then have "i < 2 ^ 32" using unsigned_less [of "pv_size (fst vw)", where ?'a = nat] by simp
  then have u: "unat (word_of_nat i :: 32 word) = i"
    by (simp add: unsigned_of_nat take_bit_nat_eq_self)
  then show ?case
    using 2 i remove_ok [of "fst vw" "word_of_nat i"]
    by (simp add: vec_remove_def word_less_nat_alt)
qed

subsection \<open>Claims\<close>

text \<open>C18: from \<open>pollfdv_create\<close> on, every sequence of \<open>pollfdv_add\<close> and of
  \<open>pollfdv_remove_index\<close> at live indices behaves as on a list (append; overwrite the
  removed element by the last), through every growth of the block: no access is out of
  bounds, and the only way to stop is an exit.\<close>

theorem vector_refines_list:
  assumes "pollfdv_create env w = Inr vw" "list_run entry_live ops [] = Some xs"
  shows "safeE (\<lambda>vw'. pv_inv (fst vw') \<and> pv_entries (fst vw') = xs) (vec_run (vec_add env) vec_remove ops vw)"
proof -
  have "pv_inv (fst vw)" "pv_entries (fst vw) = []"
    using create_pv_inv [of env w] assms(1) by auto
  with assms(2) show ?thesis by (intro vec.run_refines) auto
qed

text \<open>C32: \<open>pollfdv_remove_index\<close> checks the index against the capacity, not the size:
  for an index past the end whose slot does not hold fd -1 (a slot a growth left
  uninitialised), it drops the last live entry, and on an empty vector it writes out of
  bounds.\<close>

theorem remove_index_past_end:
  assumes "pv_inv v" "pv_size v \<le> index" "index < pv_capacity v"
    and "pf_fd (pv_data v ! unat index) \<noteq> - 1"
  shows "if pv_size v = 0 then pollfdv_remove_index index v = Inl (UB OutOfBounds)
     else \<exists>v'. pollfdv_remove_index index v = Inr v' \<and> pv_entries v' = butlast (pv_entries v)"
proof (cases "pv_size v = 0")
  case True
  have "index < - 1" using assms(3) by (rule order_less_le_trans) simp
  moreover have "unat (- 1 :: 32 word) = 2 ^ 32 - 1" by (simp add: unsigned_minus_1_eq_mask mask_eq_exp_minus_1)
  moreover have "length (pv_data v) \<le> 2 ^ 32 - 1"
    using assms(1) unsigned_less [of "pv_capacity v", where ?'a = nat] by (simp add: pv_inv_def)
  ultimately show ?thesis
    using True assms by (auto simp: pollfdv_remove_index_def pv_inv_def word_less_nat_alt
        word_le_nat_alt arr_get_def Let_def)
next
  case False
  let ?n = "unat (pv_size v)"
  have n: "0 < ?n" "?n \<le> unat index" "unat index < unat (pv_capacity v)"
    using False assms by (auto simp: word_le_nat_alt word_less_nat_alt unat_eq_0 intro: gr0I)
  have last: "unat (pv_size v - 1) = ?n - 1" using n by (intro unat_minus_one32)
  then have ne: "index \<noteq> pv_size v - 1" using n by auto
  have len: "length (pv_data v) = unat (pv_capacity v)" "length (pv_pd v) = unat (pv_capacity v)"
    using assms(1) by (auto simp: pv_inv_def)
  define v' where "v' = v\<lparr>pv_data := (pv_data v)[unat index := pv_data v ! (?n - 1), ?n - 1 := zero_pollfd\<lparr>pf_fd := - 1\<rparr>],
      pv_pd := (pv_pd v)[unat index := pv_pd v ! (?n - 1), ?n - 1 := None], pv_size := pv_size v - 1\<rparr>"
  have ncap: "\<not> pv_capacity v \<le> index" using assms(3) by simp
  have r: "pollfdv_remove_index index v = Inr v'"
    using n len ne assms(4)
    by (simp add: pollfdv_remove_index_def ncap last Let_def v'_def)
  have inv': "pv_inv v'" using assms(1) n last by (auto simp: pv_inv_def v'_def)
  have n': "unat (pv_size v') = ?n - 1" using last by (simp add: v'_def)
  have "pv_entries v' = butlast (pv_entries v)"
  proof (rule nth_equalityI)
    show "length (pv_entries v') = length (butlast (pv_entries v))" using inv' assms(1) n' by simp
    fix j assume "j < length (pv_entries v')"
    then have j: "j < ?n - 1" using inv' n' by simp
    then show "pv_entries v' ! j = butlast (pv_entries v) ! j"
      using inv' assms(1) n n' by (simp add: nth_pv_entries nth_butlast) (simp add: v'_def)
  qed
  with r False show ?thesis by simp
qed

end
