(* ===== verification/PollServer.thy ===== *)
theory PollServer
  imports PollfdVector ServerUtils ServerBench
begin

text \<open>
  code/c/server/poll/main.c: the echo server over ppoll(2). The state is the file's global
  variables, the heap of connection objects, the global \<open>server_running\<close> and the world.
  The \<open>#if DO_SERVER_SIDE_BENCHMARKING\<close> parts are conditional on the configuration.
\<close>

unbundle bit_operations_syntax

subsection \<open>State\<close>

record pd_echo_connection =
  con_buf_size :: "32 word"
  con_buf :: "byte list"

record 'w poll_state =
  pollfdv :: pollfd_vector
  bench :: server_bench
  conns :: "pd_echo_connection heap"
  server_running :: int
  world :: 'w

text \<open>\<open>sizeof(pd_echo_connection_t)\<close>: 4 bytes and the buffer, in whole words.\<close>

definition sizeof_con :: "config \<Rightarrow> nat" where
  "sizeof_con cfg = (4 + DEFAULT_SERVER_BUFFER_SIZE cfg + 3) div 4 * 4"

definition with_bench :: "config \<Rightarrow> (server_bench \<times> 'w \<Rightarrow> server_bench \<times> 'w) \<Rightarrow> 'w poll_state \<Rightarrow> 'w poll_state" where
  "with_bench cfg f s =
     (if DO_BENCH cfg
      then (case f (bench s, world s) of (b, w) \<Rightarrow> s\<lparr>bench := b, world := w\<rparr>)
      else s)"

subsection \<open>Operations\<close>

definition poll_add_fd ::
    "('w, 'x) poll_env_scheme \<Rightarrow> int \<Rightarrow> 16 word \<Rightarrow> ptr \<Rightarrow> 'w poll_state \<Rightarrow> 'w poll_state res" where
  "poll_add_fd env fd poll_events private_data s =
     (let config = \<lparr>pf_fd = fd, pf_events = poll_events, pf_revents = 0\<rparr>
      in bindE (pollfdv_add env config private_data (pollfdv s, world s)) (\<lambda>(v, w).
         Inr (s\<lparr>pollfdv := v, world := w\<rparr>)))"

definition close_fd ::
    "('w, 'x) env_scheme \<Rightarrow> int \<Rightarrow> string \<Rightarrow> 'w poll_state \<Rightarrow> 'w poll_state res" where
  "close_fd env fd msg s = (case e_close env fd (world s) of (rc, w) \<Rightarrow>
     bindE (assert_zero rc msg) (\<lambda>_. Inr (s\<lparr>world := w\<rparr>)))"

definition close_timer :: "('w, 'x) env_scheme \<Rightarrow> int \<Rightarrow> 'w poll_state \<Rightarrow> 'w poll_state res" where
  "close_timer env timer_fd s = close_fd env timer_fd ''close'' s"

definition timer_expired ::
    "config \<Rightarrow> ('w, 'x) env_scheme \<Rightarrow> int \<Rightarrow> 'w poll_state \<Rightarrow> 'w poll_state res" where
  "timer_expired cfg env timer_fd s =
     bindE (close_timer env timer_fd s) (\<lambda>s. Inr (with_bench cfg (sb_start (e_clock env)) s))"

definition poll_handle_new_client ::
    "config \<Rightarrow> ('w, 'x) poll_env_scheme \<Rightarrow> int \<Rightarrow> 'w poll_state \<Rightarrow> 'w poll_state res" where
  "poll_handle_new_client cfg env listening_socket s =
     bindE (accept_client env listening_socket (world s)) (\<lambda>(client_fd, w).
     case e_malloc env (sizeof_con cfg) w of (mem, w) \<Rightarrow>
     bindE (assert_nnull mem ''malloc'') (\<lambda>mem.
     let fresh = \<lparr>con_buf_size = 0,
           con_buf = map (\<lambda>i. mem (4 + i)) [0..<DEFAULT_SERVER_BUFFER_SIZE cfg]\<rparr>
     in case halloc fresh (conns s) of (con, h) \<Rightarrow>
     bindE (poll_add_fd env client_fd POLLIN (Some con) (s\<lparr>conns := h, world := w\<rparr>)) (\<lambda>s.
     if DO_BENCH cfg
     then bindE (sb_client_connected (bench s)) (\<lambda>b. Inr (s\<lparr>bench := b\<rparr>))
     else Inr s)))"

definition close_client ::
    "('w, 'x) env_scheme \<Rightarrow> 32 word \<Rightarrow> 'w poll_state \<Rightarrow> 'w poll_state res" where
  "close_client env index s =
     bindE (arr_get (pv_data (pollfdv s)) (unat index)) (\<lambda>ent.
     bindE (close_fd env (pf_fd ent) ''close'' s) (\<lambda>s.
     bindE (arr_get (pv_pd (pollfdv s)) (unat index)) (\<lambda>pd.
     bindE (hfree pd (conns s)) (\<lambda>h.
     bindE (pollfdv_remove_index index (pollfdv s)) (\<lambda>v.
     Inr (s\<lparr>conns := h, pollfdv := v\<rparr>))))))"

text \<open>\<open>now_monotonic()\<close> under the latency switch.\<close>

definition latency_clock ::
    "config \<Rightarrow> ('w, 'x) env_scheme \<Rightarrow> 'w poll_state \<Rightarrow> timespec \<times> 'w poll_state" where
  "latency_clock cfg env s =
     (if latency_on cfg
      then (case now_monotonic (e_clock env) (world s) of (t, w) \<Rightarrow> (t, s\<lparr>world := w\<rparr>))
      else (zero_ts, s))"

definition handle_client_event ::
    "config \<Rightarrow> ('w, 'x) env_scheme \<Rightarrow> 32 word \<Rightarrow> 'w poll_state \<Rightarrow> (int \<times> 'w poll_state) res" where
  "handle_client_event cfg env index s =
     bindE (arr_get (pv_data (pollfdv s)) (unat index)) (\<lambda>ent.
     if pf_revents ent AND (POLLHUP OR POLLERR) \<noteq> 0
     then bindE (close_client env index s) (\<lambda>s. Inr (1, s))
     else if pf_revents ent AND POLLIN \<noteq> 0
     then (case latency_clock cfg env s of (start, s) \<Rightarrow>
       bindE (arr_get (pv_pd (pollfdv s)) (unat index)) (\<lambda>pd.
       bindE (hget pd (conns s)) (\<lambda>con.
       bindE (read_n_echo env cfg (pf_fd ent) (con_buf con) (DEFAULT_SERVER_BUFFER_SIZE cfg) (world s))
         (\<lambda>(read_bytes, buf, w).
       bindE (hset pd (con\<lparr>con_buf := buf\<rparr>) (conns s)) (\<lambda>h.
       case latency_clock cfg env (s\<lparr>conns := h, world := w\<rparr>) of (end', s) \<Rightarrow>
       bindE (if latency_on cfg
              then bindE (sb_record_event (e_clock env) start end' (bench s, world s)) (\<lambda>(b, w).
                   Inr (s\<lparr>bench := b, world := w\<rparr>))
              else Inr s) (\<lambda>s.
       if read_bytes = 0
       then bindE (close_client env index s) (\<lambda>s. Inr (1, s))
       else Inr (0, s)))))))
     else Inr (0, s))"

text \<open>\<open>ev->revents = 0\<close> through the pointer taken before the event was handled.\<close>

definition clear_revents :: "nat \<Rightarrow> 32 word \<Rightarrow> 'w poll_state \<Rightarrow> 'w poll_state res" where
  "clear_revents blk i s =
     (if pv_blk (pollfdv s) \<noteq> blk then Inl (UB UseAfterFree)
      else bindE (arr_get (pv_data (pollfdv s)) (unat i)) (\<lambda>ent.
           bindE (arr_set (pv_data (pollfdv s)) (unat i) (ent\<lparr>pf_revents := 0\<rparr>)) (\<lambda>data.
           Inr (s\<lparr>pollfdv := (pollfdv s)\<lparr>pv_data := data\<rparr>\<rparr>))))"

text \<open>
  The body of the loop of \<open>service_events\<close> for an entry with an event: the result says
  whether the current index is to be looked at again, and the value of \<open>*timer\<close>.
\<close>

definition serve_entry ::
    "config \<Rightarrow> ('w, 'x) poll_env_scheme \<Rightarrow> int \<Rightarrow> 32 word \<Rightarrow> int \<times> 'w poll_state
     \<Rightarrow> (bool \<times> int \<times> 'w poll_state) res" where
  "serve_entry cfg env ls i = (\<lambda>(timer, s).
     let ev = pv_blk (pollfdv s) in
     bindE (arr_get (pv_data (pollfdv s)) (unat i)) (\<lambda>ent.
     if pf_fd ent = ls \<and> pf_revents ent AND POLLIN \<noteq> 0
     then bindE (poll_handle_new_client cfg env ls s) (\<lambda>s.
          bindE (clear_revents ev i s) (\<lambda>s. Inr (False, timer, s)))
     else if pf_fd ent = timer \<and> pf_revents ent AND POLLIN \<noteq> 0
     then bindE (timer_expired cfg env timer s) (\<lambda>s.
          bindE (pollfdv_remove_index i (pollfdv s)) (\<lambda>v. Inr (True, - 1, s\<lparr>pollfdv := v\<rparr>)))
     else bindE (handle_client_event cfg env i s) (\<lambda>(removed_client, s).
          if removed_client \<noteq> 0 then Inr (True, timer, s)
          else bindE (clear_revents ev i s) (\<lambda>s. Inr (False, timer, s)))))"

text \<open>
  The loop. \<open>--i; continue;\<close> followed by the loop's \<open>++i\<close> is \<open>i - 1 + 1\<close> on
  \<open>uint32_t\<close>.
\<close>

function service_events_loop ::
    "config \<Rightarrow> ('w, 'x) poll_env_scheme \<Rightarrow> int \<Rightarrow> 32 word \<Rightarrow> int \<Rightarrow> 32 word \<Rightarrow> int
     \<Rightarrow> int \<times> 'w poll_state \<Rightarrow> (int \<times> int \<times> 'w poll_state) res" where
  "service_events_loop cfg env ls sz no_events i no_serviced ts =
     (if i < sz \<and> no_serviced < no_events
      then bindE (arr_get (pv_data (pollfdv (snd ts))) (unat i)) (\<lambda>ent.
        if pf_revents ent = 0
        then service_events_loop cfg env ls sz no_events (i + 1) no_serviced ts
        else bindE (serve_entry cfg env ls i ts) (\<lambda>(again, ts).
          service_events_loop cfg env ls sz no_events (if again then i - 1 + 1 else i + 1)
            (no_serviced + 1) ts))
      else Inr (no_serviced, ts))"
  by pat_completeness auto
termination
proof (relation "measure (\<lambda>(cfg, env, ls, sz, no_events, i, no_serviced, ts).
    2 * nat (no_events - no_serviced) + (unat sz - unat i))", goal_cases)
  case 1
  then show ?case by simp
next
  case (2 cfg env ls sz no_events i no_serviced ts ent)
  then have "unat i < unat sz" by (simp add: word_less_nat_alt)
  moreover from this have "unat (i + 1) = Suc (unat i)" by (rule unat_Suc32)
  ultimately show ?case by simp
next
  case (3 cfg env ls sz no_events i no_serviced ts ent x again ts')
  have "unat sz - unat (i + 1) \<le> unat sz - unat i"
    using 3 by (auto simp: unat_Suc32 word_less_nat_alt)
  with 3 show ?case by (cases again) auto
qed

declare service_events_loop.simps [simp del]

definition service_events ::
    "config \<Rightarrow> ('w, 'x) poll_env_scheme \<Rightarrow> int \<Rightarrow> int \<Rightarrow> int \<times> 'w poll_state \<Rightarrow> (int \<times> 'w poll_state) res" where
  "service_events cfg env ls no_events ts =
     bindE (service_events_loop cfg env ls (pv_size (pollfdv (snd ts))) no_events 0 0 ts) (\<lambda>(no_serviced, ts).
     bindE (assert_zero (no_events - no_serviced) ''Did not service all requests'') (\<lambda>_. Inr ts))"

subsection \<open>The service loop\<close>

text \<open>
  One wait. The entries polled are the first \<open>size\<close> of the block; \<open>revents\<close> are
  written when the call succeeds; a signal delivered while waiting runs the handler.
\<close>

definition do_ppoll ::
    "('w, 'x) poll_env_scheme \<Rightarrow> 'w poll_state \<Rightarrow> (int \<times> int \<times> 'w poll_state) res" where
  "do_ppoll env s =
     bindE (mem_read (pv_data (pollfdv s)) 0 (unat (pv_size (pollfdv s)))) (\<lambda>ents.
     case e_ppoll env (map (\<lambda>d. (pf_fd d, pf_events d)) ents) (world s) of
       ((rc, errno, revs, signalled), w) \<Rightarrow>
     bindE (if rc < 0 then Inr (pv_data (pollfdv s))
            else mem_write (pv_data (pollfdv s)) 0
                   (map (\<lambda>(d, r). d\<lparr>pf_revents := r\<rparr>) (zip ents revs))) (\<lambda>data.
     Inr (rc, errno, s\<lparr>pollfdv := (pollfdv s)\<lparr>pv_data := data\<rparr>, world := w,
       server_running := (if signalled then stop_server_signal_handler (server_running s)
                          else server_running s)\<rparr>)))"

text \<open>One iteration of \<open>while (server_running)\<close>.\<close>

definition poll_round ::
    "config \<Rightarrow> ('w, 'x) poll_env_scheme \<Rightarrow> int \<Rightarrow> int \<times> 'w poll_state \<Rightarrow> (int \<times> 'w poll_state) res" where
  "poll_round cfg env ls = (\<lambda>(timer, s).
     bindE (do_ppoll env s) (\<lambda>(no_events, errno, s).
     if no_events < 0 \<and> errno = EINTR then Inr (timer, s)
     else bindE (if errno \<noteq> EINTR then assert_nonn no_events ''poll'' else Inr ()) (\<lambda>_.
       let s = (if DO_BENCH cfg then s\<lparr>bench := sb_requests_performed (bench s) no_events\<rparr> else s)
       in service_events cfg env ls no_events (timer, s))))"

text \<open>At most \<open>n\<close> iterations; \<open>None\<close> when the loop has not ended by then.\<close>

fun poll_loop ::
    "nat \<Rightarrow> config \<Rightarrow> ('w, 'x) poll_env_scheme \<Rightarrow> int \<Rightarrow> int \<times> 'w poll_state
     \<Rightarrow> (int \<times> 'w poll_state) res option" where
  "poll_loop n cfg env ls ts =
     (if server_running (snd ts) = 0 then Some (Inr ts)
      else case n of 0 \<Rightarrow> None | Suc n \<Rightarrow>
        (case poll_round cfg env ls ts of
           Inl e \<Rightarrow> Some (Inl e)
         | Inr ts' \<Rightarrow> poll_loop n cfg env ls ts'))"

declare poll_loop.simps [simp del]

subsection \<open>Cleanup\<close>

fun cleanup_entries ::
    "('w, 'x) env_scheme \<Rightarrow> int \<Rightarrow> int \<Rightarrow> nat list \<Rightarrow> 'w poll_state \<Rightarrow> 'w poll_state res" where
  "cleanup_entries env ls timer_fd [] s = Inr s"
| "cleanup_entries env ls timer_fd (i # is) s =
     bindE (arr_get (pv_data (pollfdv s)) i) (\<lambda>ent.
     if pf_fd ent = ls then cleanup_entries env ls timer_fd is s
     else bindE (if timer_fd \<noteq> - 1 \<and> pf_fd ent = timer_fd
                 then close_timer env timer_fd s
                 else close_fd env (pf_fd ent) ''close client socket'' s) (\<lambda>s.
          bindE (arr_get (pv_pd (pollfdv s)) i) (\<lambda>pd.
          bindE (hfree pd (conns s)) (\<lambda>h.
          cleanup_entries env ls timer_fd is (s\<lparr>conns := h\<rparr>)))))"

definition do_client_connections_cleanup ::
    "('w, 'x) env_scheme \<Rightarrow> int \<Rightarrow> int \<Rightarrow> 'w poll_state \<Rightarrow> 'w poll_state res" where
  "do_client_connections_cleanup env ls timer_fd s =
     cleanup_entries env ls timer_fd [0..<unat (pv_size (pollfdv s))] s"

definition do_exit_cleanup ::
    "config \<Rightarrow> ('w, 'x) env_scheme \<Rightarrow> int \<Rightarrow> 'w poll_state \<Rightarrow> 'w poll_state res" where
  "do_exit_cleanup cfg env ls s =
     bindE (close_fd env ls ''close listening socket'' s) (\<lambda>s.
     let s = (if DO_BENCH cfg then s\<lparr>bench := sb_free (bench s)\<rparr> else s)
     in Inr (s\<lparr>pollfdv := pollfdv_free (pollfdv s)\<rparr>))"

subsection \<open>Start-up and main\<close>

text \<open>The masks: read the current one, build the one with SIGUSR1.\<close>

definition init_signal_masks :: "('w, 'x) env_scheme \<Rightarrow> 'w \<Rightarrow> 'w res" where
  "init_signal_masks env w =
     (case e_sigprocmask env False w of (rc, w) \<Rightarrow>
      bindE (assert_zero rc ''sigprocmask get orig_mask'') (\<lambda>_.
      case e_sigemptyset env w of (rc, w) \<Rightarrow>
      bindE (assert_zero rc ''sigemptyset'') (\<lambda>_.
      case e_sigaddset_usr1 env w of (rc, w) \<Rightarrow>
      bindE (assert_zero rc ''sigaddset'') (\<lambda>_. Inr w))))"

text \<open>\<open>service_loop\<close> up to its loop, and all of it.\<close>

definition service_loop_init ::
    "config \<Rightarrow> ('w, 'x) poll_env_scheme \<Rightarrow> int \<Rightarrow> int \<Rightarrow> 'w poll_state \<Rightarrow> (int \<times> 'w poll_state) res" where
  "service_loop_init cfg env warmup ls s =
     bindE (if DO_BENCH cfg then create_warmup_timer env warmup (world s)
            else Inr (- 1, world s)) (\<lambda>(timer_fd, w).
     bindE (init_signal_masks env w) (\<lambda>w.
     bindE (poll_add_fd env ls POLLIN None (s\<lparr>world := w\<rparr>)) (\<lambda>s.
     bindE (if DO_BENCH cfg then poll_add_fd env timer_fd POLLIN None s else Inr s) (\<lambda>s.
     case e_sigprocmask env True (world s) of (rc, w) \<Rightarrow>
     bindE (assert_zero rc ''sigprocmask'') (\<lambda>_. Inr (timer_fd, s\<lparr>world := w\<rparr>))))))"

definition service_loop_exit ::
    "config \<Rightarrow> ('w, 'x) poll_env_scheme \<Rightarrow> 'f option \<Rightarrow> int \<Rightarrow> int \<times> 'w poll_state
     \<Rightarrow> (string option \<times> 'w poll_state) res" where
  "service_loop_exit cfg env fopen ls = (\<lambda>(timer_fd, s).
     let s = with_bench cfg (sb_stop (e_clock env)) s
     in bindE (if DO_BENCH cfg then sb_save_bench fopen (bench s) else Inr None) (\<lambda>file.
        bindE (do_client_connections_cleanup env ls timer_fd s) (\<lambda>s. Inr (file, s))))"

definition service_loop ::
    "nat \<Rightarrow> config \<Rightarrow> ('w, 'x) poll_env_scheme \<Rightarrow> 'f option \<Rightarrow> int \<Rightarrow> int \<Rightarrow> 'w poll_state
     \<Rightarrow> (string option \<times> 'w poll_state) res option" where
  "service_loop n cfg env fopen warmup ls s =
     (case service_loop_init cfg env warmup ls s of
        Inl e \<Rightarrow> Some (Inl e)
      | Inr ts \<Rightarrow> (case poll_loop n cfg env ls ts of
          None \<Rightarrow> None
        | Some (Inl e) \<Rightarrow> Some (Inl e)
        | Some (Inr ts) \<Rightarrow> Some (service_loop_exit cfg env fopen ls ts)))"

text \<open>
  The state \<open>main\<close> hands to \<open>service_loop\<close>, with the listening socket: the
  benchmark created when compiled in, the vector, the handler, the socket.
\<close>

definition poll_setup ::
    "config \<Rightarrow> ('w, 'x) poll_env_scheme \<Rightarrow> (nat \<Rightarrow> byte list option) \<Rightarrow> 16 word \<Rightarrow> 'w
     \<Rightarrow> (int \<times> 'w poll_state) res" where
  "poll_setup cfg env malloc port w =
     bindE (if DO_BENCH cfg then sb_create malloc BENCH_EXPECTED_MESSAGES
            else Inr \<lparr>do_measure = 0, client_no = 0, request_no = 0, meas_start_time = zero_ts,
              meas_end_time = zero_ts, event_latency = \<lparr>mc_entry_size = 0, mc_capacity = 0,
              mc_size = 0, mc_ptr = None\<rparr>\<rparr>) (\<lambda>b.
     bindE (pollfdv_create env w) (\<lambda>(v, w).
     bindE (register_signal_handler env w) (\<lambda>w.
     bindE (create_ipv4_listening_socket env port w) (\<lambda>(ls, w).
     Inr (ls, \<lparr>pollfdv = v, bench = b, conns = empty_heap, server_running = 1, world = w\<rparr>)))))"

definition poll_main ::
    "nat \<Rightarrow> config \<Rightarrow> ('w, 'x) poll_env_scheme \<Rightarrow> (nat \<Rightarrow> byte list option) \<Rightarrow> 'f option \<Rightarrow> 16 word
     \<Rightarrow> int \<Rightarrow> 'w \<Rightarrow> (string option \<times> 'w poll_state) res option" where
  "poll_main n cfg env malloc fopen port warmup w =
     (case poll_setup cfg env malloc port w of
        Inl e \<Rightarrow> Some (Inl e)
      | Inr (ls, s) \<Rightarrow> (case service_loop n cfg env fopen warmup ls s of
          None \<Rightarrow> None
        | Some r \<Rightarrow> Some (bindE r (\<lambda>(file, s).
            bindE (do_exit_cleanup cfg env ls s) (\<lambda>s. Inr (file, s))))))"

end
