(* ===== verification/PollInvariant.thy ===== *)
theory PollInvariant
  imports PollServer
begin

text \<open>
  The invariant of the poll server between the steps of its loops: how the entries of the
  vector, the connection objects on the heap and the open descriptors agree. An entry with
  descriptor -1 (a connection that \<open>accept_client\<close> reported as absent) is allowed: it
  owns a connection object and no descriptor.
\<close>

definition special_fd :: "int \<Rightarrow> int \<Rightarrow> int \<Rightarrow> bool" where
  "special_fd ls timer f \<longleftrightarrow> f = ls \<or> (timer \<noteq> - 1 \<and> f = timer)"

definition own_con :: "nat \<Rightarrow> pd_echo_connection heap \<Rightarrow> ptr \<Rightarrow> bool" where
  "own_con n h p \<longleftrightarrow> (\<exists>a con. p = Some a \<and> cells h a = Some con \<and> length (con_buf con) = n)"

definition pair_ok :: "nat \<Rightarrow> int set \<Rightarrow> int \<Rightarrow> int \<Rightarrow> pd_echo_connection heap \<Rightarrow> int \<times> ptr \<Rightarrow> bool" where
  "pair_ok n opn ls timer h = (\<lambda>(f, p).
     (if special_fd ls timer f then p = None else own_con n h p)
     \<and> (f = - 1 \<or> (0 \<le> f \<and> f \<in> opn)))"

definition conn_inv :: "nat \<Rightarrow> int set \<Rightarrow> int \<Rightarrow> int \<Rightarrow> pd_echo_connection heap \<Rightarrow> (int \<times> ptr) list \<Rightarrow> bool" where
  "conn_inv n opn ls timer h fps \<longleftrightarrow>
     heap_ok h \<and> 0 \<le> ls \<and> ls \<in> fst ` set fps
     \<and> (timer \<noteq> - 1 \<longrightarrow> 0 \<le> timer \<and> timer \<noteq> ls \<and> timer \<in> fst ` set fps)
     \<and> (\<forall>x \<in> set fps. pair_ok n opn ls timer h x)
     \<and> distinct (filter (\<lambda>f. f \<noteq> - 1) (map fst fps))
     \<and> distinct (filter (\<lambda>p. p \<noteq> None) (map snd fps))
     \<and> (\<forall>a. cells h a \<noteq> None \<longrightarrow> Some a \<in> snd ` set fps)"

lemma conn_invD:
  assumes "conn_inv n opn ls timer h fps"
  shows "heap_ok h" "0 \<le> ls" "ls \<in> fst ` set fps"
    "timer \<noteq> - 1 \<Longrightarrow> 0 \<le> timer \<and> timer \<noteq> ls \<and> timer \<in> fst ` set fps"
    "x \<in> set fps \<Longrightarrow> pair_ok n opn ls timer h x"
    "distinct (filter (\<lambda>f. f \<noteq> - 1) (map fst fps))"
    "distinct (filter (\<lambda>p. p \<noteq> None) (map snd fps))"
    "cells h a \<noteq> None \<Longrightarrow> Some a \<in> snd ` set fps"
  using assms by (simp_all add: conn_inv_def)

lemma conn_inv_open: "conn_inv n opn ls timer h fps \<Longrightarrow> f \<in> fst ` set fps \<Longrightarrow> f \<noteq> - 1 \<Longrightarrow> f \<in> opn"
  by (auto simp: conn_inv_def pair_ok_def)

text \<open>A new connection, with a fresh descriptor or with -1.\<close>

lemma conn_inv_append:
  assumes inv: "conn_inv n opn ls timer h fps"
    and c: "(c = - 1 \<and> opn' = opn) \<or> (0 \<le> c \<and> c \<notin> opn \<and> opn' = insert c opn)"
    and len: "length (con_buf con) = n"
  shows "conn_inv n opn' ls timer (snd (halloc con h)) (fps @ [(c, Some (fst (halloc con h)))])"
proof -
  let ?h = "snd (halloc con h)" and ?a = "next_addr h"
  note D = conn_invD [OF inv]
  have fresh: "cells h ?a = None" using D(1) by (rule heap_ok_fresh)
  have cells: "cells ?h = (cells h)(?a := Some con)" "fst (halloc con h) = ?a"
    by (simp_all add: halloc_def)
  have cn: "c \<notin> fst ` set fps \<or> c = - 1" using c conn_inv_open [OF inv] by auto
  have nsp: "\<not> special_fd ls timer c"
    using cn D(2,3,4) by (auto simp: special_fd_def)
  have own: "own_con n h p \<Longrightarrow> own_con n ?h p \<and> p \<noteq> Some ?a" for p
    using fresh by (auto simp: own_con_def cells)
  have old: "pair_ok n opn' ls timer ?h x" if "x \<in> set fps" for x
    using D(5) [OF that] own c by (auto simp: pair_ok_def split: if_splits)
  have new: "pair_ok n opn' ls timer ?h (c, Some ?a)"
    using c nsp len by (auto simp: pair_ok_def own_con_def cells)
  have pnew: "Some ?a \<notin> snd ` set fps"
  proof
    assume "Some ?a \<in> snd ` set fps"
    then obtain f where "(f, Some ?a) \<in> set fps" by auto
    from D(5) [OF this] own show False by (auto simp: pair_ok_def split: if_splits)
  qed
  have df: "distinct (filter (\<lambda>f. f \<noteq> - 1) (map fst (fps @ [(c, Some ?a)])))"
    using D(6) cn by (cases "c = - 1") simp_all
  have dp: "distinct (filter (\<lambda>p. p \<noteq> None) (map snd (fps @ [(c, Some ?a)])))"
    using D(7) pnew by simp
  have cov: "Some a \<in> snd ` set (fps @ [(c, Some ?a)])" if "cells ?h a \<noteq> None" for a
  proof (cases "a = ?a")
    case True
    then show ?thesis by simp
  next
    case False
    then have "cells h a \<noteq> None" using that by (simp add: cells(1))
    from D(8) [OF this] show ?thesis by (simp add: image_Un)
  qed
  have mono: "fst ` set fps \<subseteq> fst ` set (fps @ [(c, Some ?a)])" by auto
  have all: "\<forall>x \<in> set (fps @ [(c, Some ?a)]). pair_ok n opn' ls timer ?h x"
    using old new by simp
  show ?thesis
    unfolding conn_inv_def cells(2)
    using D(2-4) heap_ok_halloc [OF D(1), of con] df dp cov mono all by blast
qed

text \<open>Removing the pair at an index.\<close>

lemma conn_inv_remove:
  assumes inv: "conn_inv n opn ls timer h fps" and i: "i < length fps"
    and e: "fps ! i = (f, p)" and f: "f \<noteq> - 1" "f \<noteq> ls"
    and t': "timer' = (if f = timer then - 1 else timer)"
    and h': "cells h' = (case p of None \<Rightarrow> cells h | Some a \<Rightarrow> (cells h)(a := None))" "next_addr h' = next_addr h"
  shows "conn_inv n (opn - {f}) ls timer' h' (swap_remove i fps)"
proof -
  note D = conn_invD [OF inv]
  note S = set_swap_remove_insert [OF i, unfolded e]
  have fo: "f \<notin> fst ` set (swap_remove i fps)"
    using distinct_filter_swap_remove(2) [OF i D(6)] f e by simp
  have po: "p \<noteq> None \<Longrightarrow> p \<notin> snd ` set (swap_remove i fps)"
    using distinct_filter_swap_remove(2) [OF i D(7)] e by simp
  have ok: "heap_ok h'"
    using D(1) h' by (auto simp: heap_ok_def split: option.splits)
  have pok: "pair_ok n (opn - {f}) ls timer' h' x" if x: "x \<in> set (swap_remove i fps)" for x
  proof -
    obtain g q where x': "x = (g, q)" by (cases x)
    have "pair_ok n opn ls timer h (g, q)" using D(5) [of x] x S x' by auto
    moreover have "g \<noteq> f" "q = p \<Longrightarrow> p = None" using fo po x x' by force+
    ultimately show ?thesis
      unfolding x' pair_ok_def special_fd_def own_con_def t' h'
      by (auto split: if_splits option.splits)
  qed
  have ls: "ls \<in> fst ` set (swap_remove i fps)" using D(3) S f by auto
  have tm: "timer' \<noteq> - 1 \<Longrightarrow> 0 \<le> timer' \<and> timer' \<noteq> ls \<and> timer' \<in> fst ` set (swap_remove i fps)"
    using D(4) S f t' by (auto split: if_splits)
  have cov: "Some a \<in> snd ` set (swap_remove i fps)" if "cells h' a \<noteq> None" for a
  proof -
    have "cells h a \<noteq> None" "p \<noteq> Some a" using that h' by (auto split: option.splits if_splits)
    with D(8) [of a] S show ?thesis by auto
  qed
  show ?thesis
    unfolding conn_inv_def
    using ok D(2) ls tm pok cov distinct_filter_swap_remove(1) [OF i D(6)]
      distinct_filter_swap_remove(1) [OF i D(7)]
    by blast
qed

text \<open>Writing a buffer of the same length into a connection object.\<close>

lemma conn_inv_update:
  assumes inv: "conn_inv n opn ls timer h fps" and c: "cells h a = Some con"
    and len: "length (con_buf con') = length (con_buf con)"
  shows "conn_inv n opn ls timer (h\<lparr>cells := (cells h)(a := Some con')\<rparr>) fps"
proof -
  note D = conn_invD [OF inv]
  have "own_con n h p \<Longrightarrow> own_con n (h\<lparr>cells := (cells h)(a := Some con')\<rparr>) p" for p
    using c len by (auto simp: own_con_def)
  then have "pair_ok n opn ls timer (h\<lparr>cells := (cells h)(a := Some con')\<rparr>) x" if "x \<in> set fps" for x
    using D(5) [OF that] by (auto simp: pair_ok_def split: if_splits)
  moreover have "heap_ok (h\<lparr>cells := (cells h)(a := Some con')\<rparr>)"
    using D(1) c by (intro heap_ok_upd) auto
  ultimately show ?thesis
    using D(2-4,6-8) c unfolding conn_inv_def by (auto split: if_splits)
qed

subsection \<open>The invariant of the server state\<close>

definition fd_ptrs :: "'w poll_state \<Rightarrow> (int \<times> ptr) list" where
  "fd_ptrs s = map (\<lambda>(d, p). (pf_fd d, p)) (pv_entries (pollfdv s))"

definition poll_inv :: "config \<Rightarrow> 'w kview \<Rightarrow> int \<Rightarrow> int \<Rightarrow> 'w poll_state \<Rightarrow> bool" where
  "poll_inv cfg v ls timer s \<longleftrightarrow> pv_inv (pollfdv s)
     \<and> conn_inv (DEFAULT_SERVER_BUFFER_SIZE cfg) (kv_open v (world s)) ls timer (conns s) (fd_ptrs s)
     \<and> (DO_BENCH cfg \<longrightarrow> bench_inv (bench s))"

text \<open>What no step takes back: bytes read are echoed, and no descriptor is left open that no entry
  holds (a negative number is held by none).\<close>

definition loose :: "'w kview \<Rightarrow> 'w poll_state \<Rightarrow> int set" where
  "loose v s = {f \<in> kv_open v (world s). f < 0 \<or> f \<notin> fst ` set (fd_ptrs s)}"

definition keeps :: "'w kview \<Rightarrow> 'w poll_state \<Rightarrow> 'w poll_state \<Rightarrow> bool" where
  "keeps v s s' \<longleftrightarrow> (echoed v (world s) \<longrightarrow> echoed v (world s')) \<and> loose v s' \<subseteq> loose v s"

lemma loose_cong [simp]:
  "pollfdv s' = pollfdv s \<Longrightarrow> kv_open v (world s') \<subseteq> kv_open v (world s) \<Longrightarrow> loose v s' \<subseteq> loose v s"
  by (auto simp: loose_def fd_ptrs_def)

lemma keeps_refl [simp]: "keeps v s s"
  by (simp add: keeps_def)

lemma keeps_same: "same_view v (world s) (world s') \<Longrightarrow> pollfdv s' = pollfdv s \<Longrightarrow> keeps v s s'"
  by (simp add: keeps_def same_view_def echoed_def)

lemma keeps_trans: "keeps v s s' \<Longrightarrow> keeps v s' s'' \<Longrightarrow> keeps v s s''"
  by (auto simp: keeps_def)

lemma poll_invD:
  assumes "poll_inv cfg v ls timer s"
  shows "pv_inv (pollfdv s)" "DO_BENCH cfg \<Longrightarrow> bench_inv (bench s)"
    "conn_inv (DEFAULT_SERVER_BUFFER_SIZE cfg) (kv_open v (world s)) ls timer (conns s) (fd_ptrs s)"
  using assms by (simp_all add: poll_inv_def)

lemma length_fd_ptrs: "pv_inv (pollfdv s) \<Longrightarrow> length (fd_ptrs s) = unat (pv_size (pollfdv s))"
  by (simp add: fd_ptrs_def)

lemma nth_fd_ptrs:
  assumes "pv_inv (pollfdv s)" "i < pv_size (pollfdv s)"
  shows "fd_ptrs s ! unat i = (pf_fd (pv_data (pollfdv s) ! unat i), pv_pd (pollfdv s) ! unat i)"
  using assms by (simp add: fd_ptrs_def nth_pv_entries word_less_nat_alt)

lemma in_block:
  assumes "pv_inv v" "i < pv_size v"
  shows "unat i < length (pv_data v)" "unat i < length (pv_pd v)"
  using assms by (auto simp: pv_inv_def word_less_nat_alt)

lemma fd_ptrs_removed:
  assumes "pv_inv (pollfdv s)" "i < pv_size (pollfdv s)"
    and "pollfdv s' = removed_vec i (pollfdv s)"
  shows "fd_ptrs s' = swap_remove (unat i) (fd_ptrs s)" "pv_inv (pollfdv s')"
proof -
  have "pv_entries (pollfdv s) \<noteq> []"
    using length_pv_entries [OF assms(1)] assms(2) by (auto simp: word_less_nat_alt)
  then show "fd_ptrs s' = swap_remove (unat i) (fd_ptrs s)" "pv_inv (pollfdv s')"
    using removed_inv [OF assms(1,2) assms(3)] by (simp_all add: fd_ptrs_def swap_remove_map)
qed

lemma loose_removed:
  assumes "pv_inv (pollfdv s)" "i < pv_size (pollfdv s)" "f = pf_fd (pv_data (pollfdv s) ! unat i)"
    and "pollfdv s' = removed_vec i (pollfdv s)" "kv_open v (world s') \<subseteq> kv_open v (world s) - {f}"
  shows "loose v s' \<subseteq> loose v s"
proof -
  have "unat i < length (fd_ptrs s)" using assms(1,2) by (simp add: length_fd_ptrs word_less_nat_alt)
  then have "set (fd_ptrs s) \<subseteq> insert (f, pv_pd (pollfdv s) ! unat i) (set (fd_ptrs s'))"
    using nth_fd_ptrs [OF assms(1,2)] assms(3) unfolding fd_ptrs_removed(1) [OF assms(1,2,4)]
    by (metis set_swap_remove_sub)
  then show ?thesis using assms(5) by (force simp: loose_def)
qed

lemma loose_appended:
  assumes "fd_ptrs s' = fd_ptrs s @ [(c, p)]"
    and "kv_open v (world s') \<subseteq> (if 0 \<le> c then insert c (kv_open v (world s)) else kv_open v (world s))"
  shows "loose v s' \<subseteq> loose v s"
  using assms by (auto simp: loose_def split: if_splits)

lemma close_fd_safe:
  assumes "close_spec env v"
  shows "safeE (\<lambda>s'. \<exists>w. s' = s\<lparr>world := w\<rparr> \<and> f \<in> kv_open v (world s)
     \<and> kv_open v w = kv_open v (world s) - {f} \<and> keeps v s s') (close_fd env f m s)"
proof -
  obtain rc w where c: "e_close env f (world s) = (rc, w)" by force
  show ?thesis
    using assms [unfolded close_spec_def, rule_format, OF c] c
    by (auto simp: close_fd_def keeps_def echoed_def)
qed

text \<open>Closing the client at an index.\<close>

lemma close_client_safe:
  assumes K: "close_spec env v" and inv: "poll_inv cfg v ls timer s"
    and i: "i < pv_size (pollfdv s)" and f: "f = pf_fd (pv_data (pollfdv s) ! unat i)"
    and nf: "f \<noteq> - 1" "\<not> special_fd ls timer f"
  shows "safeE (\<lambda>s'. poll_inv cfg v ls timer s' \<and> pollfdv s' = removed_vec i (pollfdv s)
     \<and> server_running s' = server_running s \<and> bench s' = bench s \<and> keeps v s s')
     (close_client env i s)"
proof -
  note V = poll_invD(1) [OF inv] and C = poll_invD(3) [OF inv]
  have len: "unat i < length (fd_ptrs s)" using i V by (simp add: length_fd_ptrs word_less_nat_alt)
  let ?p = "pv_pd (pollfdv s) ! unat i"
  have e: "fd_ptrs s ! unat i = (f, ?p)" using nth_fd_ptrs [OF V i] f by simp
  have "pair_ok (DEFAULT_SERVER_BUFFER_SIZE cfg) (kv_open v (world s)) ls timer (conns s) (f, ?p)"
    using conn_invD(5) [OF C] nth_mem [OF len] e by metis
  then obtain a con where p: "?p = Some a" "cells (conns s) a = Some con"
    using nf by (auto simp: pair_ok_def own_con_def)
  let ?h = "(conns s)\<lparr>cells := (cells (conns s))(a := None)\<rparr>"
  have rem: "pollfdv_remove_index i (pollfdv s) = Inr (removed_vec i (pollfdv s))"
    using remove_eq [OF V i] f nf by simp
  have tm: "(if f = timer then - 1 else timer) = timer" using nf by (auto simp: special_fd_def)
  have CI: "conn_inv (DEFAULT_SERVER_BUFFER_SIZE cfg) (kv_open v (world s) - {f}) ls timer ?h
      (swap_remove (unat i) (fd_ptrs s))"
    using nf p by (intro conn_inv_remove [OF C len e]) (auto simp: special_fd_def)
  have lo: "loose v (s\<lparr>world := w, conns := ?h, pollfdv := removed_vec i (pollfdv s)\<rparr>) \<subseteq> loose v s"
    if "kv_open v w = kv_open v (world s) - {f}" for w
    by (rule loose_removed [OF V i f]) (simp_all add: that)
  have fin: "poll_inv cfg v ls timer (s\<lparr>world := w, conns := ?h, pollfdv := removed_vec i (pollfdv s)\<rparr>)"
    if "kv_open v w = kv_open v (world s) - {f}" for w
    using CI that poll_invD(2) [OF inv] fd_ptrs_removed [OF V i,
        of "s\<lparr>world := w, conns := ?h, pollfdv := removed_vec i (pollfdv s)\<rparr>"]
    by (simp add: poll_inv_def)
  have "close_client env i s = bindE (close_fd env f ''close'' s) (\<lambda>s.
     bindE (arr_get (pv_pd (pollfdv s)) (unat i)) (\<lambda>pd.
     bindE (hfree pd (conns s)) (\<lambda>h.
     bindE (pollfdv_remove_index i (pollfdv s)) (\<lambda>v.
     Inr (s\<lparr>conns := h, pollfdv := v\<rparr>)))))"
    using in_block [OF V i] f by (simp add: close_client_def)
  note eq = this
  show ?thesis
    unfolding eq safeE_bindE
    by (rule safeE_mono [OF close_fd_safe [OF K]], elim exE conjE)
      (simp add: fin lo in_block [OF V i] p rem keeps_def)
qed

text \<open>Accepting a client when the vector has room.\<close>

lemma new_client_safe:
  assumes K: "kernel_spec env v" and inv: "poll_inv cfg v ls timer s"
    and room: "pv_size (pollfdv s) < pv_capacity (pollfdv s)"
    and cl: "DO_BENCH cfg \<longrightarrow> client_no (bench s) + 1 < 2 ^ 31"
  shows "safeE (\<lambda>s'. poll_inv cfg v ls timer s' \<and> server_running s' = server_running s
     \<and> (\<exists>d p. pf_revents d = 0 \<and> pollfdv s' = appended_vec d p (pollfdv s)) \<and> keeps v s s'
     \<and> client_no (bench s') \<le> client_no (bench s) + 1)
     (poll_handle_new_client cfg env ls s)" (is "safeE ?P _")
proof -
  let ?n = "DEFAULT_SERVER_BUFFER_SIZE cfg"
  note V = poll_invD(1) [OF inv] and C = poll_invD(3) [OF inv]
  have step: "safeE ?P (case e_malloc env (sizeof_con cfg) w of (mem, w) \<Rightarrow>
     bindE (assert_nnull mem ''malloc'') (\<lambda>mem.
     let fresh = \<lparr>con_buf_size = 0, con_buf = map (\<lambda>i. mem (4 + i)) [0..<?n]\<rparr>
     in case halloc fresh (conns s) of (con, h) \<Rightarrow>
     bindE (poll_add_fd env c POLLIN (Some con) (s\<lparr>conns := h, world := w\<rparr>)) (\<lambda>s.
     if DO_BENCH cfg
     then bindE (sb_client_connected (bench s)) (\<lambda>b. Inr (s\<lparr>bench := b\<rparr>))
     else Inr s)))"
    if A: "(c = - 1 \<and> same_view v (world s) w)
     \<or> (0 \<le> c \<and> c \<notin> kv_open v (world s) \<and> kv_open v w = insert c (kv_open v (world s))
        \<and> kv_in v w = (kv_in v (world s))(c := []) \<and> kv_out v w = (kv_out v (world s))(c := []))" for c w
  proof -
    obtain m w2 where m: "e_malloc env (sizeof_con cfg) w = (m, w2)" by force
    have w2: "same_view v w w2"
      using kernel_specD(5) [OF K] m unfolding quiet_spec_def by (metis snd_conv)
    have op: "(c = - 1 \<and> kv_open v w2 = kv_open v (world s))
        \<or> (0 \<le> c \<and> c \<notin> kv_open v (world s) \<and> kv_open v w2 = insert c (kv_open v (world s)))"
      using A w2 by (auto simp: same_view_def)
    have ec: "echoed v (world s) \<Longrightarrow> echoed v w2"
      using A w2 by (auto simp: same_view_def echoed_def)
    show ?thesis
    proof (cases m)
      case None
      then show ?thesis using m by simp
    next
      case (Some mem)
      define con where "con = \<lparr>con_buf_size = 0, con_buf = map (\<lambda>i. mem (4 + i)) [0..<?n]\<rparr>"
      define d where "d = \<lparr>pf_fd = c, pf_events = POLLIN, pf_revents = 0\<rparr>"
      obtain a h where ah: "halloc con (conns s) = (a, h)" by force
      have CI: "conn_inv ?n (kv_open v w2) ls timer h (fd_ptrs s @ [(c, Some a)])"
        using conn_inv_append [OF C op, of con] ah by (simp add: con_def)
      have AP: "pv_inv (appended_vec d (Some a) (pollfdv s))"
          "pv_entries (appended_vec d (Some a) (pollfdv s)) = pv_entries (pollfdv s) @ [(d, Some a)]"
        using appended_inv [OF V room refl] by simp_all
      have add: "poll_add_fd env c POLLIN (Some a) (s\<lparr>conns := h, world := w2\<rparr>)
          = Inr (s\<lparr>conns := h, world := w2, pollfdv := appended_vec d (Some a) (pollfdv s)\<rparr>)"
        by (simp add: poll_add_fd_def d_def add_room_eq [OF V room])
      have P: "?P (s\<lparr>conns := h, world := w2, pollfdv := appended_vec d (Some a) (pollfdv s), bench := b\<rparr>)"
        if "DO_BENCH cfg \<longrightarrow> bench_inv b" "client_no b \<le> client_no (bench s) + 1" for b
      proof -
        let ?s = "s\<lparr>conns := h, world := w2, pollfdv := appended_vec d (Some a) (pollfdv s), bench := b\<rparr>"
        have d: "pf_revents d = 0" "pf_fd d = c" by (simp_all add: d_def)
        then have "fd_ptrs ?s = fd_ptrs s @ [(c, Some a)]" using AP by (simp add: fd_ptrs_def)
        then have "loose v ?s \<subseteq> loose v s" by (rule loose_appended) (use op in auto)
        then show ?thesis
          using d that CI AP ec by (auto simp: poll_inv_def fd_ptrs_def keeps_def)
      qed
      show ?thesis
      proof (cases "DO_BENCH cfg")
        case False
        then show ?thesis
          using P [of "bench s"] by (simp add: m Some con_def [symmetric] ah add Let_def)
      next
        case True
        have b: "bench_inv (bench s)" using poll_invD(2) [OF inv True] .
        then have "sb_client_connected (bench s) = Inr ((bench s)\<lparr>client_no := client_no (bench s) + 1\<rparr>)"
          using cl True by (simp add: sb_client_connected_def bench_inv_def)
        moreover have "bench_inv ((bench s)\<lparr>client_no := client_no (bench s) + 1\<rparr>)"
          using b cl True by (simp add: bench_inv_def)
        ultimately show ?thesis
          using P True by (simp add: m Some con_def [symmetric] ah add Let_def)
      qed
    qed
  qed
  show ?thesis
    unfolding poll_handle_new_client_def safeE_bindE
    by (rule safeE_mono [OF accept_client_safe [OF kernel_specD(3) [OF K]]])
      (use step in \<open>auto simp only: prod.case split_paired_all\<close>)
qed

text \<open>Steps that touch neither the entries nor the open descriptors.\<close>

lemma poll_inv_world:
  "poll_inv cfg v ls timer s \<Longrightarrow> kv_open v w = kv_open v (world s) \<Longrightarrow>
     poll_inv cfg v ls timer (s\<lparr>world := w\<rparr>)"
  by (simp add: poll_inv_def fd_ptrs_def)

lemma poll_inv_bench:
  "poll_inv cfg v ls timer s \<Longrightarrow> (DO_BENCH cfg \<longrightarrow> bench_inv b) \<Longrightarrow>
     poll_inv cfg v ls timer (s\<lparr>bench := b\<rparr>)"
  by (simp add: poll_inv_def fd_ptrs_def)

lemma latency_clock_view:
  assumes "quiet_spec env v" "latency_clock cfg env s = (t, s')"
  shows "\<exists>w. s' = s\<lparr>world := w\<rparr> \<and> same_view v (world s) w \<and> (latency_on cfg \<longrightarrow> clock_ts t)"
proof (cases "latency_on cfg")
  case False
  then have "s' = s" using assms(2) by (simp add: latency_clock_def)
  then show ?thesis using False by (intro exI [of _ "world s"]) simp
next
  case True
  then have "s' = s\<lparr>world := snd (e_clock env (world s))\<rparr>" "t = fst (e_clock env (world s))"
    using assms(2) by (auto simp: latency_clock_def split: prod.splits)
  then show ?thesis
    using assms(1) by (intro exI [of _ "snd (e_clock env (world s))"]) (simp add: quiet_spec_def)
qed

definition event_post ::
    "config \<Rightarrow> 'w kview \<Rightarrow> int \<Rightarrow> int \<Rightarrow> 32 word \<Rightarrow> 'w poll_state \<Rightarrow> int \<times> 'w poll_state \<Rightarrow> bool" where
  "event_post cfg v ls timer i s = (\<lambda>(r, s'). poll_inv cfg v ls timer s'
     \<and> server_running s' = server_running s \<and> keeps v s s'
     \<and> client_no (bench s') = client_no (bench s)
     \<and> pollfdv s' = (if r \<noteq> 0 then removed_vec i (pollfdv s) else pollfdv s))"

lemma after_echo:
  assumes K: "close_spec env v" and inv: "poll_inv cfg v ls timer s'"
    and same: "pollfdv s' = pollfdv s" "server_running s' = server_running s" "keeps v s s'"
      "client_no (bench s') = client_no (bench s)"
    and i: "i < pv_size (pollfdv s)" and f: "f = pf_fd (pv_data (pollfdv s) ! unat i)"
    and nf: "f \<noteq> - 1" "\<not> special_fd ls timer f"
  shows "safeE (event_post cfg v ls timer i s)
     (if r = 0 then bindE (close_client env i s') (\<lambda>s. Inr (1, s)) else Inr (0, s'))"
proof (cases "r = 0")
  case False
  then show ?thesis using assms by (simp add: event_post_def)
next
  case True
  have "safeE (\<lambda>t. event_post cfg v ls timer i s (1, t)) (close_client env i s')"
    by (rule safeE_mono [OF close_client_safe [OF K inv, of i f]])
      (use same i f nf keeps_trans [OF same(3)] in \<open>simp_all add: event_post_def\<close>)
  then show ?thesis using True by simp
qed

lemma client_event_safe:
  assumes K: "kernel_spec env v" and inv: "poll_inv cfg v ls timer s"
    and i: "i < pv_size (pollfdv s)" and f: "f = pf_fd (pv_data (pollfdv s) ! unat i)"
    and nf: "f \<noteq> - 1" "\<not> special_fd ls timer f"
  shows "safeE (event_post cfg v ls timer i s) (handle_client_event cfg env i s)"
proof -
  let ?n = "DEFAULT_SERVER_BUFFER_SIZE cfg" and ?ent = "pv_data (pollfdv s) ! unat i"
  let ?p = "pv_pd (pollfdv s) ! unat i"
  note V = poll_invD(1) [OF inv] and C = poll_invD(3) [OF inv] and Ks = kernel_specD [OF K]
  have len: "unat i < length (fd_ptrs s)" using i V by (simp add: length_fd_ptrs word_less_nat_alt)
  have "pair_ok ?n (kv_open v (world s)) ls timer (conns s) (f, ?p)"
    using conn_invD(5) [OF C] nth_mem [OF len] nth_fd_ptrs [OF V i] f by metis
  then obtain a con where p: "?p = Some a" "cells (conns s) a = Some con" "length (con_buf con) = ?n"
    using nf by (auto simp: pair_ok_def own_con_def)
  obtain start s1 where s1: "latency_clock cfg env s = (start, s1)" by force
  then obtain w1 where w1: "s1 = s\<lparr>world := w1\<rparr>" "same_view v (world s) w1"
      "latency_on cfg \<Longrightarrow> clock_ts start"
    using latency_clock_view [OF Ks(5) s1] by blast
  define tail where "tail = (\<lambda>(read_bytes :: int, buf, w).
       bindE (hset (Some a) (con\<lparr>con_buf := buf\<rparr>) (conns s1)) (\<lambda>h.
       case latency_clock cfg env (s1\<lparr>conns := h, world := w\<rparr>) of (end', s) \<Rightarrow>
       bindE (if latency_on cfg
              then bindE (sb_record_event (e_clock env) start end' (bench s, world s)) (\<lambda>(b, w).
                   Inr (s\<lparr>bench := b, world := w\<rparr>))
              else Inr s) (\<lambda>s.
       if read_bytes = 0
       then bindE (close_client env i s) (\<lambda>s. Inr (1 :: int, s))
       else Inr (0, s))))"
  have tail: "safeE (event_post cfg v ls timer i s) (tail (r, buf, w2))"
    if buf: "length buf = length (con_buf con)" and op: "kv_open v w2 = kv_open v w1"
      and ec: "echoed v w1 \<Longrightarrow> echoed v w2" for r :: int and buf w2
  proof -
    let ?h = "(conns s)\<lparr>cells := (cells (conns s))(a := Some (con\<lparr>con_buf := buf\<rparr>))\<rparr>"
    let ?s2 = "s\<lparr>conns := ?h, world := w2\<rparr>"
    have I2: "poll_inv cfg v ls timer ?s2"
      using conn_inv_update [OF C p(2), of "con\<lparr>con_buf := buf\<rparr>"] buf op w1(2) V poll_invD(2) [OF inv]
      by (simp add: poll_inv_def fd_ptrs_def same_view_def)
    have E2: "keeps v s ?s2"
      using ec op w1(2) by (simp add: keeps_def same_view_def echoed_def)
    obtain en s3 where s3: "latency_clock cfg env ?s2 = (en, s3)" by force
    obtain w3 where w3: "s3 = ?s2\<lparr>world := w3\<rparr>" "same_view v w2 w3" "latency_on cfg \<Longrightarrow> clock_ts en"
      using latency_clock_view [OF Ks(5) s3] by auto
    have I3: "poll_inv cfg v ls timer s3"
      unfolding w3(1) using w3(2) by (intro poll_inv_world [OF I2]) (simp add: same_view_def)
    have E3: "keeps v s s3"
      by (rule keeps_trans [OF E2 keeps_same]) (use w3(2) in \<open>simp_all add: w3(1)\<close>)
    have S3: "pollfdv s3 = pollfdv s" "server_running s3 = server_running s"
        "client_no (bench s3) = client_no (bench s)" by (simp_all add: w3(1))
    show ?thesis
    proof (cases "latency_on cfg")
      case False
      then show ?thesis
        using after_echo [OF Ks(4) I3 S3(1,2) E3 S3(3) i f nf] s3 w1(1) p(2) by (simp add: tail_def)
    next
      case True
      then have "DO_BENCH cfg" by (simp add: latency_on_def)
      then obtain b w4 where b: "sb_record_event (e_clock env) start en (bench s3, world s3) = Inr (b, w4)"
          "bench_inv b" "client_no b = client_no (bench s3)" "w4 = world s3 \<or> w4 = snd (e_clock env (world s3))"
        using record_event_safe [OF poll_invD(2) [OF I3] w1(3) w3(3), of "e_clock env" "world s3"] True
        by blast
      have w4: "same_view v (world s3) w4"
        using b(4) Ks(5) by (auto simp: quiet_spec_def)
      have I4: "poll_inv cfg v ls timer (s3\<lparr>bench := b, world := w4\<rparr>)"
        using poll_inv_world [OF poll_inv_bench [OF I3], of b w4] b(2) w4 by (simp add: same_view_def)
      have E4: "keeps v s (s3\<lparr>bench := b, world := w4\<rparr>)"
        by (rule keeps_trans [OF E3 keeps_same]) (use w4 in simp_all)
      show ?thesis
        using after_echo [OF Ks(4) I4 _ _ E4 _ i f nf] S3 True s3 w1(1) p(2) b(1,3) by (simp add: tail_def)
    qed
  qed
  have echo: "safeE (event_post cfg v ls timer i s)
      (bindE (read_n_echo env cfg f (con_buf con) ?n w1) tail)"
    unfolding safeE_bindE
    by (rule safeE_mono [OF read_n_echo_safe [OF Ks(1,2)]])
      (use p(3) in \<open>auto intro!: tail simp: echoed_def\<close>)
  have close: "safeE (event_post cfg v ls timer i s) (bindE (close_client env i s) (\<lambda>s. Inr (1, s)))"
    using after_echo [OF Ks(4) inv refl refl keeps_refl refl i f nf, of 0] by simp
  have none: "event_post cfg v ls timer i s (0, s)" using inv by (simp add: event_post_def)
  show ?thesis
    unfolding handle_client_event_def
    using in_block [OF V i] f close echo none s1 p w1(1) by (simp add: tail_def)
qed

subsection \<open>One entry with an event\<close>

definition cleared_vec :: "32 word \<Rightarrow> pollfd_vector \<Rightarrow> pollfd_vector" where
  "cleared_vec i v =
     v\<lparr>pv_data := (pv_data v)[unat i := (pv_data v ! unat i)\<lparr>pf_revents := 0\<rparr>]\<rparr>"

lemma cleared_vec_inv: "pv_inv v \<Longrightarrow> pv_inv (cleared_vec i v)"
  by (simp add: cleared_vec_def pv_inv_def)

lemma cleared_fd_ptrs:
  assumes "pv_inv (pollfdv s)" "i < pv_size (pollfdv s)"
  shows "fd_ptrs (s\<lparr>pollfdv := cleared_vec i (pollfdv s)\<rparr>) = fd_ptrs s"
proof (rule nth_equalityI)
  have I: "pv_inv (pollfdv (s\<lparr>pollfdv := cleared_vec i (pollfdv s)\<rparr>))"
    using cleared_vec_inv [OF assms(1)] by simp
  show "length (fd_ptrs (s\<lparr>pollfdv := cleared_vec i (pollfdv s)\<rparr>)) = length (fd_ptrs s)"
    by (simp add: length_fd_ptrs [OF I] length_fd_ptrs [OF assms(1)]) (simp add: cleared_vec_def)
  fix j assume "j < length (fd_ptrs (s\<lparr>pollfdv := cleared_vec i (pollfdv s)\<rparr>))"
  then have j: "j < unat (pv_size (pollfdv s))"
    by (simp add: length_fd_ptrs [OF I]) (simp add: cleared_vec_def)
  have "pv_entries (cleared_vec i (pollfdv s)) ! j = (pv_data (cleared_vec i (pollfdv s)) ! j, pv_pd (pollfdv s) ! j)"
    using nth_pv_entries [OF cleared_vec_inv [OF assms(1)], of j i] j by (simp add: cleared_vec_def)
  then show "fd_ptrs (s\<lparr>pollfdv := cleared_vec i (pollfdv s)\<rparr>) ! j = fd_ptrs s ! j"
    using j assms length_pv_entries [OF cleared_vec_inv [OF assms(1)], of i]
      in_block(1) [OF assms]
    by (auto simp: fd_ptrs_def nth_pv_entries cleared_vec_def nth_list_update)
qed

lemma clear_revents_eq:
  assumes inv: "poll_inv cfg v ls timer s" and i: "i < pv_size (pollfdv s)" and b: "pv_blk (pollfdv s) = blk"
  shows "clear_revents blk i s = Inr (s\<lparr>pollfdv := cleared_vec i (pollfdv s)\<rparr>)
     \<and> poll_inv cfg v ls timer (s\<lparr>pollfdv := cleared_vec i (pollfdv s)\<rparr>)
     \<and> loose v (s\<lparr>pollfdv := cleared_vec i (pollfdv s)\<rparr>) = loose v s"
proof (intro conjI)
  note V = poll_invD(1) [OF inv]
  show "clear_revents blk i s = Inr (s\<lparr>pollfdv := cleared_vec i (pollfdv s)\<rparr>)"
    using in_block [OF V i] b by (simp add: clear_revents_def cleared_vec_def)
  show "poll_inv cfg v ls timer (s\<lparr>pollfdv := cleared_vec i (pollfdv s)\<rparr>)"
    using inv cleared_fd_ptrs [OF V i] cleared_vec_inv [OF V] by (simp add: poll_inv_def)
  show "loose v (s\<lparr>pollfdv := cleared_vec i (pollfdv s)\<rparr>) = loose v s"
    using cleared_fd_ptrs [OF V i] by (simp add: loose_def)
qed

definition serve_post ::
    "config \<Rightarrow> 'w kview \<Rightarrow> int \<Rightarrow> 32 word \<Rightarrow> int \<times> 'w poll_state \<Rightarrow> bool \<times> int \<times> 'w poll_state \<Rightarrow> bool" where
  "serve_post cfg v ls i = (\<lambda>(timer, s) (again, timer', s'). poll_inv cfg v ls timer' s'
     \<and> server_running s' = server_running s \<and> keeps v s s' \<and> (timer' = timer \<or> timer' = - 1)
     \<and> (if again then pollfdv s' = removed_vec i (pollfdv s) \<and> client_no (bench s') = client_no (bench s)
        else (pollfdv s' = cleared_vec i (pollfdv s) \<and> client_no (bench s') = client_no (bench s))
          \<or> (pf_fd (pv_data (pollfdv s) ! unat i) = ls
             \<and> (\<exists>d p. pf_revents d = 0 \<and> pollfdv s' = cleared_vec i (appended_vec d p (pollfdv s))))))"

lemma with_bench_pollfdv: "pollfdv (with_bench cfg g x) = pollfdv x"
  by (simp add: with_bench_def split: prod.splits)

lemma serve_entry_safe:
  assumes K: "kernel_spec env v" and inv: "poll_inv cfg v ls timer s" and i: "i < pv_size (pollfdv s)"
    and f: "f = pf_fd (pv_data (pollfdv s) ! unat i)" "f \<noteq> - 1"
    and sp: "special_fd ls timer f \<Longrightarrow> pf_revents (pv_data (pollfdv s) ! unat i) AND POLLIN \<noteq> 0"
    and room: "f = ls \<Longrightarrow> pv_size (pollfdv s) < pv_capacity (pollfdv s)
        \<and> (DO_BENCH cfg \<longrightarrow> client_no (bench s) + 1 < 2 ^ 31)"
  shows "safeE (serve_post cfg v ls i (timer, s)) (serve_entry cfg env ls i (timer, s))"
proof -
  note V = poll_invD(1) [OF inv] and C = poll_invD(3) [OF inv] and Ks = kernel_specD [OF K]
  let ?ent = "pv_data (pollfdv s) ! unat i" and ?blk = "pv_blk (pollfdv s)"
  consider (new) "f = ls" | (tm) "f \<noteq> ls" "f = timer" | (client) "\<not> special_fd ls timer f"
    by (auto simp: special_fd_def)
  then show ?thesis
  proof cases
    case new
    have rv: "pf_revents ?ent AND POLLIN \<noteq> 0" using sp new by (simp add: special_fd_def)
    have "safeE (serve_post cfg v ls i (timer, s)) (bindE (poll_handle_new_client cfg env ls s) (\<lambda>s.
        bindE (clear_revents ?blk i s) (\<lambda>s. Inr (False, timer, s))))"
      unfolding safeE_bindE
    proof (rule safeE_mono [OF new_client_safe [OF K inv]], goal_cases)
      case (3 s')
      then obtain d p where a: "pf_revents d = 0" "pollfdv s' = appended_vec d p (pollfdv s)"
          and s': "poll_inv cfg v ls timer s'" "server_running s' = server_running s" "keeps v s s'"
        by blast
      have "unat (pv_size (pollfdv s) + 1) = Suc (unat (pv_size (pollfdv s)))"
        using room [OF new] by (intro unat_Suc32 [of _ "pv_capacity (pollfdv s)"]) (simp add: word_less_nat_alt)
      then have i': "i < pv_size (pollfdv s')" and b: "pv_blk (pollfdv s') = ?blk"
        using i by (simp_all add: a(2) appended_vec_def word_less_nat_alt)
      show ?case
        using clear_revents_eq [OF s'(1) i' b] a s' f(1) new
        by (auto simp: serve_post_def keeps_def)
    qed (use room new in auto)
    then show ?thesis
      using in_block [OF V i] f(1) new rv by (simp add: serve_entry_def)
  next
    case tm
    have rv: "pf_revents ?ent AND POLLIN \<noteq> 0" using sp tm f by (simp add: special_fd_def)
    have len: "unat i < length (fd_ptrs s)" using i V by (simp add: length_fd_ptrs word_less_nat_alt)
    have e: "fd_ptrs s ! unat i = (f, pv_pd (pollfdv s) ! unat i)" using nth_fd_ptrs [OF V i] f by simp
    have "pair_ok (DEFAULT_SERVER_BUFFER_SIZE cfg) (kv_open v (world s)) ls timer (conns s)
        (f, pv_pd (pollfdv s) ! unat i)"
      using conn_invD(5) [OF C] nth_mem [OF len] e by metis
    then have p: "pv_pd (pollfdv s) ! unat i = None"
      using tm f(2) by (simp add: pair_ok_def special_fd_def)
    have CI: "conn_inv (DEFAULT_SERVER_BUFFER_SIZE cfg) (kv_open v (world s) - {f}) ls (- 1) (conns s)
        (swap_remove (unat i) (fd_ptrs s))"
      using tm f(2) p by (intro conn_inv_remove [OF C len e]) auto
    have rem: "pollfdv_remove_index i (pollfdv s) = Inr (removed_vec i (pollfdv s))"
      using remove_eq [OF V i] f by simp
    have fin: "serve_post cfg v ls i (timer, s) (True, - 1, t\<lparr>pollfdv := removed_vec i (pollfdv s)\<rparr>)"
      if w: "kv_open v w = kv_open v (world s) - {f}" "keeps v s (s\<lparr>world := w\<rparr>)"
        and t: "t = with_bench cfg (sb_start (e_clock env)) (s\<lparr>world := w\<rparr>)" for w t
    proof -
      obtain b w' where b: "sb_start (e_clock env) (bench s, w) = (b, w')" by force
      have w': "same_view v w w'"
        using Ks(5) b by (auto simp: sb_start_def quiet_spec_def split: if_splits prod.splits
            dest: arg_cong [where f = snd]) (metis snd_conv)
      have bi: "DO_BENCH cfg \<Longrightarrow> bench_inv b" "client_no b = client_no (bench s)"
        using bench_inv_ops(1) [of "bench s" "e_clock env" w] poll_invD(2) [OF inv] b
          sb_start_simps(3) [of "e_clock env" "bench s" w] by simp_all
      let ?u = "t\<lparr>pollfdv := removed_vec i (pollfdv s)\<rparr>"
      have "kv_open v (world ?u) = kv_open v (world s) - {f}"
        using t w b w' by (simp add: with_bench_def same_view_def)
      then have lo: "loose v ?u \<subseteq> loose v s" by (intro loose_removed [OF V i f(1)]) simp_all
      have ec: "echoed v (world s) \<Longrightarrow> echoed v (world ?u)"
        using t w b w' by (simp add: with_bench_def same_view_def keeps_def echoed_def)
      have fp: "fd_ptrs ?u = swap_remove (unat i) (fd_ptrs s)" "pv_inv (pollfdv ?u)"
        by (rule fd_ptrs_removed [OF V i]; simp)+
      show ?thesis
      proof (cases "DO_BENCH cfg")
        case True
        then have "t = s\<lparr>world := w', bench := b\<rparr>" using t b by (simp add: with_bench_def)
        with fp CI w(1) w' bi True lo ec show ?thesis
          by (simp add: serve_post_def poll_inv_def keeps_def same_view_def)
      next
        case False
        then have "t = s\<lparr>world := w\<rparr>" using t by (simp add: with_bench_def)
        with fp CI w(1) False lo ec show ?thesis
          by (simp add: serve_post_def poll_inv_def keeps_def)
      qed
    qed
    have "safeE (serve_post cfg v ls i (timer, s)) (bindE (timer_expired cfg env timer s) (\<lambda>s.
          bindE (pollfdv_remove_index i (pollfdv s)) (\<lambda>v. Inr (True, - 1, s\<lparr>pollfdv := v\<rparr>))))"
      unfolding timer_expired_def close_timer_def bindE_assoc safeE_bindE
      by (rule safeE_mono [OF close_fd_safe [OF Ks(4)]], elim exE conjE)
        (simp add: fin [OF _ _ refl] rem tm with_bench_pollfdv)
    then show ?thesis
      using in_block [OF V i] f(1) tm rv by (simp add: serve_entry_def)
  next
    case client
    have nb: "f \<noteq> ls" "f \<noteq> timer"
      using client f(2) by (auto simp: special_fd_def)
    have "safeE (serve_post cfg v ls i (timer, s)) (bindE (handle_client_event cfg env i s)
        (\<lambda>(removed_client, s). if removed_client \<noteq> 0 then Inr (True, timer, s)
          else bindE (clear_revents ?blk i s) (\<lambda>s. Inr (False, timer, s))))"
      unfolding safeE_bindE
    proof (rule safeE_mono [OF client_event_safe [OF K inv i f(1,2) client]], goal_cases)
      case (1 x)
      obtain r s' where x: "x = (r, s')" by force
      then have post: "event_post cfg v ls timer i s (r, s')" using 1 by simp
      show ?case
      proof (cases "r = 0")
        case False
        then show ?thesis using post x by (simp add: event_post_def serve_post_def)
      next
        case True
        then have "pollfdv s' = pollfdv s" "poll_inv cfg v ls timer s'"
          using post by (simp_all add: event_post_def)
        then show ?thesis
          using clear_revents_eq [of cfg v ls timer s' i ?blk] i post x True
          by (simp add: event_post_def serve_post_def keeps_def)
      qed
    qed
    then show ?thesis
      using in_block [OF V i] f(1) nb by (simp add: serve_entry_def)
  qed
qed

end
