(* ===== verification/PollService.thy ===== *)
theory PollService
  imports PollInvariant
begin

text \<open>
  The event loop of the poll server: how many events are pending from an index on, the
  invariant of the loop of \<open>service_events\<close>, and that the loop keeps it and serves every
  pending event.
\<close>

subsection \<open>Pending events\<close>

definition pend_set :: "pollfd list \<Rightarrow> nat \<Rightarrow> nat \<Rightarrow> nat set" where
  "pend_set D i B = {j. i \<le> j \<and> j < B \<and> pf_revents (D ! j) \<noteq> 0}"

definition pend :: "pollfd list \<Rightarrow> nat \<Rightarrow> nat \<Rightarrow> nat" where
  "pend D i B = card (pend_set D i B)"

lemma finite_pend_set [simp]: "finite (pend_set D i B)"
  by (rule finite_subset [of _ "{..<B}"]) (auto simp: pend_set_def)

lemma pend_end: "B \<le> i \<Longrightarrow> pend D i B = 0"
  by (simp add: pend_def pend_set_def)

lemma pend_skip: "pf_revents (D ! i) = 0 \<Longrightarrow> pend D (Suc i) B = pend D i B"
  unfolding pend_def by (rule arg_cong [where f = card]) (auto simp: pend_set_def Suc_le_eq le_less)

lemma pend_serve:
  assumes "i < B" "pf_revents (D ! i) \<noteq> 0" and "\<forall>j. i < j \<and> j < B \<longrightarrow> pf_revents (D' ! j) = pf_revents (D ! j)"
  shows "pend D i B = Suc (pend D' (Suc i) B)"
proof -
  have "pend_set D i B = insert i (pend_set D' (Suc i) B)" "i \<notin> pend_set D' (Suc i) B"
    using assms by (auto simp: pend_set_def Suc_le_eq le_less)
  then show ?thesis by (simp add: pend_def)
qed

text \<open>Removal moves the last event, at \<open>l\<close>, to the index served.\<close>

lemma pend_remove:
  assumes i: "i < B" "i \<le> l" "l < length D" and r: "pf_revents (D ! i) \<noteq> 0"
    and z: "pf_revents z = 0" and l: "B \<le> l \<Longrightarrow> pf_revents (D ! l) = 0"
  shows "pend D i B = Suc (pend (D[i := D ! l, l := z]) i B)"
proof -
  let ?D = "D[i := D ! l, l := z]"
  let ?x = "if l < B \<and> pf_revents (D ! l) \<noteq> 0 then l else i"
  have "pend_set D i B = insert ?x (pend_set ?D i B)"
  proof (rule set_eqI)
    fix j show "j \<in> pend_set D i B \<longleftrightarrow> j \<in> insert ?x (pend_set ?D i B)"
      using assms by (cases "j = l"; cases "j = i") (auto simp: pend_set_def not_less)
  qed
  moreover have "?x \<notin> pend_set ?D i B"
    using assms by (cases "i = l") (auto simp: pend_set_def not_less)
  ultimately show ?thesis by (simp add: pend_def)
qed

subsection \<open>The loop invariant\<close>

text \<open>Entries past the end of the list, and entries added during this round, have no event.\<close>

definition quiet_tail :: "pollfd_vector \<Rightarrow> nat \<Rightarrow> bool" where
  "quiet_tail v B \<longleftrightarrow> (\<forall>j. (unat (pv_size v) \<le> j \<and> j < B) \<or> (B \<le> j \<and> j < unat (pv_size v))
     \<longrightarrow> pf_revents (pv_data v ! j) = 0)"

text \<open>What ppoll(2) reports: nothing for a negative descriptor, readiness for the listening
  socket and the timer.\<close>

definition events_ok :: "int \<Rightarrow> int \<Rightarrow> pollfd_vector \<Rightarrow> bool" where
  "events_ok ls timer v \<longleftrightarrow> (\<forall>j < unat (pv_size v). pf_revents (pv_data v ! j) \<noteq> 0 \<longrightarrow>
     pf_fd (pv_data v ! j) \<noteq> - 1
     \<and> (special_fd ls timer (pf_fd (pv_data v ! j)) \<longrightarrow> pf_revents (pv_data v ! j) AND POLLIN \<noteq> 0))"

definition room_if_accepting :: "config \<Rightarrow> int \<Rightarrow> nat \<Rightarrow> nat \<Rightarrow> 'w poll_state \<Rightarrow> bool" where
  "room_if_accepting cfg ls i B s \<longleftrightarrow>
     (\<exists>j. i \<le> j \<and> j < B \<and> j < unat (pv_size (pollfdv s)) \<and> pf_fd (pv_data (pollfdv s) ! j) = ls
        \<and> pf_revents (pv_data (pollfdv s) ! j) \<noteq> 0)
     \<longrightarrow> pv_size (pollfdv s) < pv_capacity (pollfdv s)
        \<and> (DO_BENCH cfg \<longrightarrow> client_no (bench s) + 1 < 2 ^ 31)"

definition loop_inv ::
    "config \<Rightarrow> 'w kview \<Rightarrow> int \<Rightarrow> nat \<Rightarrow> int \<Rightarrow> nat \<Rightarrow> int \<Rightarrow> int \<times> 'w poll_state \<Rightarrow> bool" where
  "loop_inv cfg v ls B n i k = (\<lambda>(timer, s).
     poll_inv cfg v ls timer s \<and> B \<le> length (pv_data (pollfdv s))
     \<and> quiet_tail (pollfdv s) B \<and> events_ok ls timer (pollfdv s)
     \<and> room_if_accepting cfg ls i B s
     \<and> k + int (pend (pv_data (pollfdv s)) i B) = n)"

lemma listening_once:
  assumes inv: "poll_inv cfg v ls timer s"
    and "i < unat (pv_size (pollfdv s))" "j < unat (pv_size (pollfdv s))"
    and "pf_fd (pv_data (pollfdv s) ! i) = ls" "pf_fd (pv_data (pollfdv s) ! j) = ls"
  shows "i = j"
proof -
  note V = poll_invD(1) [OF inv] and C = poll_invD(3) [OF inv]
  let ?fs = "map fst (fd_ptrs s)"
  have len: "length ?fs = unat (pv_size (pollfdv s))" using V by (simp add: length_fd_ptrs)
  have nth: "?fs ! k = pf_fd (pv_data (pollfdv s) ! k)" if "k < unat (pv_size (pollfdv s))" for k
    using that V by (simp add: fd_ptrs_def nth_pv_entries)
  have d: "distinct (filter (\<lambda>f. f \<noteq> - 1) ?fs)" and l: "ls \<noteq> - 1"
    using conn_invD(2,6) [OF C] by auto
  show ?thesis
    using distinct_filter_nth [OF d, of i j] assms(2-5) l len nth by simp
qed

text \<open>The parts of the invariant after each kind of change to the vector.\<close>

lemma removed_vec_data:
  assumes "pv_inv v" "i < pv_size v" "j < length (pv_data v)"
  shows "pv_data (removed_vec i v) ! j =
     (if j = unat (pv_size v) - 1 then zero_pollfd\<lparr>pf_fd := - 1\<rparr>
      else if j = unat i then pv_data v ! (unat (pv_size v) - 1) else pv_data v ! j)"
    and "unat (pv_size (removed_vec i v)) = unat (pv_size v) - 1"
    and "length (pv_data (removed_vec i v)) = length (pv_data v)"
  using assms unat_minus_one32 [of "pv_size v"]
  by (auto simp: removed_vec_def pv_inv_def word_less_nat_alt)

lemma zero_revents [simp]: "pf_revents (zero_pollfd\<lparr>pf_fd := x\<rparr>) = 0"
  by (simp add: zero_pollfd_def)

lemma step_removed:
  assumes inv: "loop_inv cfg v ls B n (unat i) k (timer, s)"
    and iv: "unat i < B" "i < pv_size (pollfdv s)" and r: "pf_revents (pv_data (pollfdv s) ! unat i) \<noteq> 0"
    and s': "pollfdv s' = removed_vec i (pollfdv s)" "client_no (bench s') = client_no (bench s)"
    and t': "timer' = timer \<or> timer' = - 1" and inv': "poll_inv cfg v ls timer' s'"
  shows "loop_inv cfg v ls B n (unat i) (k + 1) (timer', s')"
proof -
  let ?v = "pollfdv s" and ?v' = "removed_vec i (pollfdv s)"
  let ?D = "pv_data ?v" and ?n = "unat (pv_size ?v)"
  have I: "poll_inv cfg v ls timer s" "B \<le> length ?D" "quiet_tail ?v B" "events_ok ls timer ?v"
      "room_if_accepting cfg ls (unat i) B s" "k + int (pend ?D (unat i) B) = n"
    using inv by (simp_all add: loop_inv_def)
  note V = poll_invD(1) [OF I(1)]
  note rd = removed_vec_data [OF V iv(2)]
  have in': "unat i < ?n" using iv(2) by (simp add: word_less_nat_alt)
  have nl: "?n - 1 < length ?D" "0 < ?n" using V in' by (auto simp: pv_inv_def)
  have q: "quiet_tail ?v' B"
    unfolding quiet_tail_def rd(2) [OF nl(1)]
  proof (intro allI impI)
    fix j assume j: "(?n - 1 \<le> j \<and> j < B) \<or> (B \<le> j \<and> j < ?n - 1)"
    then have jl: "j < length ?D" using I(2) nl by auto
    show "pf_revents (pv_data ?v' ! j) = 0"
      using j I(3) in' iv(1) nl unfolding rd(1) [OF jl] quiet_tail_def by auto
  qed
  have e: "events_ok ls timer' ?v'"
    unfolding events_ok_def rd(2) [OF nl(1)]
  proof (intro allI impI)
    fix j assume j: "j < ?n - 1" "pf_revents (pv_data ?v' ! j) \<noteq> 0"
    then have jl: "j < length ?D" using nl by auto
    let ?j = "if j = unat i then ?n - 1 else j"
    have d: "pv_data ?v' ! j = ?D ! ?j" using rd(1) [OF jl] j by simp
    have "j < ?n" using j(1) by linarith
    then have "?j < ?n" using nl by simp
    moreover have "special_fd ls timer' g \<Longrightarrow> special_fd ls timer g" for g
      using t' by (auto simp: special_fd_def)
    ultimately show "pf_fd (pv_data ?v' ! j) \<noteq> - 1 \<and> (special_fd ls timer' (pf_fd (pv_data ?v' ! j))
        \<longrightarrow> pf_revents (pv_data ?v' ! j) AND POLLIN \<noteq> 0)"
      using I(4) j unfolding d events_ok_def by blast
  qed
  have l0: "B \<le> ?n - 1 \<Longrightarrow> pf_revents (?D ! (?n - 1)) = 0"
    using I(3) nl unfolding quiet_tail_def by auto
  have "pend ?D (unat i) B = Suc (pend (pv_data ?v') (unat i) B)"
    using pend_remove [OF iv(1) _ nl(1) r zero_revents l0] in' by (simp add: removed_vec_def)
  moreover have "room_if_accepting cfg ls (unat i) B s'"
    unfolding room_if_accepting_def
  proof (intro impI)
    assume "\<exists>j. unat i \<le> j \<and> j < B \<and> j < unat (pv_size (pollfdv s')) \<and> pf_fd (pv_data (pollfdv s') ! j) = ls
        \<and> pf_revents (pv_data (pollfdv s') ! j) \<noteq> 0"
    then obtain j where j: "unat i \<le> j" "j < B" "j < ?n - 1" "pf_fd (pv_data ?v' ! j) = ls"
        "pf_revents (pv_data ?v' ! j) \<noteq> 0"
      unfolding s'(1) rd(2) [OF nl(1)] by blast
    have jl: "j < length ?D" using j nl by auto
    let ?j = "if j = unat i then ?n - 1 else j"
    have d: "pv_data ?v' ! j = ?D ! ?j" using rd(1) [OF jl] j by simp
    have jB: "?j < B" using j l0 d by (cases "?n - 1 < B") auto
    have "\<exists>j. unat i \<le> j \<and> j < B \<and> j < ?n \<and> pf_fd (?D ! j) = ls \<and> pf_revents (?D ! j) \<noteq> 0"
      using j d jB in' by (intro exI [of _ ?j]) auto
    then have "DO_BENCH cfg \<longrightarrow> client_no (bench s) + 1 < 2 ^ 31"
      using I(5) by (simp add: room_if_accepting_def)
    moreover have "pv_size ?v' < pv_capacity ?v'"
      using rd(2) [OF nl(1)] V nl by (auto simp: word_less_nat_alt pv_inv_def removed_vec_def)
    ultimately show "pv_size (pollfdv s') < pv_capacity (pollfdv s')
        \<and> (DO_BENCH cfg \<longrightarrow> client_no (bench s') + 1 < 2 ^ 31)"
      using s' by simp
  qed
  ultimately show ?thesis
    using inv' s' q e I(2,6) rd(3) [OF nl(1)] by (simp add: loop_inv_def)
qed

lemma step_skipped:
  assumes "loop_inv cfg v ls B n i k (timer, s)" "pf_revents (pv_data (pollfdv s) ! i) = 0"
  shows "loop_inv cfg v ls B n (Suc i) k (timer, s)"
  using assms pend_skip [of "pv_data (pollfdv s)" i B]
  by (auto simp: loop_inv_def room_if_accepting_def)

lemma cleared_vec_data:
  "j < length (pv_data v) \<Longrightarrow> pv_data (cleared_vec i v) ! j =
     (if j = unat i then (pv_data v ! j)\<lparr>pf_revents := 0\<rparr> else pv_data v ! j)"
  "length (pv_data (cleared_vec i v)) = length (pv_data v)"
  "pv_size (cleared_vec i v) = pv_size v" "pv_capacity (cleared_vec i v) = pv_capacity v"
  by (auto simp: cleared_vec_def nth_list_update)

lemma step_cleared:
  assumes inv: "loop_inv cfg v ls B n (unat i) k (timer, s)"
    and iv: "unat i < B" "i < pv_size (pollfdv s)" and r: "pf_revents (pv_data (pollfdv s) ! unat i) \<noteq> 0"
    and s': "pollfdv s' = cleared_vec i (pollfdv s)" "client_no (bench s') = client_no (bench s)"
    and t': "timer' = timer \<or> timer' = - 1" and inv': "poll_inv cfg v ls timer' s'"
  shows "loop_inv cfg v ls B n (Suc (unat i)) (k + 1) (timer', s')"
proof -
  let ?v = "pollfdv s" and ?D = "pv_data (pollfdv s)"
  have I: "poll_inv cfg v ls timer s" "B \<le> length ?D" "quiet_tail ?v B" "events_ok ls timer ?v"
      "room_if_accepting cfg ls (unat i) B s" "k + int (pend ?D (unat i) B) = n"
    using inv by (simp_all add: loop_inv_def)
  note V = poll_invD(1) [OF I(1)]
  have sl: "unat (pv_size ?v) \<le> length ?D" using V by (simp add: pv_inv_def)
  have sp: "special_fd ls timer' g \<Longrightarrow> special_fd ls timer g" for g
    using t' by (auto simp: special_fd_def)
  have q: "quiet_tail (cleared_vec i ?v) B"
    using I(2,3) sl by (auto simp: quiet_tail_def cleared_vec_data)
  have e: "events_ok ls timer' (cleared_vec i ?v)"
    using I(4) sl sp by (auto simp: events_ok_def cleared_vec_data)
  have p: "pend ?D (unat i) B = Suc (pend (pv_data (cleared_vec i ?v)) (Suc (unat i)) B)"
    using I(2) iv(1) r by (intro pend_serve) (auto simp: cleared_vec_data)
  have "room_if_accepting cfg ls (Suc (unat i)) B s'"
    using I(5) s' sl unfolding room_if_accepting_def
    by (auto simp: cleared_vec_data split: if_splits)
  with I q e p s' inv' show ?thesis by (simp add: loop_inv_def cleared_vec_data)
qed

lemma step_accepted:
  assumes inv: "loop_inv cfg v ls B n (unat i) k (timer, s)"
    and iv: "unat i < B" "i < pv_size (pollfdv s)" and r: "pf_revents (pv_data (pollfdv s) ! unat i) \<noteq> 0"
    and ls: "pf_fd (pv_data (pollfdv s) ! unat i) = ls"
    and s': "pollfdv s' = cleared_vec i (appended_vec d p (pollfdv s))" "pf_revents d = 0"
    and t': "timer' = timer \<or> timer' = - 1" and inv': "poll_inv cfg v ls timer' s'"
  shows "loop_inv cfg v ls B n (Suc (unat i)) (k + 1) (timer', s')"
proof -
  let ?v = "pollfdv s" and ?D = "pv_data (pollfdv s)" and ?w = "appended_vec d p (pollfdv s)"
  let ?n = "unat (pv_size ?v)"
  have I: "poll_inv cfg v ls timer s" "B \<le> length ?D" "quiet_tail ?v B" "events_ok ls timer ?v"
      "room_if_accepting cfg ls (unat i) B s" "k + int (pend ?D (unat i) B) = n"
    using inv by (simp_all add: loop_inv_def)
  note V = poll_invD(1) [OF I(1)]
  have in': "unat i < ?n" using iv(2) by (simp add: word_less_nat_alt)
  have "pv_size ?v < pv_capacity ?v"
    using I(5) iv(1) in' ls r unfolding room_if_accepting_def by blast
  then have nc: "?n < unat (pv_capacity ?v)" by (simp add: word_less_nat_alt)
  then have sz: "unat (pv_size ?w) = Suc ?n" by (simp add: appended_vec_def unat_Suc32)
  have nl: "?n < length ?D" using nc V by (simp add: pv_inv_def)
  have wd: "pv_data ?w = ?D[?n := d]" by (simp add: appended_vec_def)
  have D': "pv_data (cleared_vec i ?w) ! j = (if j = unat i then (?D ! j)\<lparr>pf_revents := 0\<rparr>
      else if j = ?n then d else ?D ! j)" if "j < length ?D" for j
    using that in' nl by (simp add: cleared_vec_data wd nth_list_update)
  have sp: "special_fd ls timer' g \<Longrightarrow> special_fd ls timer g" for g
    using t' by (auto simp: special_fd_def)
  have q: "quiet_tail (cleared_vec i ?w) B"
    using I(2,3) nl s'(2) unfolding quiet_tail_def cleared_vec_data sz
    by (auto simp: D' less_Suc_eq)
  have e: "events_ok ls timer' (cleared_vec i ?w)"
    using I(4) nl s'(2) sp unfolding events_ok_def cleared_vec_data sz
    by (auto simp: D' less_Suc_eq)
  have p: "pend ?D (unat i) B = Suc (pend (pv_data (cleared_vec i ?w)) (Suc (unat i)) B)"
  proof (rule pend_serve [OF iv(1) r], intro allI impI)
    fix j assume j: "unat i < j \<and> j < B"
    then have "j < length ?D" using I(2) by simp
    moreover have "j = ?n \<Longrightarrow> pf_revents (?D ! ?n) = 0" using I(3) j unfolding quiet_tail_def by auto
    ultimately show "pf_revents (pv_data (cleared_vec i ?w) ! j) = pf_revents (?D ! j)"
      using j s'(2) by (auto simp: D')
  qed
  have "room_if_accepting cfg ls (Suc (unat i)) B s'"
    unfolding room_if_accepting_def
  proof (intro impI, elim exE conjE)
    fix j assume j: "Suc (unat i) \<le> j" "j < unat (pv_size (pollfdv s'))"
        "pf_fd (pv_data (pollfdv s') ! j) = ls" "pf_revents (pv_data (pollfdv s') ! j) \<noteq> 0"
    have js: "j < Suc ?n" using j(2) by (simp add: s'(1) cleared_vec_data sz)
    then have "j < length ?D" using nl by simp
    with j s' have "pf_fd (?D ! j) = ls" "j \<noteq> ?n" by (auto simp: D' split: if_splits)
    with js have "unat i = j" by (intro listening_once [OF I(1) in' _ ls]) auto
    with j(1) show "pv_size (pollfdv s') < pv_capacity (pollfdv s')
        \<and> (DO_BENCH cfg \<longrightarrow> client_no (bench s') + 1 < 2 ^ 31)" by simp
  qed
  with I q e p s' inv' show ?thesis by (simp add: loop_inv_def cleared_vec_data wd)
qed

subsection \<open>The loop\<close>

lemma loop_safe:
  "kernel_spec env v \<Longrightarrow> loop_inv cfg v ls (unat sz) n (unat i) k ts \<Longrightarrow>
     safeE (\<lambda>(k', timer', s'). k' = n \<and> poll_inv cfg v ls timer' s'
       \<and> server_running s' = server_running (snd ts) \<and> keeps v (snd ts) s')
     (service_events_loop cfg env ls sz n i k ts)"
proof (induction cfg env ls sz n i k ts rule: service_events_loop.induct)
  case (1 cfg env ls sz n i k ts)
  note K = "1.prems"(1)
  obtain timer s where ts: "ts = (timer, s)" by force
  let ?ent = "pv_data (pollfdv s) ! unat i"
  have L: "loop_inv cfg v ls (unat sz) n (unat i) k (timer, s)" using "1.prems"(2) ts by simp
  then have I: "poll_inv cfg v ls timer s" "unat sz \<le> length (pv_data (pollfdv s))"
      "quiet_tail (pollfdv s) (unat sz)" "events_ok ls timer (pollfdv s)"
      "room_if_accepting cfg ls (unat i) (unat sz) s" "k + int (pend (pv_data (pollfdv s)) (unat i) (unat sz)) = n"
    by (simp_all add: loop_inv_def)
  show ?case
  proof (cases "i < sz \<and> k < n")
    case False
    then have "k = n"
      using I(6) pend_end [of "unat sz" "unat i" "pv_data (pollfdv s)"] by (auto simp: word_less_nat_alt)
    then show ?thesis
      using False I(1) ts by (subst service_events_loop.simps) auto
  next
    case True
    have iB: "unat i < unat sz" using True by (simp add: word_less_nat_alt)
    then have il: "unat i < length (pv_data (pollfdv s))" using I(2) by simp
    have Suc: "unat (i + 1) = Suc (unat i)" using iB by (rule unat_Suc32)
    show ?thesis
    proof (cases "pf_revents ?ent = 0")
      case skip: True
      have "loop_inv cfg v ls (unat sz) n (unat (i + 1)) k ts"
        using step_skipped [OF L skip] Suc ts by simp
      then show ?thesis
        using True il skip "1.IH"(1) [OF True _ skip K] ts by (subst service_events_loop.simps) simp
    next
      case ev: False
      have isz: "unat i < unat (pv_size (pollfdv s))"
        using I(3) ev iB unfolding quiet_tail_def by (meson not_le)
      then have iw: "i < pv_size (pollfdv s)" by (simp add: word_less_nat_alt)
      have f: "pf_fd ?ent \<noteq> - 1" "special_fd ls timer (pf_fd ?ent) \<Longrightarrow> pf_revents ?ent AND POLLIN \<noteq> 0"
        using I(4) isz ev unfolding events_ok_def by blast+
      have room: "pf_fd ?ent = ls \<Longrightarrow> pv_size (pollfdv s) < pv_capacity (pollfdv s)
          \<and> (DO_BENCH cfg \<longrightarrow> client_no (bench s) + 1 < 2 ^ 31)"
        using I(5) isz iB ev unfolding room_if_accepting_def by blast
      have se: "safeE (serve_post cfg v ls i (timer, s)) (serve_entry cfg env ls i (timer, s))"
        by (rule serve_entry_safe [OF K I(1) iw refl f(1)]) (use f(2) room in auto)
      have "safeE (\<lambda>(again, ts'). safeE (\<lambda>(k', timer', s'). k' = n \<and> poll_inv cfg v ls timer' s'
            \<and> server_running s' = server_running s \<and> keeps v s s')
          (service_events_loop cfg env ls sz n (if again then i - 1 + 1 else i + 1) (k + 1) ts'))
        (serve_entry cfg env ls i ts)"
        unfolding ts
      proof (rule safeE_mono [OF se], goal_cases)
        case (1 x)
        obtain again timer' s' where x: "x = (again, timer', s')" by (metis prod.collapse)
        have P: "serve_post cfg v ls i (timer, s) (again, timer', s')" using 1 x by simp
        then have p: "poll_inv cfg v ls timer' s'" "server_running s' = server_running s"
            "keeps v s s'" "timer' = timer \<or> timer' = - 1" by (simp_all add: serve_post_def)
        have L': "loop_inv cfg v ls (unat sz) n (unat (if again then i - 1 + 1 else i + 1)) (k + 1) (timer', s')"
        proof (cases again)
          case True
          then have "pollfdv s' = removed_vec i (pollfdv s)" "client_no (bench s') = client_no (bench s)"
            using P by (simp_all add: serve_post_def)
          then show ?thesis
            using step_removed [OF L iB iw ev _ _ p(4,1)] True by simp
        next
          case False
          then consider "pollfdv s' = cleared_vec i (pollfdv s)" "client_no (bench s') = client_no (bench s)"
            | d q where "pf_fd ?ent = ls" "pf_revents d = 0" "pollfdv s' = cleared_vec i (appended_vec d q (pollfdv s))"
            using P by (auto simp: serve_post_def)
          then show ?thesis
            using step_cleared [OF L iB iw ev _ _ p(4,1)] step_accepted [OF L iB iw ev _ _ _ p(4,1)]
              False Suc by cases auto
        qed
        have st: "serve_entry cfg env ls i ts = Inr (again, timer', s')" using 1 x ts by simp
        have get: "arr_get (pv_data (pollfdv (snd ts))) (unat i) = Inr ?ent" using il ts by simp
        have ih: "safeE (\<lambda>(k', t, s''). k' = n \<and> poll_inv cfg v ls t s''
            \<and> server_running s'' = server_running s' \<and> keeps v s' s'')
            (service_events_loop cfg env ls sz n (if again then i - 1 + 1 else i + 1) (k + 1) (timer', s'))"
          using L' K "1.IH"(2) [of ?ent "(again, timer', s')" again "(timer', s')"] True il ev st ts by simp
        show ?case
          unfolding x prod.case
          by (rule safeE_mono [OF ih]) (use p keeps_trans in fastforce)
      qed
      then show ?thesis
        using True il ev ts
        by (subst service_events_loop.simps, simp, elim safeE_mono) (auto simp: case_prod_beta)
    qed
  qed
qed

end
