(* ===== verification/PollRounds.thy ===== *)
theory PollRounds
  imports PollService
begin

text \<open>
  One round of the poll server's loop: what ppoll(2) promises, the events one round serves,
  and the rounds one after the other.
\<close>

subsection \<open>The contract of ppoll\<close>

text \<open>
  ppoll(2) at a world: descriptors and streams unchanged, -1 on failure, otherwise one
  \<open>revents\<close> per entry and the number of those that are not zero; nothing for a negative
  descriptor; the listening socket and the timer report readiness to read.
\<close>

definition ppoll_at :: "('w, 'x) poll_env_scheme \<Rightarrow> 'w kview \<Rightarrow> int \<Rightarrow> int \<Rightarrow> 'w \<Rightarrow> bool" where
  "ppoll_at env v ls timer w \<longleftrightarrow> (\<forall>ents rc errno revs sig w'.
     e_ppoll env ents w = ((rc, errno, revs, sig), w') \<longrightarrow> same_view v w w' \<and> - 1 \<le> rc
     \<and> (0 \<le> rc \<longrightarrow> length revs = length ents \<and> rc = int (card {j. j < length ents \<and> revs ! j \<noteq> 0})
        \<and> (\<forall>j < length ents. revs ! j \<noteq> 0 \<longrightarrow> fst (ents ! j) \<noteq> - 1
            \<and> (special_fd ls timer (fst (ents ! j)) \<longrightarrow> revs ! j AND POLLIN \<noteq> 0))))"

definition polled_vec :: "16 word list \<Rightarrow> pollfd_vector \<Rightarrow> pollfd_vector" where
  "polled_vec revs v = v\<lparr>pv_data := map (\<lambda>(d, r). d\<lparr>pf_revents := r\<rparr>) (zip (take (unat (pv_size v)) (pv_data v)) revs)
     @ drop (unat (pv_size v)) (pv_data v)\<rparr>"

lemma polled_vec_data:
  assumes "pv_inv v" "length revs = unat (pv_size v)"
  shows "j < unat (pv_size v) \<Longrightarrow> pv_data (polled_vec revs v) ! j = (pv_data v ! j)\<lparr>pf_revents := revs ! j\<rparr>"
    and "unat (pv_size v) \<le> j \<Longrightarrow> j < unat (pv_capacity v) \<Longrightarrow> pv_data (polled_vec revs v) ! j = pv_data v ! j"
    and "length (pv_data (polled_vec revs v)) = length (pv_data v)"
    and "pv_size (polled_vec revs v) = pv_size v" "pv_capacity (polled_vec revs v) = pv_capacity v"
    and "pv_pd (polled_vec revs v) = pv_pd v" "pv_inv (polled_vec revs v)"
  using assms by (auto simp: polled_vec_def pv_inv_def nth_append)

lemma polled_fd_ptrs:
  assumes "pv_inv (pollfdv s)" "length revs = unat (pv_size (pollfdv s))" "pollfdv s' = polled_vec revs (pollfdv s)"
  shows "fd_ptrs s' = fd_ptrs s"
proof (rule nth_equalityI)
  note P = polled_vec_data [OF assms(1,2)]
  show l: "length (fd_ptrs s') = length (fd_ptrs s)"
    using P assms(1,3) by (simp add: length_fd_ptrs)
  fix i assume "i < length (fd_ptrs s')"
  then have "i < unat (pv_size (pollfdv s))" using l assms(1) by (simp add: length_fd_ptrs)
  then show "fd_ptrs s' ! i = fd_ptrs s ! i"
    using P assms(1,3) by (simp add: fd_ptrs_def nth_pv_entries)
qed

definition wait_post :: "config \<Rightarrow> 'w kview \<Rightarrow> int \<Rightarrow> int \<times> 'w poll_state \<Rightarrow> int \<times> int \<times> 'w poll_state \<Rightarrow> bool" where
  "wait_post cfg v ls = (\<lambda>(timer, s) (rc, errno, s'). poll_inv cfg v ls timer s' \<and> bench s' = bench s
     \<and> keeps v s s' \<and> server_running s' \<in> {server_running s, 0} \<and> - 1 \<le> rc
     \<and> (if rc < 0 then pollfdv s' = pollfdv s
        else (\<exists>revs. length revs = unat (pv_size (pollfdv s)) \<and> pollfdv s' = polled_vec revs (pollfdv s)
          \<and> rc = int (card {j. j < unat (pv_size (pollfdv s)) \<and> revs ! j \<noteq> 0})
          \<and> (\<forall>j < unat (pv_size (pollfdv s)). revs ! j \<noteq> 0 \<longrightarrow> pf_fd (pv_data (pollfdv s) ! j) \<noteq> - 1
              \<and> (special_fd ls timer (pf_fd (pv_data (pollfdv s) ! j)) \<longrightarrow> revs ! j AND POLLIN \<noteq> 0)))))"

lemma do_ppoll_safe:
  assumes pp: "ppoll_at env v ls timer (world s)" and inv: "poll_inv cfg v ls timer s"
  shows "safeE (wait_post cfg v ls (timer, s)) (do_ppoll env s)"
proof -
  let ?n = "unat (pv_size (pollfdv s))" and ?D = "pv_data (pollfdv s)"
  note V = poll_invD(1) [OF inv]
  have n: "?n \<le> length ?D" using V by (simp add: pv_inv_def)
  let ?ents = "map (\<lambda>d. (pf_fd d, pf_events d)) (take ?n ?D)"
  obtain rc errno revs sig w where c: "e_ppoll env ?ents (world s) = ((rc, errno, revs, sig), w)"
    by (cases "e_ppoll env ?ents (world s)") auto
  note P = pp [unfolded ppoll_at_def, rule_format, OF c]
  have len: "length ?ents = ?n" using n by simp
  have "same_view v (world s) w" using P by blast
  then have view: "kv_open v w = kv_open v (world s)" "echoed v (world s) \<Longrightarrow> echoed v w"
    by (simp_all add: same_view_def echoed_def)
  let ?run = "if sig then stop_server_signal_handler (server_running s) else server_running s"
  show ?thesis
  proof (cases "rc < 0")
    case True
    let ?s = "s\<lparr>world := w, server_running := ?run\<rparr>"
    have "do_ppoll env s = Inr (rc, errno, ?s)"
      using True n c by (simp add: do_ppoll_def)
    moreover have "poll_inv cfg v ls timer ?s" using inv view(1) by (simp add: poll_inv_def fd_ptrs_def)
    moreover have "keeps v s ?s" using view by (simp add: keeps_def)
    moreover have "- 1 \<le> rc" using P by blast
    ultimately show ?thesis
      using True by (simp add: wait_post_def stop_server_signal_handler_def)
  next
    case False
    then have lr: "length revs = ?n" using P len by simp
    let ?s = "s\<lparr>pollfdv := polled_vec revs (pollfdv s), world := w, server_running := ?run\<rparr>"
    have "do_ppoll env s = Inr (rc, errno, ?s)"
      using False n c lr by (simp add: do_ppoll_def polled_vec_def min_def)
    moreover have "poll_inv cfg v ls timer ?s"
      using inv view polled_vec_data(7) [OF V lr] polled_fd_ptrs [OF V lr, of ?s]
      by (simp add: poll_inv_def)
    moreover have "fst (?ents ! j) = pf_fd (?D ! j)" if "j < ?n" for j using that n by simp
    then have "rc = int (card {j. j < ?n \<and> revs ! j \<noteq> 0})
        \<and> (\<forall>j < ?n. revs ! j \<noteq> 0 \<longrightarrow> pf_fd (?D ! j) \<noteq> - 1
            \<and> (special_fd ls timer (pf_fd (?D ! j)) \<longrightarrow> revs ! j AND POLLIN \<noteq> 0))"
      using P [unfolded len] False by simp
    moreover have "loose v ?s = loose v s"
      using polled_fd_ptrs [OF V lr, of ?s] view(1) by (simp add: loose_def)
    then have "keeps v s ?s" using view(2) by (simp add: keeps_def)
    ultimately show ?thesis
      using False lr by (auto simp: wait_post_def stop_server_signal_handler_def)
  qed
qed

subsection \<open>One round\<close>

text \<open>\<open>service_events\<close> without its final assertion.\<close>

definition service_all :: "config \<Rightarrow> ('w, 'x) poll_env_scheme \<Rightarrow> int \<Rightarrow> int \<Rightarrow> int \<times> 'w poll_state \<Rightarrow> (int \<times> 'w poll_state) res" where
  "service_all cfg env ls no_events ts =
     bindE (service_events_loop cfg env ls (pv_size (pollfdv (snd ts))) no_events 0 0 ts) (\<lambda>(k, ts). Inr ts)"

definition may_accept :: "config \<Rightarrow> 'w poll_state \<Rightarrow> bool" where
  "may_accept cfg s \<longleftrightarrow> pv_size (pollfdv s) < pv_capacity (pollfdv s)
     \<and> (DO_BENCH cfg \<longrightarrow> client_no (bench s) + 1 < 2 ^ 31)"

lemma waited_loop_inv:
  assumes W: "wait_post cfg v ls (timer, s) (rc, errno, s')" and rc: "0 \<le> rc"
    and inv: "poll_inv cfg v ls timer s" and room: "may_accept cfg s"
    and s'': "pollfdv s'' = pollfdv s'" "client_no (bench s'') = client_no (bench s')" "poll_inv cfg v ls timer s''"
  shows "loop_inv cfg v ls (unat (pv_size (pollfdv s''))) rc 0 0 (timer, s'')"
proof -
  let ?n = "unat (pv_size (pollfdv s))"
  note V = poll_invD(1) [OF inv]
  have cond: "bench s' = bench s" "\<not> rc < 0" using W rc by (auto simp: wait_post_def)
  obtain revs where R: "length revs = ?n" "pollfdv s' = polled_vec revs (pollfdv s)"
      "rc = int (card {j. j < ?n \<and> revs ! j \<noteq> 0})"
      "\<And>j. j < ?n \<Longrightarrow> revs ! j \<noteq> 0 \<Longrightarrow> pf_fd (pv_data (pollfdv s) ! j) \<noteq> - 1
        \<and> (special_fd ls timer (pf_fd (pv_data (pollfdv s) ! j)) \<longrightarrow> revs ! j AND POLLIN \<noteq> 0)"
    using W rc unfolding wait_post_def by auto
  note P = polled_vec_data [OF V R(1)]
  have sz: "pv_size (pollfdv s'') = pv_size (pollfdv s)" "pv_capacity (pollfdv s'') = pv_capacity (pollfdv s)"
    using R(2) P(4,5) s''(1) by simp_all
  have "{j. j < ?n \<and> revs ! j \<noteq> 0} = pend_set (pv_data (pollfdv s'')) 0 ?n"
    using P(1) R(2) s''(1) by (auto simp: pend_set_def)
  then have k: "0 + int (pend (pv_data (pollfdv s'')) 0 ?n) = rc" using R(3) by (simp add: pend_def)
  have le: "?n \<le> length (pv_data (pollfdv s''))" using V P(3) R(2) s''(1) by (simp add: pv_inv_def)
  have q: "quiet_tail (pollfdv s'') ?n" by (auto simp: quiet_tail_def sz)
  have e: "events_ok ls timer (pollfdv s'')"
    using P(1) R(2,4) s''(1) sz by (simp add: events_ok_def)
  have "room_if_accepting cfg ls 0 ?n s''"
    using room cond s''(2) sz by (simp add: room_if_accepting_def may_accept_def)
  then show ?thesis using k le q e s''(3) sz by (simp add: loop_inv_def)
qed

lemma service_events_eq_all:
  assumes "kernel_spec env v" "loop_inv cfg v ls (unat (pv_size (pollfdv s))) n 0 0 (timer, s)"
  shows "service_events cfg env ls n (timer, s) = service_all cfg env ls n (timer, s)"
proof (cases "service_events_loop cfg env ls (pv_size (pollfdv s)) n 0 0 (timer, s)")
  case (Inr r)
  obtain k t s' where r: "r = (k, t, s')" by (metis prod.collapse)
  have "k = n"
    using loop_safe [of env v cfg ls "pv_size (pollfdv s)" n 0 0 "(timer, s)"] assms Inr r by simp
  then show ?thesis using Inr r by (simp add: service_events_def service_all_def assert_zero_def)
qed (simp add: service_events_def service_all_def)

lemma service_all_safe:
  assumes "kernel_spec env v" "loop_inv cfg v ls (unat (pv_size (pollfdv s))) n 0 0 (timer, s)"
  shows "safeE (\<lambda>(timer', s'). poll_inv cfg v ls timer' s' \<and> server_running s' = server_running s
     \<and> keeps v s s') (service_all cfg env ls n (timer, s))"
proof -
  have "safeE (\<lambda>(k', timer', s'). k' = n \<and> poll_inv cfg v ls timer' s'
      \<and> server_running s' = server_running s \<and> keeps v s s')
      (service_events_loop cfg env ls (pv_size (pollfdv s)) n 0 0 (timer, s))"
    using loop_safe [of env v cfg ls "pv_size (pollfdv s)" n 0 0 "(timer, s)"] assms by simp
  then show ?thesis
    unfolding service_all_def safeE_bindE snd_conv by (rule safeE_mono) auto
qed

text \<open>The state the events of a round are served in.\<close>

definition count_events :: "config \<Rightarrow> int \<Rightarrow> 'w poll_state \<Rightarrow> 'w poll_state" where
  "count_events cfg n s = (if DO_BENCH cfg then s\<lparr>bench := sb_requests_performed (bench s) n\<rparr> else s)"

lemma client_no_requests [simp]: "client_no (sb_requests_performed b n) = client_no b"
  by (simp add: sb_requests_performed_def)

lemma count_events_simps [simp]:
  "pollfdv (count_events cfg n s) = pollfdv s" "client_no (bench (count_events cfg n s)) = client_no (bench s)"
  "server_running (count_events cfg n s) = server_running s" "world (count_events cfg n s) = world s"
  "loose v (count_events cfg n s) = loose v s"
  by (simp_all add: count_events_def loose_def fd_ptrs_def)

lemma count_events_inv:
  "poll_inv cfg v ls timer s \<Longrightarrow> poll_inv cfg v ls timer (count_events cfg n s)"
  using bench_inv_ops(3) by (auto simp: poll_inv_def count_events_def fd_ptrs_def)

definition round_post :: "config \<Rightarrow> 'w kview \<Rightarrow> int \<Rightarrow> 'w poll_state \<Rightarrow> int \<times> 'w poll_state \<Rightarrow> bool" where
  "round_post cfg v ls s = (\<lambda>(timer', s'). poll_inv cfg v ls timer' s' \<and> keeps v s s'
     \<and> server_running s' \<in> {server_running s, 0})"

lemma poll_round_safe:
  assumes K: "kernel_spec env v" and pp: "ppoll_at env v ls timer (world s)"
    and inv: "poll_inv cfg v ls timer s" and room: "may_accept cfg s"
  shows "safeE (round_post cfg v ls s) (poll_round cfg env ls (timer, s))"
proof -
  have step: "safeE (round_post cfg v ls s) (service_events cfg env ls rc (timer, count_events cfg rc s'))"
    if W: "wait_post cfg v ls (timer, s) (rc, errno, s')" and rc: "0 \<le> rc" for rc errno s'
  proof -
    have w: "poll_inv cfg v ls timer s'" "keeps v s s'" "server_running s' \<in> {server_running s, 0}"
      using W by (simp_all add: wait_post_def)
    have L: "loop_inv cfg v ls (unat (pv_size (pollfdv (count_events cfg rc s')))) rc 0 0
        (timer, count_events cfg rc s')"
      using w(1) by (intro waited_loop_inv [OF W rc inv room]) (simp_all add: count_events_inv)
    show ?thesis
      unfolding service_events_eq_all [OF K L]
      by (rule safeE_mono [OF service_all_safe [OF K L]])
        (use w in \<open>auto simp: round_post_def keeps_def\<close>)
  qed
  have "safeE (round_post cfg v ls s) (case x of (no_events, errno, s') \<Rightarrow>
      if no_events < 0 \<and> errno = EINTR then Inr (timer, s')
      else bindE (if errno \<noteq> EINTR then assert_nonn no_events ''poll'' else Inr ()) (\<lambda>_.
        service_events cfg env ls no_events (timer, count_events cfg no_events s')))"
    if W: "wait_post cfg v ls (timer, s) x" for x
  proof -
    obtain rc errno s' where x: "x = (rc, errno, s')" by (cases x) auto
    have "poll_inv cfg v ls timer s'" "keeps v s s'" "server_running s' \<in> {server_running s, 0}"
      using W x by (simp_all add: wait_post_def)
    then have stay: "round_post cfg v ls s (timer, s')" by (simp add: round_post_def)
    show ?thesis
    proof (cases "rc < 0")
      case True
      then show ?thesis using x stay by simp
    next
      case False
      then show ?thesis using x step [of rc errno s'] W by simp
    qed
  qed
  then show ?thesis
    unfolding poll_round_def prod.case safeE_bindE Let_def count_events_def [symmetric]
    by (rule safeE_mono [OF do_ppoll_safe [OF pp inv]])
qed

subsection \<open>The rounds of the server\<close>

inductive poll_rounds ::
    "config \<Rightarrow> ('w, 'x) poll_env_scheme \<Rightarrow> 'w kview \<Rightarrow> int \<Rightarrow> int \<times> 'w poll_state \<Rightarrow> int \<times> 'w poll_state \<Rightarrow> bool"
  for cfg env v ls start where
  rounds_start: "poll_rounds cfg env v ls start start"
| rounds_step: "poll_rounds cfg env v ls start (timer, s) \<Longrightarrow> server_running s \<noteq> 0 \<Longrightarrow>
     ppoll_at env v ls timer (world s) \<Longrightarrow> may_accept cfg s \<Longrightarrow>
     poll_round cfg env ls (timer, s) = Inr ts \<Longrightarrow> poll_rounds cfg env v ls start ts"

lemma rounds_inv:
  assumes "poll_rounds cfg env v ls start ts" and K: "kernel_spec env v"
    and "poll_inv cfg v ls (fst start) (snd start)"
  shows "poll_inv cfg v ls (fst ts) (snd ts) \<and> keeps v (snd start) (snd ts)"
  using assms(1)
proof induction
  case rounds_start
  then show ?case using assms(3) by simp
next
  case (rounds_step timer s ts)
  have "safeE (round_post cfg v ls s) (poll_round cfg env ls (timer, s))"
    using rounds_step by (intro poll_round_safe [OF K]) simp_all
  then have "round_post cfg v ls s ts" using rounds_step by simp
  then show ?case using rounds_step.IH keeps_trans by (fastforce simp: round_post_def)
qed

end
