(* ===== verification/SampleKernel.thy ===== *)
theory SampleKernel
  imports ServerUtils
begin

text \<open>
  A small kernel that satisfies the contracts of Libc.thy, for applying theorems at concrete
  inputs: the open descriptors in a list, the messages waiting on each, which descriptors
  are ready, the bytes transferred, the connections waiting to be accepted, and the
  descriptors registered with an epoll instance.
\<close>

record 'd sworld =
  sw_open :: "int list"
  sw_mail :: "int \<Rightarrow> byte list list"
  sw_ready :: "int list"
  sw_got :: "int \<Rightarrow> byte list"
  sw_sent :: "int \<Rightarrow> byte list"
  sw_backlog :: nat
  sw_interest :: "(int \<times> 'd) list"

definition sview :: "'d sworld kview" where
  "sview = \<lparr>kv_open = (\<lambda>w. set (sw_open w)), kv_in = sw_got, kv_out = sw_sent\<rparr>"

definition s_fresh :: "'d sworld \<Rightarrow> int" where
  "s_fresh w = fold max (sw_open w) 2 + 1"

definition s_open :: "'d sworld \<Rightarrow> int \<times> 'd sworld" where
  "s_open w = (s_fresh w, w\<lparr>sw_open := s_fresh w # sw_open w,
     sw_got := (sw_got w)(s_fresh w := []), sw_sent := (sw_sent w)(s_fresh w := [])\<rparr>)"

definition s_read :: "int \<Rightarrow> nat \<Rightarrow> 'd sworld \<Rightarrow> (int \<times> byte list) \<times> 'd sworld" where
  "s_read fd n w = (case sw_mail w fd of
     [] \<Rightarrow> ((0, []), w)
   | m # ms \<Rightarrow> ((int (length (take n m)), take n m),
       w\<lparr>sw_mail := (sw_mail w)(fd := ms), sw_got := (sw_got w)(fd := sw_got w fd @ take n m)\<rparr>))"

definition s_write :: "int \<Rightarrow> byte list \<Rightarrow> 'd sworld \<Rightarrow> int \<times> 'd sworld" where
  "s_write fd bs w = (int (length bs), w\<lparr>sw_sent := (sw_sent w)(fd := sw_sent w fd @ bs)\<rparr>)"

definition s_close :: "int \<Rightarrow> 'd sworld \<Rightarrow> int \<times> 'd sworld" where
  "s_close fd w = (if fd \<in> set (sw_open w) then (0, w\<lparr>sw_open := removeAll fd (sw_open w), sw_interest := filter (\<lambda>x. fst x \<noteq> fd) (sw_interest w)\<rparr>)
     else (- 1, w))"

definition s_accept :: "int \<Rightarrow> 'd sworld \<Rightarrow> (int \<times> int) \<times> 'd sworld" where
  "s_accept ls w = (if sw_backlog w = 0 then ((- 1, EAGAIN), w)
     else case s_open (w\<lparr>sw_backlog := sw_backlog w - 1\<rparr>) of (fd, w) \<Rightarrow> ((fd, 0), w))"

definition s_clock :: "'d sworld clock" where
  "s_clock w = (\<lparr>tv_sec = 7, tv_nsec = 0\<rparr>, w)"

definition sample_env :: "'d sworld env" where
  "sample_env = \<lparr>
     e_malloc = (\<lambda>n w. (Some (\<lambda>_. 0), w)), e_clock = s_clock,
     e_read = s_read, e_write = s_write, e_accept4 = s_accept, e_close = s_close,
     e_socket = s_open, e_fcntl_nonblock = (\<lambda>fd w. (0, w)), e_bind = (\<lambda>fd p a w. (0, w)),
     e_listen = (\<lambda>fd n w. (0, w)), e_timerfd_create = s_open,
     e_timerfd_settime = (\<lambda>fd a b w. (0, w)), e_sigaction_usr1 = (\<lambda>w. (0, w)),
     e_sigemptyset = (\<lambda>w. (0, w)), e_sigaddset_usr1 = (\<lambda>w. (0, w)),
     e_sigprocmask = (\<lambda>b w. (0, w))\<rparr>"

lemmas sample_defs = sview_def s_open_def s_read_def s_write_def s_close_def s_accept_def
  s_clock_def sample_env_def

lemma fold_max_start: "(a :: int) \<le> fold max xs a"
proof (induction xs arbitrary: a)
  case (Cons x xs)
  show ?case using Cons.IH [of "max x a"] by simp
qed simp

lemma fold_max_ge: "x \<in> set xs \<Longrightarrow> (x :: int) \<le> fold max xs a"
proof (induction xs arbitrary: a)
  case (Cons y ys)
  then show ?case using fold_max_start [of "max y a" ys] by auto
qed simp

lemma s_fresh_new [simp]: "s_fresh w \<notin> set (sw_open w)" "\<not> s_fresh w < 0"
  using fold_max_start [of 2 "sw_open w"] fold_max_ge [of "s_fresh w" "sw_open w" 2] by (auto simp: s_fresh_def)

lemma s_fresh_backlog [simp]: "s_fresh (w\<lparr>sw_backlog := n\<rparr>) = s_fresh w"
  by (simp add: s_fresh_def)

text \<open>The contracts, for every environment that extends the sample.\<close>

definition like_sample :: "('d sworld, 'x) env_scheme \<Rightarrow> bool" where
  "like_sample env \<longleftrightarrow> env.truncate env = sample_env"

lemma like_sampleD:
  assumes "like_sample env"
  shows "e_malloc env = (\<lambda>n w. (Some (\<lambda>_. 0), w))" "e_clock env = s_clock"
    "e_read env = s_read" "e_write env = s_write" "e_accept4 env = s_accept" "e_close env = s_close"
    "e_socket env = s_open" "e_fcntl_nonblock env = (\<lambda>fd w. (0, w))" "e_bind env = (\<lambda>fd p a w. (0, w))"
    "e_listen env = (\<lambda>fd n w. (0, w))" "e_timerfd_create env = s_open"
    "e_timerfd_settime env = (\<lambda>fd a b w. (0, w))" "e_sigaction_usr1 env = (\<lambda>w. (0, w))"
    "e_sigemptyset env = (\<lambda>w. (0, w))" "e_sigaddset_usr1 env = (\<lambda>w. (0, w))"
    "e_sigprocmask env = (\<lambda>b w. (0, w))"
  using assms by (simp_all add: like_sample_def env.truncate_def sample_env_def)

lemma sample_kernel: "like_sample env \<Longrightarrow> kernel_spec env sview"
  unfolding kernel_spec_def read_spec_def write_spec_def accept_spec_def close_spec_def quiet_spec_def
  by (intro conjI)
    (auto simp: like_sampleD sample_defs same_view_def clock_ts_def total_ns_def split: list.splits)

lemma sample_close_reliable: "like_sample env \<Longrightarrow> close_reliable env sview"
  by (simp add: close_reliable_def like_sampleD sample_defs)

lemma sample_setup: "like_sample env \<Longrightarrow> setup_spec env sview"
  by (simp add: setup_spec_def opens_fresh_def like_sampleD sample_defs)

text \<open>A fresh world: descriptors 0, 1, 2 and one connection waiting.\<close>

definition sample_world :: "(int \<Rightarrow> byte list list) \<Rightarrow> int list \<Rightarrow> 'd sworld" where
  "sample_world mail ready = \<lparr>sw_open = [2, 1, 0], sw_mail = mail, sw_ready = ready,
     sw_got = (\<lambda>_. []), sw_sent = (\<lambda>_. []), sw_backlog = 1, sw_interest = []\<rparr>"

theorem read_n_echo_exact_witness:
  "\<exists>w2. read_n_echo sample_env \<lparr>DO_BENCH = False, MEASURE_LATENCY = False, DEFAULT_BUFFER_SIZE = 2\<rparr> 4 [0, 0, 0] 3
       (sample_world (\<lambda>_. [[5, 6]]) []) = Inr (2, [5, 6, 0], w2) \<and> kv_out sview w2 4 = [5, 6]"
  using read_n_echo_exact [of sample_env sview 3 "[0, 0, 0]" 4 "sample_world (\<lambda>_. [[5, 6]]) []" 2 "[5, 6]"
      "(sample_world (\<lambda>_. [[5, 6]]) [])\<lparr>sw_mail := (\<lambda>_. [[5, 6]])(4 := []), sw_got := (\<lambda>_. [])(4 := [5, 6])\<rparr>"
      "\<lparr>DO_BENCH = False, MEASURE_LATENCY = False, DEFAULT_BUFFER_SIZE = 2\<rparr>"]
    kernel_specD(1,2) [OF sample_kernel [of sample_env]]
  by (auto simp: like_sample_def env.truncate_def sample_env_def s_read_def s_write_def sample_world_def sview_def)

end
