(* ===== verification/PollClaims.thy ===== *)
theory PollClaims
  imports PollRounds SampleKernel
begin

text \<open>
  The claims about the parts of the poll server: start-up, the rounds, the loop over the events,
  the end of the server, and the two ways in which it fails (a full vector, an absent client).
\<close>

subsection \<open>Start-up\<close>

text \<open>\<open>main\<close> up to the loop: the listening socket, the timer and the state.\<close>

definition poll_start ::
    "config \<Rightarrow> ('w, 'x) poll_env_scheme \<Rightarrow> (nat \<Rightarrow> byte list option) \<Rightarrow> 16 word \<Rightarrow> int \<Rightarrow> 'w
     \<Rightarrow> (int \<times> int \<times> 'w poll_state) res" where
  "poll_start cfg env malloc port warmup w =
     bindE (poll_setup cfg env malloc port w) (\<lambda>(ls, s).
     bindE (service_loop_init cfg env warmup ls s) (\<lambda>(timer, s). Inr (ls, timer, s)))"

lemma pollfdv_create_safe:
  assumes "quiet_spec env v"
  shows "safeE (\<lambda>(pv, w'). same_view v w w' \<and> pv_inv pv \<and> pv_entries pv = [] \<and> pv_size pv = 0
     \<and> pv_capacity pv = 16) (pollfdv_create env w)"
proof -
  obtain d w1 where 1: "e_malloc env 128 w = (d, w1)" by force
  obtain p w2 where 2: "e_malloc env 128 w1 = (p, w2)" by force
  have "same_view v w w1" "same_view v w1 w2"
    using assms 1 2 unfolding quiet_spec_def by (metis snd_conv)+
  then have "same_view v w w2" by (rule same_view_trans)
  then show ?thesis
    using 1 2 by (simp add: pollfdv_create_def pv_inv_def pv_entries_def DATA_INITIAL_SIZE_def Let_def)
qed

text \<open>What \<open>main\<close> hands to the service loop, and what the loop starts with.\<close>

definition setup_post :: "config \<Rightarrow> 'w kview \<Rightarrow> 'w \<Rightarrow> int \<times> 'w poll_state \<Rightarrow> bool" where
  "setup_post cfg v w = (\<lambda>(ls, s). opened v w ls (world s) \<and> pv_inv (pollfdv s) \<and> pv_entries (pollfdv s) = []
     \<and> pv_size (pollfdv s) = 0 \<and> pv_capacity (pollfdv s) = 16 \<and> conns s = empty_heap \<and> server_running s = 1
     \<and> (DO_BENCH cfg \<longrightarrow> bench_inv (bench s) \<and> client_no (bench s) = 0))"

lemma poll_setup_safe:
  assumes K: "kernel_spec env v" "setup_spec env v" and M: "malloc_spec malloc"
  shows "safeE (setup_post cfg v w) (poll_setup cfg env malloc port w)"
proof -
  let ?B = "\<lambda>b. DO_BENCH cfg \<longrightarrow> bench_inv b \<and> client_no b = 0"
  have "safeE ?B (if DO_BENCH cfg then sb_create malloc 10000000
            else Inr \<lparr>do_measure = 0, client_no = 0, request_no = 0, meas_start_time = zero_ts,
              meas_end_time = zero_ts, event_latency = \<lparr>mc_entry_size = 0, mc_capacity = 0,
              mc_size = 0, mc_ptr = None\<rparr>\<rparr>)"
    by (rule bench_setup_safe [OF M])
  moreover have "safeE (setup_post cfg v w) (bindE (pollfdv_create env w) (\<lambda>(pv, w).
     bindE (register_signal_handler env w) (\<lambda>w.
     bindE (create_ipv4_listening_socket env port w) (\<lambda>(ls, w).
     Inr (ls, \<lparr>pollfdv = pv, bench = b, conns = empty_heap, server_running = 1, world = w\<rparr>)))))"
    if b: "?B b" for b
  proof -
    have rest: "safeE (setup_post cfg v w) (bindE (register_signal_handler env w1) (\<lambda>w.
        bindE (create_ipv4_listening_socket env port w) (\<lambda>(ls, w).
        Inr (ls, \<lparr>pollfdv = pv, bench = b, conns = empty_heap, server_running = 1, world = w\<rparr>))))"
      if pv: "same_view v w w1" "pv_inv pv" "pv_entries pv = []" "pv_size pv = 0" "pv_capacity pv = 16" for pv w1
    proof -
      have sock: "safeE (setup_post cfg v w) (bindE (create_ipv4_listening_socket env port w2) (\<lambda>(ls, w).
          Inr (ls, \<lparr>pollfdv = pv, bench = b, conns = empty_heap, server_running = 1, world = w\<rparr>)))"
        if w2: "same_view v w1 w2" for w2
        unfolding safeE_bindE
        by (rule safeE_mono [OF listening_socket_safe [OF K(2)]])
          (use pv b same_then_opened [OF same_view_trans [OF pv(1) w2]] in \<open>auto simp: setup_post_def\<close>)
      show ?thesis
        unfolding safeE_bindE
        by (rule safeE_mono [OF signal_handler_safe [OF K(2)]]) (use sock in simp)
    qed
    show ?thesis
      unfolding safeE_bindE
      by (rule safeE_mono [OF pollfdv_create_safe [OF kernel_specD(5) [OF K(1)]]]) (use rest in auto)
  qed
  ultimately show ?thesis
    unfolding poll_setup_def safeE_bindE by (rule safeE_mono) simp
qed

lemma signal_masks_safe:
  assumes S: "setup_spec env v"
  shows "safeE (same_view v w) (init_signal_masks env w)"
proof -
  obtain r1 w1 where 1: "e_sigprocmask env False w = (r1, w1)" by force
  obtain r2 w2 where 2: "e_sigemptyset env w1 = (r2, w2)" by force
  obtain r3 w3 where 3: "e_sigaddset_usr1 env w2 = (r3, w3)" by force
  have "same_view v w w3"
    using setup_specD(8,9,10) [OF S] 1 2 3 same_view_trans by metis
  then show ?thesis by (simp add: init_signal_masks_def 1 2 3)
qed

definition started :: "config \<Rightarrow> 'w kview \<Rightarrow> int \<Rightarrow> 'w poll_state \<Rightarrow> int \<times> 'w poll_state \<Rightarrow> bool" where
  "started cfg v ls s = (\<lambda>(timer, s'). poll_inv cfg v ls timer s' \<and> keeps v s s' \<and> may_accept cfg s'
     \<and> conns s' = empty_heap \<and> server_running s' = server_running s
     \<and> fd_ptrs s' = (ls, None) # (if DO_BENCH cfg then [(timer, None)] else [])
     \<and> (if DO_BENCH cfg then timer \<notin> kv_open v (world s) \<and> 0 \<le> timer
          \<and> kv_open v (world s') = insert timer (kv_open v (world s))
        else timer = - 1 \<and> kv_open v (world s') = kv_open v (world s)))"

text \<open>The two entries of a vector just created.\<close>

lemma first_entries:
  assumes "pv_inv pv" "pv_entries pv = []" "pv_size pv = 0" "pv_capacity pv = 16"
  shows "pollfdv_add env a p (pv, w) = Inr (appended_vec a p pv, w)"
    and "pollfdv_add env b q (appended_vec a p pv, w) = Inr (appended_vec b q (appended_vec a p pv), w)"
    and "pv_inv (appended_vec a p pv)" "pv_entries (appended_vec a p pv) = [(a, p)]"
    and "pv_inv (appended_vec b q (appended_vec a p pv))"
    and "pv_entries (appended_vec b q (appended_vec a p pv)) = [(a, p), (b, q)]"
    and "pv_size (appended_vec a p pv) < pv_capacity (appended_vec a p pv)"
    and "pv_size (appended_vec b q (appended_vec a p pv)) < pv_capacity (appended_vec b q (appended_vec a p pv))"
proof -
  have lt: "pv_size pv < pv_capacity pv" using assms by simp
  note A = appended_inv [OF assms(1) lt refl, of a p]
  show lt1: "pv_size (appended_vec a p pv) < pv_capacity (appended_vec a p pv)"
    using assms by (simp add: appended_vec_def)
  show "pollfdv_add env a p (pv, w) = Inr (appended_vec a p pv, w)"
    using assms(1) lt by (rule add_room_eq)
  show "pv_inv (appended_vec a p pv)" "pv_entries (appended_vec a p pv) = [(a, p)]"
    using A assms(2) by simp_all
  show "pollfdv_add env b q (appended_vec a p pv, w) = Inr (appended_vec b q (appended_vec a p pv), w)"
    using A lt1 by (intro add_room_eq) auto
  show "pv_inv (appended_vec b q (appended_vec a p pv))"
    "pv_entries (appended_vec b q (appended_vec a p pv)) = [(a, p), (b, q)]"
    using appended_inv [OF _ lt1 refl, of b q] A assms(2) by simp_all
  show "pv_size (appended_vec b q (appended_vec a p pv)) < pv_capacity (appended_vec b q (appended_vec a p pv))"
    using assms by (simp add: appended_vec_def)
qed

lemma start_conn_inv:
  assumes "0 \<le> ls" "ls \<in> opn" "timer = - 1 \<and> es = [] \<or> 0 \<le> timer \<and> timer \<noteq> ls \<and> timer \<in> opn \<and> es = [(timer, None)]"
  shows "conn_inv n opn ls timer empty_heap ((ls, None) # es)"
  using assms by (auto simp: conn_inv_def pair_ok_def special_fd_def empty_heap_def heap_ok_def)

lemma service_loop_init_safe:
  assumes K: "setup_spec env v" and S: "setup_post cfg v w0 (ls, s)"
  shows "safeE (started cfg v ls s) (service_loop_init cfg env warmup ls s)"
proof -
  let ?T = "\<lambda>(t, w1). if DO_BENCH cfg then opened v (world s) t w1 else t = - 1 \<and> w1 = world s"
  have ls: "0 \<le> ls" "ls \<in> kv_open v (world s)" using S by (auto simp: setup_post_def opened_def)
  have P: "pv_inv (pollfdv s)" "pv_entries (pollfdv s) = []" "pv_size (pollfdv s) = 0" "pv_capacity (pollfdv s) = 16"
    using S by (simp_all add: setup_post_def)
  note F = first_entries [OF P]
  let ?d = "\<lambda>fd. \<lparr>pf_fd = fd, pf_events = POLLIN, pf_revents = 0\<rparr>"
  have timer: "safeE ?T (if DO_BENCH cfg then create_warmup_timer env warmup (world s) else Inr (- 1, world s))"
    using warmup_timer_safe [OF K] by (auto elim!: safeE_mono)
  have fin: "safeE (started cfg v ls s) (bindE (poll_add_fd env ls POLLIN None (s\<lparr>world := w2\<rparr>)) (\<lambda>s.
     bindE (if DO_BENCH cfg then poll_add_fd env t POLLIN None s else Inr s) (\<lambda>s.
     case e_sigprocmask env True (world s) of (rc, w) \<Rightarrow>
     bindE (assert_zero rc ''sigprocmask'') (\<lambda>_. Inr (t, s\<lparr>world := w\<rparr>)))))"
    if T: "?T (t, w1)" and w2: "same_view v w1 w2" for t w1 w2
  proof -
    let ?v1 = "appended_vec (?d ls) None (pollfdv s)"
    let ?v = "if DO_BENCH cfg then appended_vec (?d t) None ?v1 else ?v1"
    obtain rc w3 where c: "e_sigprocmask env True w2 = (rc, w3)" by force
    have w3: "same_view v w1 w3" using w2 setup_specD(10) [OF K c] by (rule same_view_trans)
    let ?s = "s\<lparr>pollfdv := ?v, world := w3\<rparr>"
    have o: "kv_open v w3 = kv_open v w1" "echoed v w1 \<Longrightarrow> echoed v w3"
      using w3 by (simp_all add: same_view_def echoed_def)
    have fp: "fd_ptrs ?s = (ls, None) # (if DO_BENCH cfg then [(t, None)] else [])" "fd_ptrs s = []"
      using F(4,6) P(2) by (simp_all add: fd_ptrs_def)
    have op1: "kv_open v w1 = (if DO_BENCH cfg then insert t (kv_open v (world s)) else kv_open v (world s))"
      using T by (auto simp: opened_def split: if_splits)
    then have "loose v ?s \<subseteq> loose v s" using fp o(1) T by (auto simp: loose_def opened_def)
    then have opn: "kv_open v w1 = (if DO_BENCH cfg then insert t (kv_open v (world s)) else kv_open v (world s))"
      "keeps v s ?s"
      using op1 T o opened_echoed [of v "world s" t w1] by (auto simp: keeps_def split: if_splits)
    have ci: "conn_inv n (kv_open v w1) ls t empty_heap ((ls, None) # (if DO_BENCH cfg then [(t, None)] else []))" for n
      using ls T opn(1) by (intro start_conn_inv) (auto simp: opened_def split: if_splits)
    have "started cfg v ls s (t, ?s)"
      using F(3,5,7,8) fp(1) opn T S ci o(1)
      by (auto simp: started_def poll_inv_def setup_post_def may_accept_def opened_def)
    then show ?thesis
      using c by (cases "DO_BENCH cfg") (simp_all add: poll_add_fd_def F(1,2))
  qed
  show ?thesis
    unfolding service_loop_init_def safeE_bindE
  proof (rule safeE_mono [OF timer])
    fix x assume "?T x"
    obtain t w1 where x: "x = (t, w1)" by force
    show "safeE (started cfg v ls s) (case x of (timer_fd, w) \<Rightarrow>
      bindE (init_signal_masks env w) (\<lambda>w.
     bindE (poll_add_fd env ls POLLIN None (s\<lparr>world := w\<rparr>)) (\<lambda>s.
     bindE (if DO_BENCH cfg then poll_add_fd env timer_fd POLLIN None s else Inr s) (\<lambda>s.
     case e_sigprocmask env True (world s) of (rc, w) \<Rightarrow>
     bindE (assert_zero rc ''sigprocmask'') (\<lambda>_. Inr (timer_fd, s\<lparr>world := w\<rparr>))))))"
      unfolding x prod.case
    proof (subst safeE_bindE, rule safeE_mono [OF signal_masks_safe [OF K]], goal_cases)
      case (1 w2)
      then show ?case using fin [of t w1 w2] \<open>?T x\<close> x by blast
    qed
  qed
qed

subsection \<open>The end\<close>

lemma close_fd_ok:
  assumes C: "close_spec env v" "close_reliable env v" and f: "f \<in> kv_open v (world s)"
  shows "\<exists>w. (\<forall>m. close_fd env f m s = Inr (s\<lparr>world := w\<rparr>)) \<and> kv_open v w = kv_open v (world s) - {f}
     \<and> kv_in v w = kv_in v (world s) \<and> kv_out v w = kv_out v (world s)"
proof -
  obtain rc w where c: "e_close env f (world s) = (rc, w)" by force
  have "rc = 0" using C(2) f c unfolding close_reliable_def by (metis fst_conv)
  then show ?thesis
    using C(1) [unfolded close_spec_def, rule_format, OF c] c by (auto simp: close_fd_def)
qed

text \<open>The pairs still to be cleaned up own what is left on the heap.\<close>

definition cleanup_inv :: "int set \<Rightarrow> int \<Rightarrow> int \<Rightarrow> pd_echo_connection heap \<Rightarrow> (int \<times> ptr) list \<Rightarrow> bool" where
  "cleanup_inv opn ls timer h fps \<longleftrightarrow>
     (\<forall>(f, p) \<in> set fps. f \<in> opn \<and> (if special_fd ls timer f then p = None else p \<noteq> None \<and> cells h (the p) \<noteq> None))
     \<and> distinct (map fst fps) \<and> distinct (filter (\<lambda>p. p \<noteq> None) (map snd fps))
     \<and> (\<forall>a. cells h a \<noteq> None \<longrightarrow> Some a \<in> snd ` set fps)"

lemma cleanup_inv_tail:
  assumes inv: "cleanup_inv opn ls timer h ((f, p) # fps)"
    and h': "cells h' = (case p of None \<Rightarrow> cells h | Some a \<Rightarrow> (cells h)(a := None))"
  shows "cleanup_inv (opn - {f}) ls timer h' fps" "cleanup_inv opn ls timer h' fps"
proof -
  have own: "(g, Some a) \<in> set fps \<Longrightarrow> p \<noteq> Some a" for g a
    using inv by (auto simp: cleanup_inv_def image_iff split: if_splits)
  have pr: "\<forall>(g, q) \<in> set fps. g \<in> opn - {f} \<and> (if special_fd ls timer g then q = None else q \<noteq> None \<and> cells h' (the q) \<noteq> None)"
  proof clarify
    fix g q assume gq: "(g, q) \<in> set fps"
    have "g \<noteq> f" using inv gq by (auto simp: cleanup_inv_def image_iff)
    moreover have "g \<in> opn" "if special_fd ls timer g then q = None else q \<noteq> None \<and> cells h (the q) \<noteq> None"
      using inv gq by (auto simp: cleanup_inv_def)
    ultimately show "g \<in> opn - {f} \<and> (if special_fd ls timer g then q = None else q \<noteq> None \<and> cells h' (the q) \<noteq> None)"
      using own [of g] gq h' by (auto split: option.splits if_splits)
  qed
  have d: "distinct (map fst fps)" "distinct (filter (\<lambda>p. p \<noteq> None) (map snd fps))"
    using inv by (auto simp: cleanup_inv_def split: if_splits)
  have c: "\<forall>a. cells h' a \<noteq> None \<longrightarrow> Some a \<in> snd ` set fps"
    using inv h' by (auto simp: cleanup_inv_def split: option.splits if_splits)
  show "cleanup_inv (opn - {f}) ls timer h' fps" using pr d c by (simp add: cleanup_inv_def)
  then show "cleanup_inv opn ls timer h' fps" by (auto simp: cleanup_inv_def)
qed

lemma cleanup_inv_head:
  assumes "cleanup_inv opn ls timer h ((f, p) # fps)"
  shows "f \<in> opn" "special_fd ls timer f \<Longrightarrow> p = None" "f \<notin> fst ` set fps"
    "\<not> special_fd ls timer f \<Longrightarrow> \<exists>a c. p = Some a \<and> cells h a = Some c"
  using assms by (auto simp: cleanup_inv_def)

definition pairs_at :: "'w poll_state \<Rightarrow> nat list \<Rightarrow> (int \<times> ptr) list" where
  "pairs_at s is = map (\<lambda>i. (pf_fd (pv_data (pollfdv s) ! i), pv_pd (pollfdv s) ! i)) is"

definition cleaned :: "'w kview \<Rightarrow> int \<Rightarrow> (int \<times> ptr) list \<Rightarrow> 'w poll_state \<Rightarrow> 'w poll_state \<Rightarrow> bool" where
  "cleaned v ls fps s s' \<longleftrightarrow> (\<forall>a. cells (conns s') a = None) \<and> pollfdv s' = pollfdv s \<and> bench s' = bench s
     \<and> kv_open v (world s') = kv_open v (world s) - (fst ` set fps - {ls})
     \<and> kv_in v (world s') = kv_in v (world s) \<and> kv_out v (world s') = kv_out v (world s)"

lemma cleanup_entries_ok:
  assumes C: "close_spec env v" "close_reliable env v"
  shows "cleanup_inv (kv_open v (world s)) ls timer (conns s) (pairs_at s is) \<Longrightarrow>
     \<forall>i \<in> set is. i < length (pv_data (pollfdv s)) \<and> i < length (pv_pd (pollfdv s)) \<Longrightarrow>
     okE (cleaned v ls (pairs_at s is) s) (cleanup_entries env ls timer is s)"
proof (induction "is" arbitrary: s)
  case Nil
  then show ?case by (simp add: cleaned_def pairs_at_def cleanup_inv_def)
next
  case (Cons i "is")
  let ?f = "pf_fd (pv_data (pollfdv s) ! i)" and ?p = "pv_pd (pollfdv s) ! i"
  have inv: "cleanup_inv (kv_open v (world s)) ls timer (conns s) ((?f, ?p) # pairs_at s is)"
    using Cons.prems(1) by (simp add: pairs_at_def)
  note H = cleanup_inv_head [OF inv] and T = cleanup_inv_tail [OF inv]
  show ?case
  proof (cases "?f = ls")
    case True
    then have p: "?p = None" using H(2) by (simp add: special_fd_def)
    have "okE (cleaned v ls (pairs_at s is) s) (cleanup_entries env ls timer is s)"
      using T(2) [of "conns s"] p Cons.prems(2) by (intro Cons.IH) auto
    moreover have "fst ` set (pairs_at s (i # is)) - {ls} = fst ` set (pairs_at s is) - {ls}"
      using True by (simp add: pairs_at_def)
    ultimately show ?thesis
      using True Cons.prems(2) by (simp add: cleaned_def [abs_def])
  next
    case False
    obtain w where w: "close_fd env ?f m s = Inr (s\<lparr>world := w\<rparr>)" "kv_open v w = kv_open v (world s) - {?f}"
      "kv_in v w = kv_in v (world s)" "kv_out v w = kv_out v (world s)" for m
      using close_fd_ok [OF C H(1)] by blast
    obtain h where h: "hfree ?p (conns s) = Inr h"
      "cells h = (case ?p of None \<Rightarrow> cells (conns s) | Some a \<Rightarrow> (cells (conns s))(a := None))"
      using H(2,4) by (cases "special_fd ls timer ?f") auto
    let ?s = "s\<lparr>world := w, conns := h\<rparr>"
    have "okE (cleaned v ls (pairs_at ?s is) ?s) (cleanup_entries env ls timer is ?s)"
      using T(1) [OF h(2)] w(2) Cons.prems(2) by (intro Cons.IH) (simp_all add: pairs_at_def)
    moreover have "kv_open v (world s) - {?f} - (F - {ls}) = kv_open v (world s) - (insert ?f F - {ls})" for F
      using False by auto
    ultimately have "okE (cleaned v ls (pairs_at s (i # is)) s) (cleanup_entries env ls timer is ?s)"
      using w(2-4) by (simp add: cleaned_def [abs_def] pairs_at_def)
    moreover have "cleanup_entries env ls timer (i # is) s = cleanup_entries env ls timer is ?s"
      using False Cons.prems(2) w(1) h(1) by (auto simp: close_timer_def)
    ultimately show ?thesis by simp
  qed
qed

lemma pairs_at_fd_ptrs:
  assumes "pv_inv (pollfdv s)"
  shows "pairs_at s [0..<unat (pv_size (pollfdv s))] = fd_ptrs s"
  using assms by (intro nth_equalityI) (auto simp: pairs_at_def length_fd_ptrs fd_ptrs_def nth_pv_entries)

lemma cleanup_inv_start:
  assumes inv: "poll_inv cfg v ls timer s" and live: "- 1 \<notin> fst ` set (fd_ptrs s)"
  shows "cleanup_inv (kv_open v (world s)) ls timer (conns s) (fd_ptrs s)"
proof -
  note C = poll_invD(3) [OF inv]
  have "filter (\<lambda>f. f \<noteq> - 1) (map fst (fd_ptrs s)) = map fst (fd_ptrs s)"
    using live by (intro filter_True) force
  then have d: "distinct (map fst (fd_ptrs s))" using conn_invD(6) [OF C] by simp
  have "\<forall>(f, p) \<in> set (fd_ptrs s). f \<in> kv_open v (world s)
      \<and> (if special_fd ls timer f then p = None else p \<noteq> None \<and> cells (conns s) (the p) \<noteq> None)"
  proof clarify
    fix f p assume fp: "(f, p) \<in> set (fd_ptrs s)"
    then have "f \<noteq> - 1" using live by force
    then show "f \<in> kv_open v (world s)
      \<and> (if special_fd ls timer f then p = None else p \<noteq> None \<and> cells (conns s) (the p) \<noteq> None)"
      using conn_invD(5) [OF C fp] by (auto simp: pair_ok_def own_con_def)
  qed
  then show ?thesis
    using d conn_invD(7,8) [OF C] by (simp add: cleanup_inv_def)
qed

lemma client_cleanup_ok:
  assumes C: "close_spec env v" "close_reliable env v"
    and inv: "poll_inv cfg v ls timer s" and live: "- 1 \<notin> fst ` set (fd_ptrs s)"
  shows "okE (cleaned v ls (fd_ptrs s) s) (do_client_connections_cleanup env ls timer s)"
proof -
  note V = poll_invD(1) [OF inv]
  have "okE (cleaned v ls (pairs_at s [0..<unat (pv_size (pollfdv s))]) s)
      (cleanup_entries env ls timer [0..<unat (pv_size (pollfdv s))] s)"
    using cleanup_inv_start [OF inv live] V
    by (intro cleanup_entries_ok [OF C]) (auto simp: pairs_at_fd_ptrs pv_inv_def)
  then show ?thesis unfolding do_client_connections_cleanup_def pairs_at_fd_ptrs [OF V] .
qed

text \<open>Without the assumption that closing works: the cleanup frees what it owns or exits.\<close>

definition owned_pairs :: "int \<Rightarrow> int \<Rightarrow> pd_echo_connection heap \<Rightarrow> (int \<times> ptr) list \<Rightarrow> bool" where
  "owned_pairs ls timer h fps \<longleftrightarrow>
     (\<forall>(f, p) \<in> set fps. if special_fd ls timer f then p = None else p \<noteq> None \<and> cells h (the p) \<noteq> None)
     \<and> distinct (filter (\<lambda>p. p \<noteq> None) (map snd fps))"

lemma owned_pairs_step:
  assumes inv: "owned_pairs ls timer h ((f, p) # fps)"
  shows "\<exists>h'. hfree p h = Inr h' \<and> owned_pairs ls timer h' fps"
proof (cases p)
  case None
  then show ?thesis using inv by (auto simp: owned_pairs_def split: if_splits)
next
  case (Some a)
  then obtain c where c: "cells h a = Some c" using inv by (auto simp: owned_pairs_def split: if_splits)
  have fresh: "(g, Some a) \<notin> set fps" for g
    using inv Some by (auto simp: owned_pairs_def image_iff split: if_splits)
  have "if special_fd ls timer g then q = None
      else q \<noteq> None \<and> cells (h\<lparr>cells := (cells h)(a := None)\<rparr>) (the q) \<noteq> None"
    if gq: "(g, q) \<in> set fps" for g q
  proof -
    have "if special_fd ls timer g then q = None else q \<noteq> None \<and> cells h (the q) \<noteq> None"
      using inv gq by (auto simp: owned_pairs_def)
    moreover have "q \<noteq> Some a" using fresh gq by auto
    ultimately show ?thesis by (cases q) (auto split: if_splits)
  qed
  moreover have "distinct (filter (\<lambda>p. p \<noteq> None) (map snd fps))"
    using inv Some by (simp add: owned_pairs_def)
  ultimately have "owned_pairs ls timer (h\<lparr>cells := (cells h)(a := None)\<rparr>) fps"
    unfolding owned_pairs_def by blast
  then show ?thesis using c Some by simp
qed

lemma cleanup_entries_safe:
  assumes C: "close_spec env v" and ls: "ls \<noteq> - 1"
  shows "owned_pairs ls timer (conns s) (pairs_at s is) \<Longrightarrow> - 1 \<notin> kv_open v (world s) \<Longrightarrow>
     \<forall>i \<in> set is. i < length (pv_data (pollfdv s)) \<and> i < length (pv_pd (pollfdv s)) \<Longrightarrow>
     safeE (\<lambda>s'. - 1 \<notin> fst ` set (pairs_at s is)) (cleanup_entries env ls timer is s)"
proof (induction "is" arbitrary: s)
  case Nil
  then show ?case by (simp add: pairs_at_def)
next
  case (Cons i "is")
  let ?f = "pf_fd (pv_data (pollfdv s) ! i)" and ?p = "pv_pd (pollfdv s) ! i"
  have own: "owned_pairs ls timer (conns s) ((?f, ?p) # pairs_at s is)"
    using Cons.prems(1) by (simp add: pairs_at_def)
  then obtain h where h: "hfree ?p (conns s) = Inr h" "owned_pairs ls timer h (pairs_at s is)"
    using owned_pairs_step by blast
  let ?no = "\<lambda>s' :: 'a poll_state. - 1 \<notin> fst ` set (pairs_at s (i # is))"
  have rest: "safeE ?no (cleanup_entries env ls timer is s')"
    if s': "pollfdv s' = pollfdv s" "- 1 \<notin> kv_open v (world s')"
      "owned_pairs ls timer (conns s') (pairs_at s is)" "?f \<noteq> - 1" for s'
  proof -
    have "pairs_at s' is = pairs_at s is" using s' by (simp add: pairs_at_def)
    then have "safeE (\<lambda>_. - 1 \<notin> fst ` set (pairs_at s is)) (cleanup_entries env ls timer is s')"
      using Cons.IH [of s'] s' Cons.prems(3) by simp
    then show ?thesis
      by (rule safeE_mono) (use s'(4) in \<open>simp add: pairs_at_def\<close>)
  qed
  show ?case
  proof (cases "?f = ls")
    case True
    then have "?p = None" using own by (simp add: owned_pairs_def special_fd_def)
    then have "owned_pairs ls timer (conns s) (pairs_at s is)" using h by simp
    from rest [OF refl Cons.prems(2) this] show ?thesis using True ls Cons.prems(3) by simp
  next
    case False
    let ?m = "if timer \<noteq> - 1 \<and> ?f = timer then ''close'' else ''close client socket''"
    have eq: "cleanup_entries env ls timer (i # is) s = bindE (close_fd env ?f ?m s) (\<lambda>s.
        bindE (arr_get (pv_pd (pollfdv s)) i) (\<lambda>pd. bindE (hfree pd (conns s)) (\<lambda>h.
          cleanup_entries env ls timer is (s\<lparr>conns := h\<rparr>))))"
      using False Cons.prems(3) by (auto simp: close_timer_def)
    show ?thesis
      unfolding eq
    proof (subst safeE_bindE, rule safeE_mono [OF close_fd_safe [OF C]], elim exE conjE, goal_cases)
      case (1 s1 w)
      then have "?f \<in> kv_open v (world s)" by blast
      then have nf: "?f \<noteq> - 1" using Cons.prems(2) by metis
      have s1: "s1 = s\<lparr>world := w\<rparr>" "kv_open v w = kv_open v (world s) - {?f}" using 1 by blast+
      have "safeE ?no (cleanup_entries env ls timer is (s\<lparr>world := w, conns := h\<rparr>))"
        by (rule rest) (use nf s1(2) h(2) Cons.prems(2) in auto)
      then show ?case
        using h(1) Cons.prems(3) by (simp add: s1(1))
    qed
  qed
qed

subsection \<open>The sample kernel with ppoll\<close>

definition s_ppoll :: "(int \<times> 16 word) list \<Rightarrow> unit sworld \<Rightarrow> (int \<times> int \<times> 16 word list \<times> bool) \<times> unit sworld" where
  "s_ppoll ents w =
     (let revs = map (\<lambda>(fd, ev). if fd \<noteq> - 1 \<and> fd \<in> set (sw_ready w) then POLLIN else 0) ents
      in ((int (length (filter (\<lambda>r. r \<noteq> 0) revs)), 0, revs, False), w))"

definition sample_poll :: "unit sworld poll_env" where
  "sample_poll = env.extend sample_env (poll_env.fields
     (\<lambda>n w. (Some (\<lambda>_. zero_pollfd), w)) (\<lambda>n w. (Some (\<lambda>_. None), w)) s_ppoll)"

lemma sample_poll_simps [simp]:
  "like_sample sample_poll" "e_ppoll sample_poll = s_ppoll"
  "e_realloc_data sample_poll = (\<lambda>n w. (Some (\<lambda>_. zero_pollfd), w))"
  "e_realloc_pd sample_poll = (\<lambda>n w. (Some (\<lambda>_. None), w))"
  by (simp_all add: like_sample_def sample_poll_def env.extend_def env.truncate_def poll_env.fields_def sample_env_def)

lemma sample_ppoll: "ppoll_at sample_poll sview ls timer w"
  unfolding ppoll_at_def
  by (auto simp: s_ppoll_def Let_def length_filter_conv_card case_prod_beta split: if_splits)

subsection \<open>Claims\<close>

lemma start_inv:
  assumes "kernel_spec env v" "setup_spec env v" "malloc_spec malloc"
  shows "safeE (\<lambda>(ls, timer, s). poll_inv cfg v ls timer s \<and> may_accept cfg s \<and> conns s = empty_heap
     \<and> server_running s = 1 \<and> (echoed v w \<longrightarrow> echoed v (world s))
     \<and> fd_ptrs s = (ls, None) # (if DO_BENCH cfg then [(timer, None)] else [])
     \<and> kv_open v (world s) = kv_open v w \<union> {ls} \<union> (if DO_BENCH cfg then {timer} else {}))
     (poll_start cfg env malloc port warmup w)"
proof -
  have "safeE (\<lambda>(timer, s). poll_inv cfg v ls timer s \<and> may_accept cfg s \<and> conns s = empty_heap
      \<and> server_running s = 1 \<and> (echoed v w \<longrightarrow> echoed v (world s))
      \<and> fd_ptrs s = (ls, None) # (if DO_BENCH cfg then [(timer, None)] else [])
      \<and> kv_open v (world s) = kv_open v w \<union> {ls} \<union> (if DO_BENCH cfg then {timer} else {}))
      (service_loop_init cfg env warmup ls s0)" if S: "setup_post cfg v w (ls, s0)" for ls s0
  proof (rule safeE_mono [OF service_loop_init_safe [OF assms(2) S]])
    fix x assume st: "started cfg v ls s0 x"
    obtain timer s where x: "x = (timer, s)" by force
    have o: "opened v w ls (world s0)" and "server_running s0 = 1" using S by (simp_all add: setup_post_def)
    moreover have "kv_open v (world s0) = kv_open v w \<union> {ls}" using o by (simp add: opened_def)
    moreover have "echoed v w \<longrightarrow> echoed v (world s)"
      using st x opened_echoed [OF o] by (simp add: started_def keeps_def)
    moreover have "kv_open v (world s) = kv_open v (world s0) \<union> (if DO_BENCH cfg then {timer} else {})"
      using st x by (simp add: started_def split: if_splits)
    ultimately show "case x of (timer, s) \<Rightarrow> poll_inv cfg v ls timer s \<and> may_accept cfg s \<and> conns s = empty_heap
      \<and> server_running s = 1 \<and> (echoed v w \<longrightarrow> echoed v (world s))
      \<and> fd_ptrs s = (ls, None) # (if DO_BENCH cfg then [(timer, None)] else [])
      \<and> kv_open v (world s) = kv_open v w \<union> {ls} \<union> (if DO_BENCH cfg then {timer} else {})"
      using st by (simp add: x started_def)
  qed
  note init = this
  show ?thesis
    unfolding poll_start_def
  proof (subst safeE_bindE, rule safeE_mono [OF poll_setup_safe [OF assms(1,2,3)]], goal_cases)
    case (1 x)
    obtain ls s0 where x: "x = (ls, s0)" by force
    show ?case
      unfolding x prod.case safeE_bindE
      by (rule safeE_mono [OF init]) (use 1 x in auto)
  qed
qed

lemma start_loose:
  assumes "kernel_spec env v" "setup_spec env v" "malloc_spec malloc"
    and "poll_start cfg env malloc port warmup w = Inr (ls, start)"
  shows "loose v (snd start) \<subseteq> kv_open v w"
proof -
  have "poll_inv cfg v ls (fst start) (snd start)"
      "kv_open v (world (snd start)) = kv_open v w \<union> {ls} \<union> (if DO_BENCH cfg then {fst start} else {})"
      "fd_ptrs (snd start) = (ls, None) # (if DO_BENCH cfg then [(fst start, None)] else [])"
    using start_inv [OF assms(1-3), of cfg w port warmup] assms(4) by (auto split: prod.splits)
  moreover have "0 \<le> ls" "fst start \<noteq> - 1 \<Longrightarrow> 0 \<le> fst start"
    using conn_invD(2,4) [OF poll_invD(3) [OF calculation(1)]] by blast+
  moreover have "DO_BENCH cfg \<Longrightarrow> fst start \<noteq> - 1"
    using conn_invD(5) [OF poll_invD(3) [OF calculation(1)], of "(fst start, None)"] calculation(3,4)
    by (auto simp: pair_ok_def special_fd_def own_con_def)
  ultimately show ?thesis by (auto simp: loose_def)
qed

definition plain_cfg :: config where
  "plain_cfg = \<lparr>DO_BENCH = False, MEASURE_LATENCY = False, DEFAULT_BUFFER_SIZE = 2\<rparr>"

lemma plain_cfg_simps [simp]: "\<not> DO_BENCH plain_cfg" "DEFAULT_BUFFER_SIZE plain_cfg = 2" "\<not> MEASURE_LATENCY plain_cfg"
  by (simp_all add: plain_cfg_def)

lemma sample_initial [simp]: "echoed sview (sample_world mail ready)" "malloc_spec (\<lambda>_. None)"
  by (simp_all add: echoed_def sview_def sample_world_def malloc_spec_def)

text \<open>The sample's start-up: descriptor 3 listens.\<close>

definition demo_vec :: pollfd_vector where
  "demo_vec = \<lparr>pv_blk = 0, pv_data = (replicate 16 (zero_pollfd\<lparr>pf_fd := - 1\<rparr>))[0 := \<lparr>pf_fd = 3, pf_events = POLLIN, pf_revents = 0\<rparr>],
     pv_size = 1, pv_capacity = 16, pv_pd = (replicate 16 None)[0 := None]\<rparr>"

definition demo_state :: "(int \<Rightarrow> byte list list) \<Rightarrow> int list \<Rightarrow> unit sworld poll_state" where
  "demo_state mail ready = \<lparr>pollfdv = demo_vec,
     bench = \<lparr>do_measure = 0, client_no = 0, request_no = 0, meas_start_time = zero_ts, meas_end_time = zero_ts,
       event_latency = \<lparr>mc_entry_size = 0, mc_capacity = 0, mc_size = 0, mc_ptr = None\<rparr>\<rparr>,
     conns = empty_heap, server_running = 1,
     world = \<lparr>sw_open = [3, 2, 1, 0], sw_mail = mail, sw_ready = ready,
       sw_got = (\<lambda>_. [])(3 := []), sw_sent = (\<lambda>_. [])(3 := []), sw_backlog = 1, sw_interest = []\<rparr>\<rparr>"

lemma demo_start: "poll_start plain_cfg sample_poll (\<lambda>n. None) 8080 3 (sample_world mail ready)
    = Inr (3, - 1, demo_state mail ready)"
  by (simp add: poll_start_def poll_setup_def plain_cfg_def pollfdv_create_def like_sampleD DATA_INITIAL_SIZE_def
      Let_def register_signal_handler_def create_ipv4_listening_socket_def s_open_def s_fresh_def sample_world_def
      service_loop_init_def init_signal_masks_def poll_add_fd_def pollfdv_add_def zero_pollfd_def demo_state_def
      demo_vec_def)

lemmas demo_eval = demo_state_def demo_vec_def plain_cfg_def zero_pollfd_def DEFAULT_SERVER_BUFFER_SIZE_def
  like_sampleD s_ppoll_def s_accept_def s_open_def s_fresh_def s_read_def s_write_def s_close_def Let_def
  arr_get_def arr_set_def mem_read_def mem_write_def halloc_def empty_heap_def nth_list_update
  word_le_nat_alt word_less_nat_alt take_update_swap

lemmas poll_eval = poll_round_def do_ppoll_def service_events_def service_events_loop.simps serve_entry_def
  poll_handle_new_client_def accept_client_def poll_add_fd_def pollfdv_add_def clear_revents_def

lemma demo_round: "\<exists>s. poll_round plain_cfg sample_poll 3 (- 1, demo_state mail [3]) = Inr (- 1, s)
    \<and> pv_size (pollfdv s) = 2 \<and> sw_open (world s) = [4, 3, 2, 1, 0]"
  by (simp add: demo_eval poll_eval)

text \<open>C1: in every state the poll server reaches from its start-up by rounds in which
  \<open>ppoll\<close> keeps its contract and the vector has room, the invariant holds (entries,
  connection objects and open descriptors agree; nothing is shared, leaked or dangling), every
  byte read from a client has been written back to it, in order, no descriptor has been opened
  that no entry holds, and the next round has no undefined behaviour and keeps this.\<close>

theorem poll_rounds_correct:
  assumes "kernel_spec env v" "setup_spec env v" "malloc_spec malloc" "echoed v w"
    and "poll_start cfg env malloc port warmup w = Inr (ls, start)"
    and "poll_rounds cfg env v ls start (timer, s)"
  shows "poll_inv cfg v ls timer s \<and> echoed v (world s) \<and> loose v s \<subseteq> kv_open v w
     \<and> (ppoll_at env v ls timer (world s) \<longrightarrow> may_accept cfg s \<longrightarrow>
          safeE (\<lambda>(timer', s'). poll_inv cfg v ls timer' s' \<and> echoed v (world s')) (poll_round cfg env ls (timer, s)))"
proof -
  have st: "poll_inv cfg v ls (fst start) (snd start)" "echoed v (world (snd start))"
      "loose v (snd start) \<subseteq> kv_open v w"
    using start_inv [OF assms(1-3), of cfg w port warmup] start_loose [OF assms(1-3,5)] assms(4,5) by (auto split: prod.splits)
  have inv: "poll_inv cfg v ls timer s" and e: "echoed v (world s)" and l: "loose v s \<subseteq> kv_open v w"
    using rounds_inv [OF assms(6,1) st(1)] st(2,3) by (auto simp: keeps_def)
  have "safeE (\<lambda>(timer', s'). poll_inv cfg v ls timer' s' \<and> echoed v (world s')) (poll_round cfg env ls (timer, s))"
    if "ppoll_at env v ls timer (world s)" "may_accept cfg s"
    by (rule safeE_mono [OF poll_round_safe [OF assms(1) that(1) inv that(2)]])
      (use e in \<open>auto simp: round_post_def keeps_def\<close>)
  with inv e l show ?thesis by blast
qed

theorem poll_rounds_correct_witness:
  "\<exists>ts. poll_round plain_cfg sample_poll 3 (- 1, demo_state (\<lambda>_. []) [3]) = Inr ts
     \<and> poll_inv plain_cfg sview 3 (fst ts) (snd ts) \<and> sw_open (world (snd ts)) = [4, 3, 2, 1, 0]
     \<and> loose sview (snd ts) \<subseteq> {0, 1, 2}"
proof -
  obtain s where s: "poll_round plain_cfg sample_poll 3 (- 1, demo_state (\<lambda>_. []) [3]) = Inr (- 1, s)"
      "sw_open (world s) = [4, 3, 2, 1, 0]"
    using demo_round by blast
  have "poll_rounds plain_cfg sample_poll sview 3 (- 1, demo_state (\<lambda>_. []) [3]) (- 1, s)"
    by (rule rounds_step [OF rounds_start _ sample_ppoll _ s(1)])
      (simp_all add: demo_state_def demo_vec_def may_accept_def)
  note P = poll_rounds_correct [OF _ _ _ _ demo_start this]
  have "kv_open sview (sample_world (\<lambda>_. []) [3] :: unit sworld) = {0, 1, 2}" by (auto simp: sview_def sample_world_def)
  with P s show ?thesis
    by (simp add: sample_kernel sample_setup)
qed

text \<open>C7: the loop of \<open>service_events\<close> serves every event \<open>ppoll\<close> reported, also when
  serving one removes or adds entries while the loop runs over them: its final assertion
  never fails.\<close>

theorem service_events_serves_all:
  assumes "kernel_spec env v" "ppoll_at env v ls timer (world s)" "poll_inv cfg v ls timer s" "may_accept cfg s"
    and "do_ppoll env s = Inr (n, errno, s')" "0 \<le> n"
  shows "service_events cfg env ls n (timer, count_events cfg n s')
     = service_all cfg env ls n (timer, count_events cfg n s')"
proof -
  have W: "wait_post cfg v ls (timer, s) (n, errno, s')"
    using do_ppoll_safe [OF assms(2,3)] assms(5) by simp
  then have "poll_inv cfg v ls timer s'" by (simp add: wait_post_def)
  then show ?thesis
    by (intro service_events_eq_all [OF assms(1)] waited_loop_inv [OF W assms(6,3,4)])
      (simp_all add: count_events_inv)
qed

theorem service_events_serves_all_witness:
  "\<exists>s'. do_ppoll sample_poll (demo_state (\<lambda>_. []) [3]) = Inr (1, 0, s')
     \<and> service_events plain_cfg sample_poll 3 1 (- 1, count_events plain_cfg 1 s')
       = service_all plain_cfg sample_poll 3 1 (- 1, count_events plain_cfg 1 s')"
proof -
  have i: "poll_inv plain_cfg sview 3 (- 1) (demo_state (\<lambda>_. []) [3])"
    using start_inv [of sample_poll sview "\<lambda>n. None" plain_cfg "sample_world (\<lambda>_. []) [3]" 8080 3]
    by (simp_all add: demo_start sample_kernel sample_setup)
  have m: "may_accept plain_cfg (demo_state (\<lambda>_. []) [3])"
    by (simp add: may_accept_def demo_state_def demo_vec_def)
  obtain s' where s': "do_ppoll sample_poll (demo_state (\<lambda>_. []) [3]) = Inr (1, 0, s')"
    by (simp add: demo_eval poll_eval)
  show ?thesis
    using service_events_serves_all [OF sample_kernel sample_ppoll i m s'] s' by simp
qed

text \<open>C15: shutting down from any such state in which no client is absent (no entry has descriptor
  -1), when closing an open descriptor succeeds, closes every client,
  the timer and the listening socket, frees every connection object once and the vector.\<close>

theorem poll_shutdown_releases:
  assumes "close_spec env v" "close_reliable env v" "poll_inv cfg v ls timer s" "- 1 \<notin> fst ` set (fd_ptrs s)"
  shows "okE (\<lambda>s'. (\<forall>a. cells (conns s') a = None) \<and> pv_data (pollfdv s') = [] \<and> pv_pd (pollfdv s') = []
     \<and> kv_open v (world s') = kv_open v (world s) - fst ` set (fd_ptrs s))
     (bindE (do_client_connections_cleanup env ls timer s) (do_exit_cleanup cfg env ls))"
proof -
  note C = poll_invD(3) [OF assms(3)]
  have ls: "ls \<in> fst ` set (fd_ptrs s)" "ls \<in> kv_open v (world s)"
    using conn_invD(3) [OF C] conn_inv_open [OF C] conn_invD(2) [OF C] by auto
  have "okE (\<lambda>s'. (\<forall>a. cells (conns s') a = None) \<and> pv_data (pollfdv s') = [] \<and> pv_pd (pollfdv s') = []
     \<and> kv_open v (world s') = kv_open v (world s) - fst ` set (fd_ptrs s)) (do_exit_cleanup cfg env ls s1)"
    if c: "cleaned v ls (fd_ptrs s) s s1" for s1
  proof -
    have "ls \<in> kv_open v (world s1)" using c ls by (simp add: cleaned_def)
    from close_fd_ok [OF assms(1,2) this] obtain w where w:
      "\<And>m. close_fd env ls m s1 = Inr (s1\<lparr>world := w\<rparr>)" "kv_open v w = kv_open v (world s1) - {ls}" by blast
    show ?thesis
      using c w ls(1) by (auto simp: do_exit_cleanup_def pollfdv_free_def cleaned_def Let_def)
  qed
  then show ?thesis
    unfolding okE_bindE by (rule okE_mono [OF client_cleanup_ok [OF assms]])
qed

theorem poll_shutdown_releases_witness:
  "okE (\<lambda>s'. (\<forall>a. cells (conns s') a = None) \<and> kv_open sview (world s') = {0, 1, 2})
     (bindE (do_client_connections_cleanup sample_poll 3 (- 1) (demo_state (\<lambda>_. []) [])) (do_exit_cleanup plain_cfg sample_poll 3))"
proof -
  have i: "poll_inv plain_cfg sview 3 (- 1) (demo_state (\<lambda>_. []) [])" "fd_ptrs (demo_state (\<lambda>_. []) []) = [(3, None)]"
    using start_inv [of sample_poll sview "\<lambda>n. None" plain_cfg "sample_world (\<lambda>_. []) []" 8080 3]
    by (simp_all add: demo_start sample_kernel sample_setup)
  have o: "kv_open sview (world (demo_state (\<lambda>_. []) [])) = {0, 1, 2, 3}"
    by (auto simp: sview_def demo_state_def)
  have "okE (\<lambda>s'. (\<forall>a. cells (conns s') a = None) \<and> pv_data (pollfdv s') = [] \<and> pv_pd (pollfdv s') = []
     \<and> kv_open sview (world s') = kv_open sview (world (demo_state (\<lambda>_. []) [])) - fst ` set (fd_ptrs (demo_state (\<lambda>_. []) [])))
     (bindE (do_client_connections_cleanup sample_poll 3 (- 1) (demo_state (\<lambda>_. []) [])) (do_exit_cleanup plain_cfg sample_poll 3))"
    by (rule poll_shutdown_releases [OF kernel_specD(4) [OF sample_kernel] sample_close_reliable i(1)])
      (simp_all add: i(2))
  then show ?thesis
    by (rule okE_mono) (simp add: i(2) o insert_Diff_if)
qed

text \<open>C25: accepting a client when the vector is full grows it with \<open>realloc\<close>, and
  \<open>service_events\<close> then clears \<open>revents\<close> through the pointer into the old block: a
  write after free. It happens whenever the sixteenth entry is in use.\<close>

theorem accept_into_full_vector:
  assumes "poll_inv cfg v ls timer s" "pv_size (pollfdv s) = pv_capacity (pollfdv s)"
    and "unat (pv_capacity (pollfdv s)) < 2 ^ 31" "i < pv_size (pollfdv s)"
    and "pf_fd (pv_data (pollfdv s) ! unat i) = ls" "pf_revents (pv_data (pollfdv s) ! unat i) AND POLLIN \<noteq> 0"
    and "accept_client env ls (world s) = Inr (c, w)" "\<forall>n w. fst (e_malloc env n w) \<noteq> None"
    and "\<forall>n w. fst (e_realloc_data env n w) \<noteq> None" "\<forall>n w. fst (e_realloc_pd env n w) \<noteq> None"
    and "DO_BENCH cfg \<longrightarrow> client_no (bench s) + 1 < 2 ^ 31"
  shows "serve_entry cfg env ls i (timer, s) = Inl (UB UseAfterFree)"
proof -
  note V = poll_invD(1) [OF assms(1)]
  obtain mem w1 where m: "e_malloc env (sizeof_con cfg) w = (Some mem, w1)"
    using assms(8) by (metis option.exhaust prod.collapse)
  let ?con = "\<lparr>con_buf_size = 0, con_buf = map (\<lambda>i. mem (4 + i)) [0..<DEFAULT_SERVER_BUFFER_SIZE cfg]\<rparr>"
  obtain a h where h: "halloc ?con (conns s) = (a, h)" by force
  have "okE (\<lambda>(v', w'). pv_blk v' \<noteq> pv_blk (pollfdv s))
      (pollfdv_add env \<lparr>pf_fd = c, pf_events = POLLIN, pf_revents = 0\<rparr> (Some a) (pollfdv s, w1))"
    by (rule okE_mono [OF add_total [OF V assms(3,9,10)]]) (use assms(2) in auto)
  then obtain pv w2 where pv: "pollfdv_add env \<lparr>pf_fd = c, pf_events = POLLIN, pf_revents = 0\<rparr> (Some a) (pollfdv s, w1) = Inr (pv, w2)"
      "pv_blk pv \<noteq> pv_blk (pollfdv s)" by (auto simp: okE_iff)
  obtain s' where s': "poll_handle_new_client cfg env ls s = Inr s'" "pollfdv s' = pv"
    using assms(7,11) m h pv(1) poll_invD(2) [OF assms(1)]
    by (cases "DO_BENCH cfg")
      (auto simp: poll_handle_new_client_def poll_add_fd_def Let_def sb_client_connected_def c_int_def bench_inv_def)
  have "arr_get (pv_data (pollfdv s)) (unat i) = Inr (pv_data (pollfdv s) ! unat i)"
    using in_block [OF V assms(4)] by simp
  then show ?thesis
    using assms(5,6) s' pv(2) by (simp add: serve_entry_def clear_revents_def)
qed

text \<open>A vector whose one slot is in use, with a connection waiting.\<close>

definition full_state :: "unit sworld poll_state" where
  "full_state = (demo_state (\<lambda>_. []) [3])\<lparr>pollfdv := \<lparr>pv_blk = 0,
     pv_data = [\<lparr>pf_fd = 3, pf_events = POLLIN, pf_revents = POLLIN\<rparr>], pv_size = 1, pv_capacity = 1, pv_pd = [None]\<rparr>\<rparr>"

theorem accept_into_full_vector_witness:
  "serve_entry plain_cfg sample_poll 3 0 (- 1, full_state) = Inl (UB UseAfterFree)"
proof -
  have i: "poll_inv plain_cfg sview 3 (- 1) full_state"
    by (auto simp: poll_inv_def pv_inv_def conn_inv_def fd_ptrs_def pv_entries_def full_state_def demo_state_def
        pair_ok_def special_fd_def sview_def empty_heap_def heap_ok_def)
  have a: "accept_client sample_poll 3 (world full_state) = Inr (4, snd (s_accept 3 (world full_state)))"
    by (simp add: accept_client_def like_sampleD s_accept_def s_open_def s_fresh_def full_state_def demo_state_def)
  show ?thesis
    by (rule accept_into_full_vector [OF i _ _ _ _ _ a])
      (simp_all add: full_state_def like_sampleD demo_state_def)
qed

lemma cleanup_entries_append:
  "cleanup_entries env ls timer (is @ js) s = bindE (cleanup_entries env ls timer is s) (cleanup_entries env ls timer js)"
  by (induction "is" arbitrary: s) (simp_all add: bindE_assoc bindE_if cong: bindE_cong if_cong)

text \<open>Entries with open descriptors are cleaned up without an exit.\<close>

lemma cleanup_entries_reach:
  assumes C: "close_spec env v" "close_reliable env v"
  shows "owned_pairs ls timer (conns s) (pairs_at s is) \<Longrightarrow> fst ` set (pairs_at s is) \<subseteq> kv_open v (world s) \<Longrightarrow>
     distinct (map fst (pairs_at s is)) \<Longrightarrow>
     \<forall>i \<in> set is. i < length (pv_data (pollfdv s)) \<and> i < length (pv_pd (pollfdv s)) \<Longrightarrow>
     okE (\<lambda>s1. pollfdv s1 = pollfdv s \<and> kv_open v (world s1) \<subseteq> kv_open v (world s)) (cleanup_entries env ls timer is s)"
proof (induction "is" arbitrary: s)
  case (Cons i "is")
  let ?f = "pf_fd (pv_data (pollfdv s) ! i)" and ?p = "pv_pd (pollfdv s) ! i"
  have own: "owned_pairs ls timer (conns s) ((?f, ?p) # pairs_at s is)"
    using Cons.prems(1) by (simp add: pairs_at_def)
  then obtain h where h: "hfree ?p (conns s) = Inr h" "owned_pairs ls timer h (pairs_at s is)"
    using owned_pairs_step by blast
  have rest: "okE (\<lambda>s1. pollfdv s1 = pollfdv s \<and> kv_open v (world s1) \<subseteq> kv_open v (world s)) (cleanup_entries env ls timer is s2)"
    if s2: "pollfdv s2 = pollfdv s" "kv_open v (world s2) \<subseteq> kv_open v (world s)" "kv_open v (world s) - {?f} \<subseteq> kv_open v (world s2)"
      "owned_pairs ls timer (conns s2) (pairs_at s is)" for s2
  proof -
    have e: "pairs_at s2 is = pairs_at s is" using s2 by (simp add: pairs_at_def)
    have "pairs_at s (i # is) = (?f, ?p) # pairs_at s is" by (simp add: pairs_at_def)
    then have P: "?f \<notin> fst ` set (pairs_at s is)" "fst ` set (pairs_at s is) \<subseteq> kv_open v (world s)" "distinct (map fst (pairs_at s is))"
      using Cons.prems(2,3) by simp_all
    have sub: "fst ` set (pairs_at s is) \<subseteq> kv_open v (world s2)"
    proof
      fix f assume f: "f \<in> fst ` set (pairs_at s is)"
      then have "f \<noteq> ?f" using P(1) by metis
      then have "f \<in> kv_open v (world s) - {?f}" using subsetD [OF P(2) f] by simp
      then show "f \<in> kv_open v (world s2)" by (rule subsetD [OF s2(3)])
    qed
    have "okE (\<lambda>s1. pollfdv s1 = pollfdv s2 \<and> kv_open v (world s1) \<subseteq> kv_open v (world s2)) (cleanup_entries env ls timer is s2)"
      by (rule Cons.IH; (unfold e s2(1))?) (use s2(4) sub P(3) Cons.prems(4) in \<open>simp_all\<close>)
    then show ?thesis by (rule okE_mono) (use s2 in auto)
  qed
  show ?case
  proof (cases "?f = ls")
    case True
    then have "?p = None" using own by (simp add: owned_pairs_def special_fd_def)
    then have "owned_pairs ls timer (conns s) (pairs_at s is)" using h by simp
    from rest [OF refl order_refl _ this] show ?thesis using True Cons.prems(4) by auto
  next
    case False
    have "?f \<in> kv_open v (world s)" using Cons.prems(2) by (simp add: pairs_at_def)
    from close_fd_ok [OF C this] obtain w where w:
      "\<And>m. close_fd env ?f m s = Inr (s\<lparr>world := w\<rparr>)" "kv_open v w = kv_open v (world s) - {?f}" by blast
    have "cleanup_entries env ls timer (i # is) s = cleanup_entries env ls timer is (s\<lparr>world := w, conns := h\<rparr>)"
      using False Cons.prems(4) w(1) h(1) by (auto simp: close_timer_def)
    moreover have "okE (\<lambda>s1. pollfdv s1 = pollfdv s \<and> kv_open v (world s1) \<subseteq> kv_open v (world s))
        (cleanup_entries env ls timer is (s\<lparr>world := w, conns := h\<rparr>))"
      by (rule rest) (use w(2) h(2) in auto)
    ultimately show ?thesis by simp
  qed
qed simp

text \<open>The cleanup exits at the first entry with descriptor -1.\<close>

lemma cleanup_blocked:
  assumes C: "close_spec env v" "close_reliable env v" and inv: "poll_inv cfg v ls timer s"
    and neg: "- 1 \<in> fst ` set (fd_ptrs s)" "- 1 \<notin> kv_open v (world s)"
  shows "\<exists>i s1. i < unat (pv_size (pollfdv s)) \<and> pf_fd (pv_data (pollfdv s) ! i) = - 1
     \<and> cleanup_entries env ls timer [0..<i] s = Inr s1
     \<and> do_client_connections_cleanup env ls timer s = Inl (ExitFailure ''close client socket'')"
proof -
  let ?n = "unat (pv_size (pollfdv s))" and ?fd = "\<lambda>i. pf_fd (pv_data (pollfdv s) ! i)"
  note V = poll_invD(1) [OF inv] and I = poll_invD(3) [OF inv]
  have fps: "fd_ptrs s = map (\<lambda>i. (?fd i, pv_pd (pollfdv s) ! i)) [0..<?n]"
    using pairs_at_fd_ptrs [OF V] by (simp add: pairs_at_def)
  then have "\<exists>i. i < ?n \<and> ?fd i = - 1" using neg(1) by auto
  then obtain i where i: "i < ?n" "?fd i = - 1" and first: "\<And>j. j < i \<Longrightarrow> ?fd j \<noteq> - 1"
    using exists_least_iff [of "\<lambda>i. i < ?n \<and> ?fd i = - 1"] by (meson order.strict_trans)
  have bounds: "j < length (pv_data (pollfdv s))" "j < length (pv_pd (pollfdv s))" if "j < ?n" for j
    using V that by (auto simp: pv_inv_def)
  have sub: "pairs_at s [0..<i] = take i (fd_ptrs s)" using i(1) by (simp add: fps pairs_at_def take_map)
  have own: "owned_pairs ls timer (conns s) (fd_ptrs s)"
    using conn_invD(5,7) [OF I] by (fastforce simp: owned_pairs_def pair_ok_def own_con_def split: if_splits)
  have "fd_ptrs s = take i (fd_ptrs s) @ drop i (fd_ptrs s)" by simp
  then have own': "owned_pairs ls timer (conns s) (pairs_at s [0..<i])"
    and dist: "distinct (filter (\<lambda>f. f \<noteq> - 1) (map fst (pairs_at s [0..<i])))"
    using own conn_invD(6) [OF I] unfolding sub owned_pairs_def
    by (metis (no_types, lifting) UnI1 distinct_append filter_append map_append set_append)+
  have nn: "\<forall>f \<in> fst ` set (pairs_at s [0..<i]). f \<noteq> - 1" using first by (auto simp: pairs_at_def)
  have "okE (\<lambda>s1. pollfdv s1 = pollfdv s \<and> kv_open v (world s1) \<subseteq> kv_open v (world s)) (cleanup_entries env ls timer [0..<i] s)"
  proof (rule cleanup_entries_reach [OF C own'])
    show "fst ` set (pairs_at s [0..<i]) \<subseteq> kv_open v (world s)"
    proof
      fix f assume f: "f \<in> fst ` set (pairs_at s [0..<i])"
      then have "f \<in> fst ` set (fd_ptrs s)" unfolding sub using set_take_subset by (metis image_mono subsetD)
      with conn_inv_open [OF I this] nn f show "f \<in> kv_open v (world s)" by blast
    qed
    show "distinct (map fst (pairs_at s [0..<i]))" using dist nn by (simp add: filter_id_conv)
  qed (use i(1) bounds in auto)
  then obtain s1 where s1: "cleanup_entries env ls timer [0..<i] s = Inr s1" "pollfdv s1 = pollfdv s"
    "- 1 \<notin> kv_open v (world s1)" using neg(2) by (auto simp: okE_iff)
  have "[0..<?n] = [0..<i] @ i # [Suc i..<?n]"
    using i(1) upt_add_eq_append [of 0 i "?n - i"] by (simp add: upt_conv_Cons)
  then have split: "do_client_connections_cleanup env ls timer s = cleanup_entries env ls timer (i # [Suc i..<?n]) s1"
    by (simp only: do_client_connections_cleanup_def cleanup_entries_append s1(1) bindE_Inr)
  obtain rc w where c: "e_close env (- 1) (world s1) = (rc, w)" by force
  have "rc \<noteq> 0" using C(1) [unfolded close_spec_def, rule_format, OF c] s1(3) by auto
  moreover have "ls \<noteq> - 1" using conn_invD(2) [OF I] by simp
  ultimately have "do_client_connections_cleanup env ls timer s = Inl (ExitFailure ''close client socket'')"
    unfolding split using i(2) bounds [OF i(1)] c s1(2) by (auto simp: close_fd_def assert_zero_def assertion_prints_and_exit_def)
  with i s1(1) show ?thesis by blast
qed

text \<open>C26: when \<open>accept4\<close> reports that no connection is waiting (the client left between
  \<open>ppoll\<close> and \<open>accept4\<close>), \<open>accept_client\<close> returns -1 and \<open>poll_handle_new_client\<close> registers it,
  with a connection object of its own, as a client. The cleanup at a shutdown then exits: it gets as
  far as the first entry with descriptor -1, and the close there fails.\<close>

theorem absent_client_blocks_shutdown:
  assumes "kernel_spec env v" "close_reliable env v" "poll_inv cfg v ls timer s" "may_accept cfg s"
    and "e_accept4 env ls (world s) = ((- 1, EAGAIN), w)" "- 1 \<notin> kv_open v (world s)"
    and "poll_handle_new_client cfg env ls s = Inr s'"
  shows "pv_entries (pollfdv s') = pv_entries (pollfdv s)
       @ [(\<lparr>pf_fd = - 1, pf_events = POLLIN, pf_revents = 0\<rparr>, Some (next_addr (conns s)))]
     \<and> (\<exists>i s1. i < unat (pv_size (pollfdv s')) \<and> pf_fd (pv_data (pollfdv s') ! i) = - 1
          \<and> cleanup_entries env ls timer [0..<i] s' = Inr s1
          \<and> do_client_connections_cleanup env ls timer s' = Inl (ExitFailure ''close client socket''))"
proof -
  have room: "pv_size (pollfdv s) < pv_capacity (pollfdv s)" "DO_BENCH cfg \<longrightarrow> client_no (bench s) + 1 < 2 ^ 31"
    using assms(4) by (simp_all add: may_accept_def)
  note V = poll_invD(1) [OF assms(3)]
  have inv': "poll_inv cfg v ls timer s'"
    using new_client_safe [OF assms(1,3) room] assms(7) by simp
  obtain mem w1 where m: "e_malloc env (sizeof_con cfg) w = (mem, w1)" by force
  let ?d = "\<lparr>pf_fd = - 1, pf_events = POLLIN, pf_revents = 0\<rparr>" and ?p = "Some (next_addr (conns s))"
  have dp: "pollfdv s' = appended_vec ?d ?p (pollfdv s)" and w1: "world s' = w1"
    using assms(5,7) m
    by (cases "DO_BENCH cfg";
      auto simp: poll_handle_new_client_def accept_client_def poll_add_fd_def Let_def bindE_eq_Inr halloc_def
        add_room_eq [OF V room(1)])+
  have es: "pv_entries (pollfdv s') = pv_entries (pollfdv s) @ [(?d, ?p)]"
    using appended_inv [OF V room(1) dp] by simp
  then have neg: "- 1 \<in> fst ` set (fd_ptrs s')" by (simp add: fd_ptrs_def)
  have "same_view v (world s) w"
    using kernel_specD(3) [OF assms(1), unfolded accept_spec_def, rule_format, OF assms(5)] by simp
  moreover have "same_view v w (snd (e_malloc env (sizeof_con cfg) w))"
    using kernel_specD(5) [OF assms(1)] unfolding quiet_spec_def by blast
  ultimately have no: "- 1 \<notin> kv_open v (world s')" using assms(6) w1 m by (simp add: same_view_def)
  show ?thesis using es cleanup_blocked [OF kernel_specD(4) [OF assms(1)] assms(2) inv' neg no] by blast
qed

theorem absent_client_blocks_shutdown_witness:
  "\<exists>s'. poll_handle_new_client plain_cfg (sample_poll\<lparr>e_accept4 := \<lambda>ls w. ((- 1, EAGAIN), w)\<rparr>) 3 (demo_state (\<lambda>_. []) []) = Inr s'
     \<and> do_client_connections_cleanup (sample_poll\<lparr>e_accept4 := \<lambda>ls w. ((- 1, EAGAIN), w)\<rparr>) 3 (- 1) s'
         = Inl (ExitFailure ''close client socket'')"
proof -
  let ?env = "sample_poll\<lparr>e_accept4 := \<lambda>ls w. ((- 1, EAGAIN), w)\<rparr>"
  have K: "kernel_spec ?env sview" and R: "close_reliable ?env sview"
    using sample_kernel [of sample_poll] sample_close_reliable [of sample_poll]
    by (simp_all add: kernel_spec_def read_spec_def write_spec_def accept_spec_def close_spec_def quiet_spec_def close_reliable_def)
  have i: "poll_inv plain_cfg sview 3 (- 1) (demo_state (\<lambda>_. []) [])"
    using start_inv [of sample_poll sview "\<lambda>n. None" plain_cfg "sample_world (\<lambda>_. []) []" 8080 3]
    by (simp_all add: demo_start sample_kernel sample_setup)
  have m: "may_accept plain_cfg (demo_state (\<lambda>_. []) [])"
    by (simp add: may_accept_def demo_state_def demo_vec_def)
  obtain s' where s': "poll_handle_new_client plain_cfg ?env 3 (demo_state (\<lambda>_. []) []) = Inr s'"
    by (simp add: demo_eval poll_eval)
  have "do_client_connections_cleanup ?env 3 (- 1) s' = Inl (ExitFailure ''close client socket'')"
    using absent_client_blocks_shutdown [OF K R i m _ _ s'] by (auto simp: sview_def demo_state_def)
  with s' show ?thesis by blast
qed

text \<open>The vector claims at concrete inputs.\<close>

theorem vector_refines_list_witness:
  "\<exists>vw. pollfdv_create sample_poll (sample_world (\<lambda>_. []) []) = Inr vw
     \<and> safeE (\<lambda>vw'. map (pf_fd \<circ> fst) (pv_entries (fst vw')) = [9, 8])
       (vec_run (vec_add sample_poll) vec_remove
         [VAdd (zero_pollfd\<lparr>pf_fd := 7\<rparr>, None), VAdd (zero_pollfd\<lparr>pf_fd := 8\<rparr>, None),
          VAdd (zero_pollfd\<lparr>pf_fd := 9\<rparr>, None), VRemove 0] vw)"
proof -
  obtain vw where vw: "pollfdv_create sample_poll (sample_world (\<lambda>_. []) []) = Inr vw"
    by (simp add: pollfdv_create_def like_sampleD Let_def)
  have "safeE (\<lambda>vw'. pv_inv (fst vw') \<and> pv_entries (fst vw') = [(zero_pollfd\<lparr>pf_fd := 9\<rparr>, None), (zero_pollfd\<lparr>pf_fd := 8\<rparr>, None)])
      (vec_run (vec_add sample_poll) vec_remove
         [VAdd (zero_pollfd\<lparr>pf_fd := 7\<rparr>, None), VAdd (zero_pollfd\<lparr>pf_fd := 8\<rparr>, None),
          VAdd (zero_pollfd\<lparr>pf_fd := 9\<rparr>, None), VRemove 0] vw)"
    by (rule vector_refines_list [OF vw]) (simp add: entry_live_def zero_pollfd_def swap_remove_def)
  then have "safeE (\<lambda>vw'. map (pf_fd \<circ> fst) (pv_entries (fst vw')) = [9, 8])
      (vec_run (vec_add sample_poll) vec_remove
         [VAdd (zero_pollfd\<lparr>pf_fd := 7\<rparr>, None), VAdd (zero_pollfd\<lparr>pf_fd := 8\<rparr>, None),
          VAdd (zero_pollfd\<lparr>pf_fd := 9\<rparr>, None), VRemove 0] vw)"
    by (rule safeE_mono) simp
  with vw show ?thesis by blast
qed

theorem remove_index_past_end_witness:
  "\<exists>v'. pollfdv_remove_index 1 \<lparr>pv_blk = 1, pv_data = [zero_pollfd\<lparr>pf_fd := 5\<rparr>, zero_pollfd], pv_size = 1,
       pv_capacity = 2, pv_pd = [Some 0, None]\<rparr> = Inr v' \<and> pv_entries v' = []"
  using remove_index_past_end [of "\<lparr>pv_blk = 1, pv_data = [zero_pollfd\<lparr>pf_fd := 5\<rparr>, zero_pollfd], pv_size = 1,
       pv_capacity = 2, pv_pd = [Some 0, None]\<rparr>" 1]
  by (simp add: pv_inv_def pv_entries_def zero_pollfd_def)

end
