(* ===== verification/Loops.thy ===== *)
theory Loops
  imports Prelude
begin

text \<open>
  The loop the three servers have in common: as long as \<open>server_running\<close> is set, another round,
  with fuel for the number of rounds. The interface \<open>server_loop\<close> is interpreted on each server's
  loop; what a round keeps, the loop keeps.
\<close>

definition outcome :: "(stop \<Rightarrow> bool) \<Rightarrow> ('a \<Rightarrow> bool) \<Rightarrow> 'a res \<Rightarrow> bool" where
  "outcome E P r = (case r of Inl e \<Rightarrow> E e | Inr x \<Rightarrow> P x)"

definition exits :: "stop \<Rightarrow> bool" where
  "exits e \<longleftrightarrow> (\<exists>m. e = ExitFailure m)"

lemma outcome_simps [simp]: "outcome E P (Inl e) = E e" "outcome E P (Inr x) = P x"
  by (simp_all add: outcome_def)

lemma safeE_outcome: "safeE P r = outcome exits P r"
  by (auto simp: safeE_def outcome_def exits_def split: sum.splits stop.splits)

lemma outcome_mono: "outcome E P r \<Longrightarrow> (\<And>x. r = Inr x \<Longrightarrow> P x \<Longrightarrow> Q x) \<Longrightarrow> outcome E Q r"
  by (cases r) auto

text \<open>The same for a run that may not have ended.\<close>

definition outcome_opt :: "(stop \<Rightarrow> bool) \<Rightarrow> ('a \<Rightarrow> bool) \<Rightarrow> 'a res option \<Rightarrow> bool" where
  "outcome_opt E P m = (case m of None \<Rightarrow> True | Some r \<Rightarrow> outcome E P r)"

lemma outcome_opt_simps [simp]: "outcome_opt E P None" "outcome_opt E P (Some r) = outcome E P r"
  by (simp_all add: outcome_opt_def)

text \<open>\<open>entry\<close> is what happens where the loop tests the flag (a signal may arrive there), \<open>step\<close> the
  body with its own fuel.\<close>

locale server_loop =
  fixes entry :: "'s \<Rightarrow> 's" and running :: "'s \<Rightarrow> bool"
    and step :: "nat \<Rightarrow> 's \<Rightarrow> 's res option" and loop :: "nat \<Rightarrow> 's \<Rightarrow> 's res option"
  assumes over: "\<not> running (entry s) \<Longrightarrow> loop n s = Some (Inr (entry s))"
    and out_of_fuel: "running (entry s) \<Longrightarrow> loop 0 s = None"
    and one_round: "running (entry s) \<Longrightarrow> loop (Suc n) s = (case step n (entry s) of None \<Rightarrow> None
        | Some (Inl e) \<Rightarrow> Some (Inl e) | Some (Inr s') \<Rightarrow> loop n s')"
begin

lemma loop_keeps:
  assumes "\<And>k s. I (Suc k) s \<Longrightarrow> running (entry s) \<Longrightarrow> outcome_opt E (I k) (step k (entry s))"
  shows "I n s \<Longrightarrow> outcome_opt E (\<lambda>s'. \<exists>k s0. I k s0 \<and> s' = entry s0 \<and> \<not> running s') (loop n s)"
proof (induction n arbitrary: s)
  case 0
  then show ?case using over [of s 0] out_of_fuel [of s] by (cases "running (entry s)") auto
next
  case (Suc n)
  show ?case
  proof (cases "running (entry s)")
    case False
    then show ?thesis using over [OF False] Suc.prems by auto
  next
    case True
    have S: "outcome_opt E (I n) (step n (entry s))" using assms Suc.prems True by blast
    show ?thesis
    proof (cases "step n (entry s)")
      case (Some r)
      then show ?thesis using S Suc.IH by (cases r) (auto simp: one_round [OF True])
    qed (simp add: one_round [OF True])
  qed
qed

text \<open>More fuel does not change the result.\<close>

lemma loop_more:
  assumes "\<And>k s r. step k s = Some r \<Longrightarrow> step (Suc k) s = Some r"
  shows "loop n s = Some r \<Longrightarrow> n \<le> m \<Longrightarrow> loop m s = Some r"
proof (induction n arbitrary: s m)
  case 0
  then show ?case using over out_of_fuel by (cases "running (entry s)") auto
next
  case (Suc n)
  obtain m' where m: "m = Suc m'" "n \<le> m'" using Suc.prems(2) by (cases m) auto
  have more: "step m' t = Some x" if "step n t = Some x" for t x
    using m(2) that by (induction m') (auto simp: le_Suc_eq assms)
  show ?case
  proof (cases "running (entry s)")
    case False
    then show ?thesis using Suc.prems(1) over by simp
  next
    case True
    then obtain x where x: "step n (entry s) = Some x" using Suc.prems(1) one_round by (auto split: option.splits)
    then show ?thesis
      using Suc.prems(1) Suc.IH [OF _ m(2)] more [OF x] by (cases x) (auto simp: m(1) one_round [OF True])
  qed
qed

end

end
