(* ===== verification/PollMain.thy ===== *)
theory PollMain
  imports PollClaims Loops
begin

text \<open>
  The poll server as a whole: a run of \<open>main\<close> from start-up over any number of rounds to the end.
\<close>

subsection \<open>The loop\<close>

text \<open>In every state the rounds reach, \<open>ppoll\<close> keeps its contract and the vector has room.\<close>

definition fair_rounds :: "config \<Rightarrow> ('w, 'x) poll_env_scheme \<Rightarrow> 'w kview \<Rightarrow> int \<Rightarrow> int \<times> 'w poll_state \<Rightarrow> bool" where
  "fair_rounds cfg env v ls start \<longleftrightarrow> (\<forall>timer s. poll_rounds cfg env v ls start (timer, s) \<longrightarrow> server_running s \<noteq> 0 \<longrightarrow>
     ppoll_at env v ls timer (world s) \<and> may_accept cfg s)"

interpretation poll_run: server_loop "\<lambda>ts. ts" "\<lambda>ts. server_running (snd ts) \<noteq> 0"
    "\<lambda>_ ts. Some (poll_round cfg env ls ts)" "\<lambda>n. poll_loop n cfg env ls" for cfg env ls
  by unfold_locales (simp_all add: poll_loop.simps [of 0] poll_loop.simps [of "Suc _"] poll_loop.simps split: sum.splits)

lemma poll_loop_rounds:
  assumes K: "kernel_spec env v" and I: "poll_inv cfg v ls (fst start) (snd start)" and F: "fair_rounds cfg env v ls start"
    and r: "poll_rounds cfg env v ls start ts"
  shows "outcome_opt exits (poll_rounds cfg env v ls start) (poll_loop n cfg env ls ts)"
proof -
  have "outcome_opt exits (poll_rounds cfg env v ls start) (Some (poll_round cfg env ls ts))"
    if r: "poll_rounds cfg env v ls start ts" and run: "server_running (snd ts) \<noteq> 0" for ts
  proof -
    obtain timer s where ts: "ts = (timer, s)" by force
    have f: "ppoll_at env v ls timer (world s)" "may_accept cfg s" "server_running s \<noteq> 0"
      using F r run ts by (auto simp: fair_rounds_def)
    have inv: "poll_inv cfg v ls timer s" using rounds_inv [OF r K I] ts by simp
    have "outcome exits (round_post cfg v ls s) (poll_round cfg env ls (timer, s))"
      using poll_round_safe [OF K f(1) inv f(2)] by (simp add: safeE_outcome)
    then show ?thesis
      unfolding ts outcome_opt_simps using rounds_step [OF _ f(3,1,2)] r ts by (elim outcome_mono) simp
  qed
  note step = this
  have "outcome_opt exits (\<lambda>s'. \<exists>(k :: nat) s0. poll_rounds cfg env v ls start s0 \<and> s' = s0 \<and> \<not> server_running (snd s') \<noteq> 0)
      (poll_loop n cfg env ls ts)"
    by (rule poll_run.loop_keeps [where I = "\<lambda>_. poll_rounds cfg env v ls start"]) (use step r in auto)
  then show ?thesis by (auto simp: outcome_opt_def outcome_def split: option.splits sum.splits)
qed

subsection \<open>The end\<close>

lemma client_cleanup_safe:
  assumes C: "close_spec env v" "close_reliable env v"
    and inv: "poll_inv cfg v ls timer s" and neg: "- 1 \<notin> kv_open v (world s)"
  shows "safeE (\<lambda>s'. cleaned v ls (fd_ptrs s) s s' \<and> - 1 \<notin> fst ` set (fd_ptrs s)) (do_client_connections_cleanup env ls timer s)"
proof (cases "- 1 \<in> fst ` set (fd_ptrs s)")
  case False
  then show ?thesis using okE_safeE [OF client_cleanup_ok [OF C inv False]] by simp
next
  case True
  note V = poll_invD(1) [OF inv] and CI = poll_invD(3) [OF inv]
  have "owned_pairs ls timer (conns s) (fd_ptrs s)"
    using conn_invD(5) [OF CI] conn_invD(7) [OF CI] by (fastforce simp: owned_pairs_def pair_ok_def own_con_def)
  moreover have "ls \<noteq> - 1" using conn_invD(2) [OF CI] by simp
  ultimately have "safeE (\<lambda>s'. - 1 \<notin> fst ` set (fd_ptrs s)) (do_client_connections_cleanup env ls timer s)"
    using cleanup_entries_safe [OF C(1), of ls timer s "[0..<unat (pv_size (pollfdv s))]"] V neg
    unfolding do_client_connections_cleanup_def pairs_at_fd_ptrs [OF V] by (auto simp: pv_inv_def)
  then show ?thesis by (rule safeE_mono) (use True in simp)
qed

text \<open>Everything the run took has been given back.\<close>

definition poll_ended :: "'w kview \<Rightarrow> 'w \<Rightarrow> 'w poll_state \<Rightarrow> bool" where
  "poll_ended v w s \<longleftrightarrow> (\<forall>a. cells (conns s) a = None) \<and> pv_data (pollfdv s) = [] \<and> pv_pd (pollfdv s) = []
     \<and> kv_open v (world s) \<subseteq> kv_open v w \<and> (echoed v w \<longrightarrow> echoed v (world s))"

lemma shutdown_ends:
  assumes C: "close_spec env v" "close_reliable env v" and inv: "poll_inv cfg v ls timer s"
    and lo: "loose v s \<subseteq> kv_open v w" and neg: "- 1 \<notin> kv_open v w" and e: "echoed v w \<longrightarrow> echoed v (world s)"
  shows "safeE (poll_ended v w) (bindE (do_client_connections_cleanup env ls timer s) (do_exit_cleanup cfg env ls))"
proof -
  note CI = poll_invD(3) [OF inv]
  have n: "- 1 \<notin> kv_open v (world s)" using lo neg by (auto simp: loose_def)
  have ls: "ls \<in> fst ` set (fd_ptrs s)" "ls \<in> kv_open v (world s)"
    using conn_invD(3) [OF CI] conn_inv_open [OF CI] conn_invD(2) [OF CI] by auto
  have "safeE (poll_ended v w) (do_exit_cleanup cfg env ls s1)" if c: "cleaned v ls (fd_ptrs s) s s1" for s1
  proof -
    have "ls \<in> kv_open v (world s1)" using c ls by (simp add: cleaned_def)
    from close_fd_ok [OF C this] obtain w1 where w1:
      "\<And>m. close_fd env ls m s1 = Inr (s1\<lparr>world := w1\<rparr>)" "kv_open v w1 = kv_open v (world s1) - {ls}"
      "kv_in v w1 = kv_in v (world s1)" "kv_out v w1 = kv_out v (world s1)" by blast
    have "kv_open v w1 \<subseteq> loose v s" using c w1(2) ls(1) by (auto simp: cleaned_def loose_def)
    then have "kv_open v w1 \<subseteq> kv_open v w" using lo by simp
    moreover have "echoed v w \<longrightarrow> echoed v w1" using e c w1(3,4) by (simp add: cleaned_def echoed_def)
    ultimately show ?thesis
      using c w1(1) by (auto simp: do_exit_cleanup_def pollfdv_free_def cleaned_def Let_def poll_ended_def)
  qed
  then show ?thesis
    unfolding safeE_bindE by (rule safeE_mono [OF client_cleanup_safe [OF C inv n]]) auto
qed

lemma stop_keeps:
  assumes K: "kernel_spec env v" and inv: "poll_inv cfg v ls timer s"
  shows "poll_inv cfg v ls timer (with_bench cfg (sb_stop (e_clock env)) s)"
    "keeps v s (with_bench cfg (sb_stop (e_clock env)) s)"
    "DO_BENCH cfg \<Longrightarrow> do_measure (bench (with_bench cfg (sb_stop (e_clock env)) s)) = 0"
proof -
  obtain b w where e: "sb_stop (e_clock env) (bench s, world s) = (b, w)" by force
  then have "snd (e_clock env (world s)) = w" by (auto simp: sb_stop_def split: prod.splits)
  then have w: "same_view v (world s) w" using kernel_specD(5) [OF K] by (auto simp: quiet_spec_def)
  have b: "DO_BENCH cfg \<Longrightarrow> bench_inv b" "do_measure b = 0"
    using bench_inv_ops(2) [of "bench s" "e_clock env" "world s"] poll_invD(2) [OF inv] e
    by (auto simp: sb_stop_def split: prod.splits)
  show "poll_inv cfg v ls timer (with_bench cfg (sb_stop (e_clock env)) s)"
    using poll_inv_world [OF poll_inv_bench [OF inv, of b], of w] b(1) w inv
    by (simp add: with_bench_def e same_view_def)
  show "keeps v s (with_bench cfg (sb_stop (e_clock env)) s)"
    by (rule keeps_same) (simp_all add: with_bench_def e w)
  show "DO_BENCH cfg \<Longrightarrow> do_measure (bench (with_bench cfg (sb_stop (e_clock env)) s)) = 0"
    using b(2) by (simp add: with_bench_def e)
qed

lemma exit_ends:
  assumes K: "kernel_spec env v" "close_reliable env v" and inv: "poll_inv cfg v ls timer s"
    and lo: "loose v s \<subseteq> kv_open v w" and neg: "- 1 \<notin> kv_open v w" and e: "echoed v w \<longrightarrow> echoed v (world s)"
  shows "safeE (\<lambda>(out, s'). poll_ended v w s') (bindE (service_loop_exit cfg env fopen ls (timer, s)) (\<lambda>(out, s).
     bindE (do_exit_cleanup cfg env ls s) (\<lambda>s. Inr (out, s))))"
proof -
  define s1 where "s1 = with_bench cfg (sb_stop (e_clock env)) s"
  note S = stop_keeps [OF K(1) inv, folded s1_def]
  have l: "loose v s1 \<subseteq> kv_open v w" and e1: "echoed v w \<longrightarrow> echoed v (world s1)"
    using S(2) lo e by (auto simp: keeps_def)
  have sv: "safeE (\<lambda>_. True) (if DO_BENCH cfg then sb_save_bench fopen (bench s1) else Inr None)"
    using S(3) poll_invD(2) [OF S(1)] save_bench_safe by auto
  have D: "safeE (poll_ended v w) (bindE (do_client_connections_cleanup env ls timer s1) (do_exit_cleanup cfg env ls))"
    by (rule shutdown_ends [OF kernel_specD(4) [OF K(1)] K(2) S(1) l neg e1])
  show ?thesis
    unfolding service_loop_exit_def prod.case Let_def s1_def [symmetric] bindE_assoc safeE_bindE
    by (rule safeE_mono [OF sv]) (use D in simp)
qed

lemma main_after_start:
  assumes "poll_start cfg env malloc port warmup w = Inr (ls, start)"
  shows "poll_main n cfg env malloc fopen port warmup w = (case poll_loop n cfg env ls start of None \<Rightarrow> None
     | Some r \<Rightarrow> Some (bindE r (\<lambda>ts. bindE (service_loop_exit cfg env fopen ls ts) (\<lambda>(out, s).
         bindE (do_exit_cleanup cfg env ls s) (\<lambda>s. Inr (out, s))))))"
  using assms
  by (auto simp: poll_start_def poll_main_def service_loop_def bindE_eq_Inr split: option.splits sum.splits prod.splits)

subsection \<open>Claim\<close>

text \<open>C2: A run of the whole poll server, whatever the kernel does within its contract, as long as the
  vector never fills: for every bound on the number of rounds it is still going, exits at an
  assertion, or has returned from \<open>main\<close>; then every byte read was echoed, every connection
  object and the vector are freed and no descriptor it opened is open. It never has undefined
  behaviour.\<close>

theorem poll_main_safe:
  assumes "kernel_spec env v" "setup_spec env v" "close_reliable env v" "malloc_spec malloc" "- 1 \<notin> kv_open v w"
    and "\<And>ls start. poll_start cfg env malloc port warmup w = Inr (ls, start) \<Longrightarrow> fair_rounds cfg env v ls start"
  shows "case poll_main n cfg env malloc fopen port warmup w of None \<Rightarrow> True
     | Some x \<Rightarrow> safeE (\<lambda>(out, s). poll_ended v w s) x"
proof -
  note S = start_inv [OF assms(1,2,4), of cfg w port warmup]
  show ?thesis
  proof (cases "poll_start cfg env malloc port warmup w")
    case (Inl e)
    then have "poll_main n cfg env malloc fopen port warmup w = Some (Inl e)"
      by (auto simp: poll_start_def poll_main_def service_loop_def bindE_eq_Inl split: sum.splits prod.splits)
    then show ?thesis using S Inl by (cases e) simp_all
  next
    case (Inr x)
    obtain ls start where x: "x = (ls, start)" by (rule that [OF prod.collapse [symmetric]])
    note st = Inr [unfolded x]
    note eq = main_after_start [OF st, of n fopen]
    have I: "poll_inv cfg v ls (fst start) (snd start)" "echoed v w \<longrightarrow> echoed v (world (snd start))"
      using S st by (auto split: prod.splits)
    note L = poll_loop_rounds [OF assms(1) I(1) assms(6) [OF st] rounds_start, of n]
    show ?thesis
    proof (cases "poll_loop n cfg env ls start")
      case None
      then show ?thesis by (simp add: eq)
    next
      case (Some r)
      have "safeE (\<lambda>(out, s'). poll_ended v w s') (bindE (service_loop_exit cfg env fopen ls ts) (\<lambda>(out, s).
            bindE (do_exit_cleanup cfg env ls s) (\<lambda>s. Inr (out, s))))"
        if r: "poll_rounds cfg env v ls start ts" for ts
      proof -
        obtain t s where ts: "ts = (t, s)" by force
        have "poll_inv cfg v ls t s" "keeps v (snd start) s"
          using rounds_inv [OF r assms(1) I(1)] ts by simp_all
        then show ?thesis
          unfolding ts using I(2) start_loose [OF assms(1,2,4) st] assms(5)
          by (intro exit_ends [OF assms(1,3)]) (auto simp: keeps_def)
      qed
      note fin = this
      have "safeE (poll_rounds cfg env v ls start) r" using L Some by (simp add: safeE_outcome)
      then show ?thesis
        unfolding eq Some option.case safeE_bindE [of _ r] by (rule safeE_mono) (rule fin)
    qed
  qed
qed

text \<open>A kernel that reports the waiting connection, and then delivers the signal.\<close>

definition stopping_poll :: "unit sworld poll_env" where
  "stopping_poll = sample_poll\<lparr>e_ppoll := (\<lambda>ents w.
     if sw_backlog w = 0 then ((- 1, EINTR, [], True), w) else s_ppoll ents w)\<rparr>"

lemma stopping_simps [simp]:
  "like_sample stopping_poll" "e_ppoll stopping_poll = (\<lambda>ents w.
     if sw_backlog w = 0 then ((- 1, EINTR, [], True), w) else s_ppoll ents w)"
  "e_realloc_data stopping_poll = (\<lambda>n w. (Some (\<lambda>_. zero_pollfd), w))"
  "e_realloc_pd stopping_poll = (\<lambda>n w. (Some (\<lambda>_. None), w))"
  by (simp_all add: stopping_poll_def like_sample_def sample_poll_def env.extend_def env.truncate_def poll_env.fields_def sample_env_def)

lemma stopping_start: "poll_start plain_cfg stopping_poll (\<lambda>n. None) 8080 3 (sample_world mail ready)
    = Inr (3, - 1, demo_state mail ready)"
  by (simp add: poll_start_def poll_setup_def plain_cfg_def pollfdv_create_def like_sampleD DATA_INITIAL_SIZE_def
      Let_def register_signal_handler_def create_ipv4_listening_socket_def s_open_def s_fresh_def sample_world_def
      service_loop_init_def init_signal_masks_def poll_add_fd_def pollfdv_add_def zero_pollfd_def demo_state_def
      demo_vec_def)

lemma stopping_round: "\<exists>s. poll_round plain_cfg stopping_poll 3 (- 1, demo_state (\<lambda>_. []) [3]) = Inr (- 1, s)
    \<and> pv_size (pollfdv s) = 2 \<and> pv_capacity (pollfdv s) = 16 \<and> sw_backlog (world s) = 0"
  by (simp add: demo_eval poll_eval)

lemma stopping_stops:
  assumes "sw_backlog (world s) = 0" "poll_round cfg stopping_poll ls (t, s) = Inr (t', s')"
  shows "server_running s' = 0"
  using assms by (auto simp: poll_round_def do_ppoll_def bindE_eq_Inr mem_read_def stop_server_signal_handler_def split: if_splits)

lemma stopping_ppoll: "ppoll_at stopping_poll sview ls timer w"
  using sample_ppoll [of ls timer w] by (simp add: ppoll_at_def)

lemma stopping_fair: "fair_rounds plain_cfg stopping_poll sview 3 (- 1, demo_state (\<lambda>_. []) [3])"
proof -
  let ?s0 = "demo_state (\<lambda>_. []) [3]"
  obtain s1 where s1: "poll_round plain_cfg stopping_poll 3 (- 1, ?s0) = Inr (- 1, s1)" "pv_size (pollfdv s1) = 2"
    "pv_capacity (pollfdv s1) = 16" "sw_backlog (world s1) = 0"
    using stopping_round by blast
  have "ts = (- 1, ?s0) \<or> ts = (- 1, s1) \<or> server_running (snd ts) = 0"
    if "poll_rounds plain_cfg stopping_poll sview 3 (- 1, ?s0) ts" for ts
    using that
  proof induction
    case (rounds_step timer s ts)
    then consider "timer = - 1" "s = ?s0" | "timer = - 1" "s = s1" by auto
    then show ?case
    proof cases
      case 2
      then show ?thesis
        using stopping_stops [OF s1(4), of plain_cfg 3 timer "fst ts" "snd ts"] rounds_step(5) by simp
    qed (use rounds_step s1(1) in simp)
  qed simp
  then show ?thesis
    using s1 stopping_ppoll by (fastforce simp: fair_rounds_def may_accept_def demo_state_def demo_vec_def)
qed

theorem poll_main_safe_witness:
  "\<exists>s. poll_main 2 plain_cfg stopping_poll (\<lambda>n. None) (Some ()) 8080 3 (sample_world (\<lambda>_. []) [3]) = Some (Inr (None, s))
     \<and> poll_ended sview (sample_world (\<lambda>_. []) [3]) s"
proof -
  let ?w = "sample_world (\<lambda>_. []) [3] :: unit sworld"
  have n: "- 1 \<notin> kv_open sview ?w" by (simp add: sview_def sample_world_def)
  have "\<exists>x. poll_main 2 plain_cfg stopping_poll (\<lambda>n. None) (Some ()) 8080 3 ?w = Some (Inr x) \<and> fst x = None"
    unfolding main_after_start [OF stopping_start] numeral_2_eq_2
    by (simp add: poll_loop.simps [of "Suc _"] poll_loop.simps [of 0] demo_eval poll_eval service_loop_exit_def with_bench_def
        do_client_connections_cleanup_def close_fd_def do_exit_cleanup_def pollfdv_free_def stop_server_signal_handler_def upt_conv_Cons)
  then obtain x where x: "poll_main 2 plain_cfg stopping_poll (\<lambda>n. None) (Some ()) 8080 3 ?w = Some (Inr x)" "fst x = None"
    by blast
  have "case poll_main 2 plain_cfg stopping_poll (\<lambda>n. None) (Some ()) 8080 3 ?w of None \<Rightarrow> True
     | Some x \<Rightarrow> safeE (\<lambda>(out, s). poll_ended sview ?w s) x"
    by (rule poll_main_safe [OF sample_kernel sample_setup sample_close_reliable _ n])
      (use stopping_fair in \<open>auto simp: stopping_start\<close>)
  then show ?thesis using x by (cases x) auto
qed

end
