(* ===== verification/DList.thy ===== *)
theory DList
  imports CMemory
begin

text \<open>
  Doubly linked lists: what it means that the next and prev links of nodes spell a list, how
  the links are patched when a node is taken out or added at the back, and the interfaces
  the epoll server's connection list and the io_uring server's tracker have in common.
\<close>

definition first_or :: "nat list \<Rightarrow> ptr \<Rightarrow> ptr" where
  "first_or xs e = (case xs of [] \<Rightarrow> e | x # _ \<Rightarrow> Some x)"

definition last_or :: "ptr \<Rightarrow> nat list \<Rightarrow> ptr" where
  "last_or p xs = (if xs = [] then p else Some (last xs))"

lemma first_or_simps [simp]: "first_or [] e = e" "first_or (x # xs) e = Some x"
  "first_or (xs @ [a]) e = first_or xs (Some a)"
  by (simp_all add: first_or_def split: list.splits)

lemma last_or_simps [simp]: "last_or p [] = p" "last_or p (xs @ [x]) = Some x"
  "last_or p (x # xs) = last_or (Some x) xs"
  by (simp_all add: last_or_def)

lemma first_or_append: "first_or (xs @ ys) e = first_or xs (first_or ys e)"
  by (cases xs) auto

text \<open>A segment: its nodes in order, the node before it and the node after it.\<close>

fun dseg :: "(nat \<Rightarrow> ptr) \<Rightarrow> (nat \<Rightarrow> ptr) \<Rightarrow> ptr \<Rightarrow> nat list \<Rightarrow> ptr \<Rightarrow> bool" where
  "dseg nx pv p [] e \<longleftrightarrow> True"
| "dseg nx pv p (x # xs) e \<longleftrightarrow> pv x = p \<and> nx x = first_or xs e \<and> dseg nx pv (Some x) xs e"

lemma dseg_append:
  "dseg nx pv p (xs @ ys) e \<longleftrightarrow> dseg nx pv p xs (first_or ys e) \<and> dseg nx pv (last_or p xs) ys e"
  by (induction xs arbitrary: p) (auto simp: first_or_append)

lemma dseg_cong:
  "(\<And>x. x \<in> set xs \<Longrightarrow> nx x = nx' x \<and> pv x = pv' x) \<Longrightarrow> dseg nx pv p xs e = dseg nx' pv' p xs e"
  by (induction xs arbitrary: p) auto

text \<open>Redirecting the last node's next, or the first node's prev.\<close>

definition upd :: "(nat \<Rightarrow> ptr) \<Rightarrow> ptr \<Rightarrow> ptr \<Rightarrow> nat \<Rightarrow> ptr" where
  "upd f p v = (case p of None \<Rightarrow> f | Some a \<Rightarrow> f(a := v))"

lemma upd_simps [simp]: "upd f None v = f" "upd f (Some a) v = f(a := v)"
  by (simp_all add: upd_def)

lemma dseg_redirect_last:
  assumes "dseg nx pv p xs e" "distinct xs"
  shows "dseg (upd nx (last_or None xs) e') pv p xs e'"
proof (cases xs rule: rev_cases)
  case (snoc ys y)
  have "dseg (nx(y := e')) pv p ys (Some y) = dseg nx pv p ys (Some y)"
    using assms(2) snoc by (intro dseg_cong) auto
  then show ?thesis using assms(1) snoc by (simp add: dseg_append)
qed simp

lemma dseg_redirect_first:
  assumes "dseg nx pv p xs e" "distinct xs"
  shows "dseg nx (upd pv (first_or xs None) p') p' xs e"
proof (cases xs)
  case (Cons y ys)
  have "dseg nx (pv(y := p')) (Some y) ys e = dseg nx pv (Some y) ys e"
    using assms(2) Cons by (intro dseg_cong) auto
  then show ?thesis using assms(1) Cons by simp
qed simp

definition dlist :: "(nat \<Rightarrow> ptr) \<Rightarrow> (nat \<Rightarrow> ptr) \<Rightarrow> ptr \<Rightarrow> ptr \<Rightarrow> nat list \<Rightarrow> bool" where
  "dlist nx pv hp tp xs \<longleftrightarrow> distinct xs \<and> dseg nx pv None xs None \<and> hp = first_or xs None \<and> tp = last_or None xs"

lemma dlist_unlink:
  assumes "dlist nx pv hp tp (as @ a # bs)"
  shows "nx a = first_or bs None" "pv a = last_or None as"
    "dlist (upd nx (pv a) (nx a)) (upd pv (nx a) (pv a)) (if hp = Some a then nx a else hp)
       (if tp = Some a then pv a else tp) (as @ bs)"
proof -
  have d: "distinct (as @ a # bs)" and s: "dseg nx pv None as (Some a)" "dseg nx pv (Some a) bs None"
    and ht: "hp = first_or (as @ a # bs) None" "tp = last_or None (as @ a # bs)"
    using assms by (auto simp: dlist_def dseg_append)
  show nx: "nx a = first_or bs None" and pv: "pv a = last_or None as"
    using assms by (simp_all add: dlist_def dseg_append)
  let ?nx = "upd nx (pv a) (nx a)" and ?pv = "upd pv (nx a) (pv a)"
  have "dseg (upd nx (last_or None as) (first_or bs None)) pv None as (first_or bs None)"
    using s(1) d by (intro dseg_redirect_last) auto
  also have "dseg (upd nx (last_or None as) (first_or bs None)) pv None as (first_or bs None)
      = dseg ?nx ?pv None as (first_or bs None)"
    using d by (intro dseg_cong) (auto simp: nx pv first_or_def upd_def split: list.splits)
  finally have A: "dseg ?nx ?pv None as (first_or bs None)" .
  have "dseg nx (upd pv (first_or bs None) (last_or None as)) (last_or None as) bs None"
    using s(2) d by (intro dseg_redirect_first) auto
  also have "dseg nx (upd pv (first_or bs None) (last_or None as)) (last_or None as) bs None
      = dseg ?nx ?pv (last_or None as) bs None"
    using d last_in_set [of as] by (intro dseg_cong) (auto simp: nx pv last_or_def disjoint_iff)
  finally have B: "dseg ?nx ?pv (last_or None as) bs None" .
  have h: "(if hp = Some a then nx a else hp) = first_or (as @ bs) None"
    using ht(1) d nx by (cases as) (auto simp: first_or_append)
  have t: "(if tp = Some a then pv a else tp) = last_or None (as @ bs)"
    using ht(2) d pv by (cases bs rule: rev_cases) (auto simp: last_or_def)
  show "dlist ?nx ?pv (if hp = Some a then nx a else hp) (if tp = Some a then pv a else tp) (as @ bs)"
    using d A B h t by (simp add: dlist_def dseg_append)
qed

lemma dlist_append:
  assumes "dlist nx pv hp tp xs" "a \<notin> set xs"
  shows "dlist ((upd nx tp (Some a))(a := None)) (pv(a := tp)) (if hp = None then Some a else hp) (Some a) (xs @ [a])"
proof -
  have d: "distinct xs" and s: "dseg nx pv None xs None" and ht: "hp = first_or xs None" "tp = last_or None xs"
    using assms(1) by (auto simp: dlist_def)
  have "dseg (upd nx tp (Some a)) pv None xs (Some a)"
    unfolding ht(2) using s d by (rule dseg_redirect_last)
  also have "dseg (upd nx tp (Some a)) pv None xs (Some a)
      = dseg ((upd nx tp (Some a))(a := None)) (pv(a := tp)) None xs (Some a)"
    using assms(2) by (intro dseg_cong) auto
  finally show ?thesis
    using d assms(2) ht by (cases xs) (auto simp: dlist_def dseg_append)
qed

lemma dlist_cong:
  assumes "\<And>x. x \<in> set xs \<Longrightarrow> nx x = nx' x \<and> pv x = pv' x"
  shows "dlist nx pv hp tp xs = dlist nx' pv' hp tp xs"
  unfolding dlist_def using dseg_cong [OF assms] by simp

subsection \<open>The interfaces\<close>

primrec remove_all :: "(nat \<Rightarrow> 's \<Rightarrow> 's res) \<Rightarrow> nat list \<Rightarrow> 's \<Rightarrow> 's res" where
  "remove_all remove [] s = Inr s"
| "remove_all remove (a # as) s = bindE (remove a s) (remove_all remove as)"

text \<open>A structure from which a node can be taken out, and one that also grows at the back.
  \<open>spells\<close> relates a state to the list of its nodes.\<close>

locale removable_list =
  fixes spells :: "'s \<Rightarrow> nat list \<Rightarrow> bool"
    and remove :: "nat \<Rightarrow> 's \<Rightarrow> 's res"
  assumes remove_law: "spells s xs \<Longrightarrow> a \<in> set xs \<Longrightarrow> okE (\<lambda>s'. spells s' (remove1 a xs)) (remove a s)"
    and spells_distinct: "spells s xs \<Longrightarrow> distinct xs"
begin

lemma remove_many:
  assumes "spells s xs" "set as \<subseteq> set xs" "distinct as"
  shows "okE (\<lambda>s'. spells s' (filter (\<lambda>x. x \<notin> set as) xs)) (remove_all remove as s)"
  using assms
proof (induction as arbitrary: s xs)
  case (Cons a as)
  have "remove1 a xs = filter (\<lambda>x. x \<noteq> a) xs"
    using spells_distinct [OF Cons.prems(1)] by (simp add: distinct_remove1_removeAll removeAll_filter_not_eq)
      (metis)
  moreover have "filter (\<lambda>x. x \<notin> set as) (filter (\<lambda>x. x \<noteq> a) xs) = filter (\<lambda>x. x \<notin> set (a # as)) xs"
    by (simp add: filter_filter conj_commute)
  ultimately have eq: "filter (\<lambda>x. x \<notin> set as) (remove1 a xs) = filter (\<lambda>x. x \<notin> set (a # as)) xs" by simp
  have "okE (\<lambda>s1. okE (\<lambda>s'. spells s' (filter (\<lambda>x. x \<notin> set as) (remove1 a xs))) (remove_all remove as s1)) (remove a s)"
    using Cons.prems spells_distinct [OF Cons.prems(1)]
    by (intro okE_mono [OF remove_law [OF Cons.prems(1)]] Cons.IH) auto
  then show ?case unfolding eq by simp
qed simp

end

locale growing_list = removable_list spells remove
  for spells :: "'s \<Rightarrow> nat list \<Rightarrow> bool" and remove :: "nat \<Rightarrow> 's \<Rightarrow> 's res" +
  fixes allocated :: "nat \<Rightarrow> 's \<Rightarrow> bool"
    and push :: "nat \<Rightarrow> 's \<Rightarrow> 's res"
  assumes push_law: "spells s xs \<Longrightarrow> a \<notin> set xs \<Longrightarrow> allocated a s \<Longrightarrow>
      okE (\<lambda>s'. spells s' (xs @ [a]) \<and> (\<forall>b. allocated b s' = allocated b s)) (push a s)"
    and remove_allocated: "spells s xs \<Longrightarrow> a \<in> set xs \<Longrightarrow>
      okE (\<lambda>s'. \<forall>b. allocated b s' = allocated b s) (remove a s)"
begin

text \<open>A run of operations on distinct live nodes spells what the list operations give.\<close>

lemma push_then_remove:
  assumes "spells s xs" "a \<notin> set xs" "allocated a s"
  shows "okE (\<lambda>s'. spells s' xs) (bindE (push a s) (remove a))"
proof -
  have "remove1 a (xs @ [a]) = xs" using assms(2) by (simp add: remove1_append remove1_idem)
  then show ?thesis
    unfolding okE_bindE
    by (intro okE_mono [OF push_law [OF assms]]) (metis remove_law in_set_conv_decomp)
qed

end

end
