(* ===== verification/EpollServer.thy ===== *)
theory EpollServer
  imports DList ServerUtils ServerBench
begin

text \<open>
  code/c/server/epoll/main.c: the echo server over epoll(7), edge-triggered, with its
  doubly linked list of connections. The state is the file's global variables, the heap of
  connection objects, the global \<open>server_running\<close> and the world; the descriptor held by
  \<open>tfd_holder\<close> is passed along.
\<close>

unbundle bit_operations_syntax

subsection \<open>State\<close>

record ep_connection =
  ec_fd :: int
  ec_buf_size :: "32 word"
  ec_buf :: "byte list"
  ec_next :: ptr
  ec_prev :: ptr

text \<open>What \<open>ev.data.ptr\<close> points to: a holder on the stack of \<open>service_loop\<close>, or a connection.\<close>

datatype epoll_data = LfdHolder | TfdHolder | ConPtr nat

record 'w epoll_state =
  ebench :: server_bench
  econs :: "ep_connection heap"
  dll_head :: ptr
  dll_tail :: ptr
  erunning :: int
  eworld :: 'w

text \<open>
  The calls beyond the common ones. \<open>epoll_pwait\<close> yields the return code, \<open>errno\<close>, the
  events it wrote to \<open>evs\<close> and whether SIGUSR1 was delivered while waiting.
\<close>

record 'w epoll_env = "'w env" +
  e_epoll_create1 :: "'w \<Rightarrow> int \<times> 'w"
  e_epoll_ctl_add :: "int \<Rightarrow> int \<Rightarrow> 32 word \<Rightarrow> epoll_data \<Rightarrow> 'w \<Rightarrow> int \<times> 'w"
  e_epoll_pwait :: "int \<Rightarrow> nat \<Rightarrow> 'w \<Rightarrow> (int \<times> int \<times> (32 word \<times> epoll_data) list \<times> bool) \<times> 'w"

abbreviation EPOLLIN :: "32 word" where "EPOLLIN \<equiv> 1"
abbreviation EPOLLRDHUP :: "32 word" where "EPOLLRDHUP \<equiv> 0x2000"
abbreviation EPOLLET :: "32 word" where "EPOLLET \<equiv> 0x80000000"

definition EPOLL_WAIT_MAX_EVENTS :: nat where "EPOLL_WAIT_MAX_EVENTS = 256"

text \<open>\<open>sizeof(pd_echo_connection_t)\<close>: two ints and the buffer in whole pointers, two pointers.\<close>

definition sizeof_ep_con :: "config \<Rightarrow> nat" where
  "sizeof_ep_con cfg = (8 + DEFAULT_SERVER_BUFFER_SIZE cfg + 7) div 8 * 8 + 16"

definition with_ebench :: "config \<Rightarrow> (server_bench \<times> 'w \<Rightarrow> server_bench \<times> 'w) \<Rightarrow> 'w epoll_state \<Rightarrow> 'w epoll_state" where
  "with_ebench cfg f s =
     (if DO_BENCH cfg
      then (case f (ebench s, eworld s) of (b, w) \<Rightarrow> s\<lparr>ebench := b, eworld := w\<rparr>)
      else s)"

subsection \<open>The list of connections\<close>

definition dll_connect_back :: "nat \<Rightarrow> 'w epoll_state \<Rightarrow> 'w epoll_state res" where
  "dll_connect_back con s =
     (if dll_head s = None then Inr (s\<lparr>dll_head := Some con, dll_tail := Some con\<rparr>)
      else bindE (hupd (Some con) (\<lambda>c. c\<lparr>ec_prev := dll_tail s\<rparr>) (econs s)) (\<lambda>h.
           Inr (s\<lparr>econs := h, dll_tail := Some con\<rparr>)))"

definition dll_remove :: "nat \<Rightarrow> 'w epoll_state \<Rightarrow> 'w epoll_state res" where
  "dll_remove con s =
     bindE (hget (Some con) (econs s)) (\<lambda>c.
     bindE (if ec_next c \<noteq> None
            then hupd (ec_next c) (\<lambda>n. n\<lparr>ec_prev := ec_prev c\<rparr>) (econs s)
            else Inr (econs s)) (\<lambda>h.
     bindE (hget (Some con) h) (\<lambda>c.
     bindE (if ec_prev c \<noteq> None
            then hupd (ec_prev c) (\<lambda>p. p\<lparr>ec_next := ec_next c\<rparr>) h
            else Inr h) (\<lambda>h.
     bindE (hget (Some con) h) (\<lambda>c.
     Inr (s\<lparr>econs := h,
            dll_head := (if Some con = dll_head s then ec_next c else dll_head s),
            dll_tail := (if Some con = dll_tail s then ec_prev c else dll_tail s)\<rparr>))))))"

subsection \<open>Operations\<close>

definition eclose_fd :: "('w, 'x) env_scheme \<Rightarrow> int \<Rightarrow> string \<Rightarrow> 'w epoll_state \<Rightarrow> 'w epoll_state res" where
  "eclose_fd env fd msg s = (case e_close env fd (eworld s) of (rc, w) \<Rightarrow>
     bindE (assert_zero rc msg) (\<lambda>_. Inr (s\<lparr>eworld := w\<rparr>)))"

definition eclose_client :: "('w, 'x) env_scheme \<Rightarrow> nat \<Rightarrow> 'w epoll_state \<Rightarrow> 'w epoll_state res" where
  "eclose_client env con s =
     bindE (dll_remove con s) (\<lambda>s.
     bindE (hget (Some con) (econs s)) (\<lambda>c.
     bindE (eclose_fd env (ec_fd c) ''close'' s) (\<lambda>s.
     bindE (hfree (Some con) (econs s)) (\<lambda>h. Inr (s\<lparr>econs := h\<rparr>)))))"

text \<open>\<open>close_timer\<close>: \<open>tfd_holder->fd\<close> becomes -1.\<close>

definition eclose_timer :: "('w, 'x) env_scheme \<Rightarrow> int \<times> 'w epoll_state \<Rightarrow> (int \<times> 'w epoll_state) res" where
  "eclose_timer env = (\<lambda>(tfd, s). bindE (eclose_fd env tfd ''close'' s) (\<lambda>s. Inr (- 1, s)))"

definition etimer_expired ::
    "config \<Rightarrow> ('w, 'x) env_scheme \<Rightarrow> int \<times> 'w epoll_state \<Rightarrow> (int \<times> 'w epoll_state) res" where
  "etimer_expired cfg env ts =
     bindE (eclose_timer env ts) (\<lambda>(tfd, s). Inr (tfd, with_ebench cfg (sb_start (e_clock env)) s))"

definition epoll_handle_new_client ::
    "config \<Rightarrow> ('w, 'x) epoll_env_scheme \<Rightarrow> int \<Rightarrow> int \<Rightarrow> 'w epoll_state \<Rightarrow> 'w epoll_state res" where
  "epoll_handle_new_client cfg env epoll_fd client_fd s =
     (case e_malloc env (sizeof_ep_con cfg) (eworld s) of (mem, w) \<Rightarrow>
     bindE (assert_nnull mem ''calloc'') (\<lambda>_.
     let fresh = \<lparr>ec_fd = client_fd, ec_buf_size = 0, ec_buf = replicate (DEFAULT_SERVER_BUFFER_SIZE cfg) 0,
           ec_next = None, ec_prev = None\<rparr>
     in case halloc fresh (econs s) of (con, h) \<Rightarrow>
     case e_epoll_ctl_add env epoll_fd client_fd (EPOLLIN OR EPOLLRDHUP OR EPOLLET) (ConPtr con) w of (rc, w) \<Rightarrow>
     bindE (assert_zero rc ''epoll_ctl client_fd'') (\<lambda>_.
     bindE (dll_connect_back con (s\<lparr>econs := h, eworld := w\<rparr>)) (\<lambda>s.
     if DO_BENCH cfg
     then bindE (sb_client_connected (ebench s)) (\<lambda>b. Inr (s\<lparr>ebench := b\<rparr>))
     else Inr s))))"

text \<open>The \<open>while(1)\<close> of \<open>epoll_handle_new_clients\<close>, at most \<open>n\<close> times around.\<close>

primrec epoll_handle_new_clients ::
    "nat \<Rightarrow> config \<Rightarrow> ('w, 'x) epoll_env_scheme \<Rightarrow> int \<Rightarrow> int \<Rightarrow> 'w epoll_state \<Rightarrow> 'w epoll_state res option" where
  "epoll_handle_new_clients 0 cfg env epoll_fd listening_socket s = None"
| "epoll_handle_new_clients (Suc n) cfg env epoll_fd listening_socket s =
     (case accept_client env listening_socket (eworld s) of
        Inl e \<Rightarrow> Some (Inl e)
      | Inr (client_fd, w) \<Rightarrow>
          if client_fd = - 1 then Some (Inr (s\<lparr>eworld := w\<rparr>))
          else (case epoll_handle_new_client cfg env epoll_fd client_fd (s\<lparr>eworld := w\<rparr>) of
                  Inl e \<Rightarrow> Some (Inl e)
                | Inr s \<Rightarrow> epoll_handle_new_clients n cfg env epoll_fd listening_socket s))"

definition elatency_clock ::
    "config \<Rightarrow> ('w, 'x) env_scheme \<Rightarrow> 'w epoll_state \<Rightarrow> timespec \<times> 'w epoll_state" where
  "elatency_clock cfg env s =
     (if latency_on cfg
      then (case now_monotonic (e_clock env) (eworld s) of (t, w) \<Rightarrow> (t, s\<lparr>eworld := w\<rparr>))
      else (zero_ts, s))"

text \<open>\<open>handle_client_event\<close> for the connection \<open>con\<close>.\<close>

definition ehandle_client_event ::
    "config \<Rightarrow> ('w, 'x) env_scheme \<Rightarrow> 32 word \<Rightarrow> nat \<Rightarrow> 'w epoll_state \<Rightarrow> 'w epoll_state res" where
  "ehandle_client_event cfg env events con s =
     (if events AND EPOLLRDHUP \<noteq> 0 then eclose_client env con s
      else if events AND EPOLLIN \<noteq> 0
      then (case elatency_clock cfg env s of (start, s) \<Rightarrow>
        bindE (hget (Some con) (econs s)) (\<lambda>c.
        bindE (read_n_echo env cfg (ec_fd c) (ec_buf c) (DEFAULT_SERVER_BUFFER_SIZE cfg) (eworld s)) (\<lambda>(r, buf, w).
        bindE (hset (Some con) (c\<lparr>ec_buf := buf, ec_buf_size := word_of_int r\<rparr>) (econs s)) (\<lambda>h.
        case elatency_clock cfg env (s\<lparr>econs := h, eworld := w\<rparr>) of (end', s) \<Rightarrow>
        if latency_on cfg
        then bindE (sb_record_event (e_clock env) start end' (ebench s, eworld s)) (\<lambda>(b, w).
             Inr (s\<lparr>ebench := b, eworld := w\<rparr>))
        else Inr s))))
      else Inr s)"

text \<open>\<open>((struct pd_fd *)ev->data.ptr)->fd\<close>\<close>

definition data_fd :: "int \<Rightarrow> int \<times> 'w epoll_state \<Rightarrow> epoll_data \<Rightarrow> int res" where
  "data_fd ls = (\<lambda>(tfd, s) d. case d of LfdHolder \<Rightarrow> Inr ls | TfdHolder \<Rightarrow> Inr tfd
     | ConPtr a \<Rightarrow> bindE (hget (Some a) (econs s)) (\<lambda>c. Inr (ec_fd c)))"

text \<open>
  The body of \<open>service_events\<close>. A holder reaching \<open>handle_client_event\<close> would be read as
  a connection, beyond its end.
\<close>

definition eserve ::
    "nat \<Rightarrow> config \<Rightarrow> ('w, 'x) epoll_env_scheme \<Rightarrow> int \<Rightarrow> int \<Rightarrow> 32 word \<times> epoll_data
     \<Rightarrow> int \<times> 'w epoll_state \<Rightarrow> (int \<times> 'w epoll_state) res option" where
  "eserve n cfg env epoll_fd ls ev ts =
     (case data_fd ls ts (snd ev) of
        Inl e \<Rightarrow> Some (Inl e)
      | Inr fd \<Rightarrow>
          if fd = ls
          then map_option (\<lambda>r. bindE r (\<lambda>s. Inr (fst ts, s))) (epoll_handle_new_clients n cfg env epoll_fd ls (snd ts))
          else if fd = fst ts then Some (etimer_expired cfg env ts)
          else (case snd ev of
                  ConPtr a \<Rightarrow> Some (bindE (ehandle_client_event cfg env (fst ev) a (snd ts)) (\<lambda>s. Inr (fst ts, s)))
                | _ \<Rightarrow> Some (Inl (UB OutOfBounds))))"

primrec eservice_events ::
    "nat \<Rightarrow> config \<Rightarrow> ('w, 'x) epoll_env_scheme \<Rightarrow> int \<Rightarrow> int \<Rightarrow> (32 word \<times> epoll_data) list
     \<Rightarrow> int \<times> 'w epoll_state \<Rightarrow> (int \<times> 'w epoll_state) res option" where
  "eservice_events n cfg env epoll_fd ls [] ts = Some (Inr ts)"
| "eservice_events n cfg env epoll_fd ls (ev # evs) ts =
     (case eserve n cfg env epoll_fd ls ev ts of
        None \<Rightarrow> None
      | Some (Inl e) \<Rightarrow> Some (Inl e)
      | Some (Inr ts) \<Rightarrow> eservice_events n cfg env epoll_fd ls evs ts)"

subsection \<open>The service loop\<close>

definition create_epoll :: "('w, 'x) epoll_env_scheme \<Rightarrow> 'w \<Rightarrow> (int \<times> 'w) res" where
  "create_epoll env w = (case e_epoll_create1 env w of (epoll_fd, w) \<Rightarrow>
     bindE (assert_nonn epoll_fd ''epoll_create1'') (\<lambda>_. Inr (epoll_fd, w)))"

definition epoll_add_listening_socket :: "('w, 'x) epoll_env_scheme \<Rightarrow> int \<Rightarrow> int \<Rightarrow> 'w \<Rightarrow> 'w res" where
  "epoll_add_listening_socket env epoll_fd ls w =
     (case e_epoll_ctl_add env epoll_fd ls (EPOLLIN OR EPOLLET) LfdHolder w of (rc, w) \<Rightarrow>
      bindE (assert_zero rc ''epoll_ctl listening_socket'') (\<lambda>_. Inr w))"

definition epoll_add_timer :: "('w, 'x) epoll_env_scheme \<Rightarrow> int \<Rightarrow> int \<Rightarrow> 'w \<Rightarrow> 'w res" where
  "epoll_add_timer env epoll_fd tfd w =
     (case e_epoll_ctl_add env epoll_fd tfd (EPOLLIN OR EPOLLET) TfdHolder w of (rc, w) \<Rightarrow>
      bindE (assert_zero rc ''epoll_ctl timer add'') (\<lambda>_. Inr w))"

text \<open>\<open>service_loop\<close> up to its loop; the masks as in the other servers.\<close>

definition eservice_loop_init ::
    "config \<Rightarrow> ('w, 'x) epoll_env_scheme \<Rightarrow> int \<Rightarrow> int \<Rightarrow> 'w epoll_state \<Rightarrow> (int \<times> int \<times> 'w epoll_state) res" where
  "eservice_loop_init cfg env warmup ls s =
     bindE (create_epoll env (eworld s)) (\<lambda>(epoll_fd, w).
     bindE (if DO_BENCH cfg then create_warmup_timer env warmup w else Inr (- 1, w)) (\<lambda>(tfd, w).
     case e_sigprocmask env False w of (rc, w) \<Rightarrow>
     bindE (assert_zero rc ''sigprocmask get orig_mask'') (\<lambda>_.
     case e_sigemptyset env w of (rc, w) \<Rightarrow>
     bindE (assert_zero rc ''sigemptyset'') (\<lambda>_.
     case e_sigaddset_usr1 env w of (rc, w) \<Rightarrow>
     bindE (assert_zero rc ''sigaddset'') (\<lambda>_.
     bindE (epoll_add_listening_socket env epoll_fd ls w) (\<lambda>w.
     bindE (if DO_BENCH cfg then epoll_add_timer env epoll_fd tfd w else Inr w) (\<lambda>w.
     case e_sigprocmask env True w of (rc, w) \<Rightarrow>
     bindE (assert_zero rc ''sigprocmask'') (\<lambda>_. Inr (epoll_fd, tfd, s\<lparr>eworld := w\<rparr>)))))))))"

text \<open>One iteration of \<open>while (server_running)\<close>; \<open>n\<close> bounds the accept loop.\<close>

definition epoll_round ::
    "nat \<Rightarrow> config \<Rightarrow> ('w, 'x) epoll_env_scheme \<Rightarrow> int \<Rightarrow> int \<Rightarrow> int \<times> 'w epoll_state
     \<Rightarrow> (int \<times> 'w epoll_state) res option" where
  "epoll_round n cfg env epoll_fd ls = (\<lambda>(tfd, s).
     case e_epoll_pwait env epoll_fd EPOLL_WAIT_MAX_EVENTS (eworld s) of ((no_events, errno, evs, signalled), w) \<Rightarrow>
     let s = s\<lparr>eworld := w, erunning := (if signalled then stop_server_signal_handler (erunning s) else erunning s)\<rparr>
     in if no_events < 0 \<and> errno = EINTR then Some (Inr (tfd, s))
     else (case bindE (if errno \<noteq> EINTR then assert_nonn no_events ''epoll_wait'' else Inr ()) (\<lambda>_.
             mem_read evs 0 (nat no_events)) of
         Inl e \<Rightarrow> Some (Inl e)
       | Inr evs \<Rightarrow>
           (let s = (if DO_BENCH cfg then s\<lparr>ebench := sb_requests_performed (ebench s) no_events\<rparr> else s)
            in eservice_events n cfg env epoll_fd ls evs (tfd, s))))"

fun epoll_loop ::
    "nat \<Rightarrow> config \<Rightarrow> ('w, 'x) epoll_env_scheme \<Rightarrow> int \<Rightarrow> int \<Rightarrow> int \<times> 'w epoll_state
     \<Rightarrow> (int \<times> 'w epoll_state) res option" where
  "epoll_loop n cfg env epoll_fd ls ts =
     (if erunning (snd ts) = 0 then Some (Inr ts)
      else case n of 0 \<Rightarrow> None | Suc n \<Rightarrow>
        (case epoll_round n cfg env epoll_fd ls ts of
           None \<Rightarrow> None
         | Some (Inl e) \<Rightarrow> Some (Inl e)
         | Some (Inr ts) \<Rightarrow> epoll_loop n cfg env epoll_fd ls ts))"

declare epoll_loop.simps [simp del]

subsection \<open>Cleanup and main\<close>

text \<open>The \<open>while (p)\<close> over the connections, at most \<open>n\<close> times around.\<close>

primrec close_all :: "nat \<Rightarrow> ('w, 'x) env_scheme \<Rightarrow> ptr \<Rightarrow> 'w epoll_state \<Rightarrow> 'w epoll_state res option" where
  "close_all 0 env p s = (if p = None then Some (Inr s) else None)"
| "close_all (Suc n) env p s =
     (case p of None \<Rightarrow> Some (Inr s)
      | Some a \<Rightarrow> (case hget p (econs s) of
            Inl e \<Rightarrow> Some (Inl e)
          | Inr c \<Rightarrow> (let next = ec_next c in case eclose_client env a s of
                Inl e \<Rightarrow> Some (Inl e)
              | Inr s \<Rightarrow> close_all n env next s)))"

definition edo_service_loop_cleanup ::
    "nat \<Rightarrow> ('w, 'x) env_scheme \<Rightarrow> int \<Rightarrow> int \<times> 'w epoll_state \<Rightarrow> 'w epoll_state res option" where
  "edo_service_loop_cleanup n env epoll_fd ts =
     (case bindE (if fst ts \<noteq> - 1 then eclose_timer env ts else Inr ts) (\<lambda>(tfd, s).
             eclose_fd env epoll_fd ''close epoll_fd'' s) of
        Inl e \<Rightarrow> Some (Inl e)
      | Inr s \<Rightarrow> close_all n env (dll_head s) s)"

definition edo_exit_cleanup :: "config \<Rightarrow> ('w, 'x) env_scheme \<Rightarrow> int \<Rightarrow> 'w epoll_state \<Rightarrow> 'w epoll_state res" where
  "edo_exit_cleanup cfg env ls s =
     bindE (eclose_fd env ls ''close'' s) (\<lambda>s.
     Inr (if DO_BENCH cfg then s\<lparr>ebench := sb_free (ebench s)\<rparr> else s))"

definition eservice_loop ::
    "nat \<Rightarrow> config \<Rightarrow> ('w, 'x) epoll_env_scheme \<Rightarrow> 'f option \<Rightarrow> int \<Rightarrow> int \<Rightarrow> 'w epoll_state
     \<Rightarrow> (string option \<times> 'w epoll_state) res option" where
  "eservice_loop n cfg env fopen warmup ls s =
     (case eservice_loop_init cfg env warmup ls s of
        Inl e \<Rightarrow> Some (Inl e)
      | Inr (epoll_fd, ts) \<Rightarrow> (case epoll_loop n cfg env epoll_fd ls ts of
          None \<Rightarrow> None
        | Some (Inl e) \<Rightarrow> Some (Inl e)
        | Some (Inr (tfd, s)) \<Rightarrow>
            (let s = with_ebench cfg (sb_stop (e_clock env)) s
             in case (if DO_BENCH cfg then sb_save_bench fopen (ebench s) else Inr None) of
                  Inl e \<Rightarrow> Some (Inl e)
                | Inr file \<Rightarrow> map_option (\<lambda>r. bindE r (\<lambda>s. Inr (file, s))) (edo_service_loop_cleanup n env epoll_fd (tfd, s)))))"

definition epoll_setup ::
    "config \<Rightarrow> ('w, 'x) epoll_env_scheme \<Rightarrow> (nat \<Rightarrow> byte list option) \<Rightarrow> 16 word \<Rightarrow> 'w
     \<Rightarrow> (int \<times> 'w epoll_state) res" where
  "epoll_setup cfg env malloc port w =
     bindE (if DO_BENCH cfg then sb_create malloc BENCH_EXPECTED_MESSAGES
            else Inr \<lparr>do_measure = 0, client_no = 0, request_no = 0, meas_start_time = zero_ts,
              meas_end_time = zero_ts, event_latency = \<lparr>mc_entry_size = 0, mc_capacity = 0,
              mc_size = 0, mc_ptr = None\<rparr>\<rparr>) (\<lambda>b.
     bindE (register_signal_handler env w) (\<lambda>w.
     bindE (create_ipv4_listening_socket env port w) (\<lambda>(ls, w).
     Inr (ls, \<lparr>ebench = b, econs = empty_heap, dll_head = None, dll_tail = None, erunning = 1, eworld = w\<rparr>))))"

definition epoll_main ::
    "nat \<Rightarrow> config \<Rightarrow> ('w, 'x) epoll_env_scheme \<Rightarrow> (nat \<Rightarrow> byte list option) \<Rightarrow> 'f option \<Rightarrow> 16 word
     \<Rightarrow> int \<Rightarrow> 'w \<Rightarrow> (string option \<times> 'w epoll_state) res option" where
  "epoll_main n cfg env malloc fopen port warmup w =
     (case epoll_setup cfg env malloc port w of
        Inl e \<Rightarrow> Some (Inl e)
      | Inr (ls, s) \<Rightarrow> (case eservice_loop n cfg env fopen warmup ls s of
          None \<Rightarrow> None
        | Some r \<Rightarrow> Some (bindE r (\<lambda>(file, s).
            bindE (edo_exit_cleanup cfg env ls s) (\<lambda>s. Inr (file, s))))))"

end
