(* ===== verification/EpollClaims.thy ===== *)
theory EpollClaims
  imports EpollServer SampleKernel
begin

text \<open>
  The epoll server's list of connections against the interface of a list with removal, what
  its incomplete links lead to, and that serving the events of a round keeps the invariant.
\<close>

subsection \<open>Taking a connection out of a well-linked list\<close>

definition en :: "'w epoll_state \<Rightarrow> nat \<Rightarrow> ptr" where
  "en s a = (case cells (econs s) a of None \<Rightarrow> None | Some c \<Rightarrow> ec_next c)"

definition ep :: "'w epoll_state \<Rightarrow> nat \<Rightarrow> ptr" where
  "ep s a = (case cells (econs s) a of None \<Rightarrow> None | Some c \<Rightarrow> ec_prev c)"

definition linked :: "'w epoll_state \<Rightarrow> nat list \<Rightarrow> bool" where
  "linked s xs \<longleftrightarrow> dlist (en s) (ep s) (dll_head s) (dll_tail s) xs \<and> (\<forall>a \<in> set xs. cells (econs s) a \<noteq> None)"

lemma first_or_in: "first_or xs None = Some a \<Longrightarrow> a \<in> set xs"
  by (cases xs) auto

lemma last_or_in: "last_or None xs = Some a \<Longrightarrow> a \<in> set xs"
  by (auto simp: last_or_def split: if_splits)

lemma dll_remove_linked:
  assumes "linked s xs" "a \<in> set xs"
  shows "okE (\<lambda>s'. linked s' (remove1 a xs)) (dll_remove a s)"
proof -
  obtain as bs where xs: "xs = as @ a # bs" using assms(2) by (meson split_list)
  have D: "dlist (en s) (ep s) (dll_head s) (dll_tail s) (as @ a # bs)"
    and alive: "\<And>b. b \<in> set xs \<Longrightarrow> cells (econs s) b \<noteq> None"
    using assms(1) xs by (auto simp: linked_def)
  note U = dlist_unlink [OF D]
  have dist: "distinct (as @ a # bs)" using D by (simp add: dlist_def)
  obtain c where c: "cells (econs s) a = Some c" using alive assms(2) by blast
  have ln: "en s a = ec_next c" "ep s a = ec_prev c" using c by (simp_all add: en_def ep_def)
  let ?h1 = "case ec_next c of None \<Rightarrow> econs s | Some n \<Rightarrow>
      (econs s)\<lparr>cells := (cells (econs s))(n := map_option (\<lambda>n. n\<lparr>ec_prev := ec_prev c\<rparr>) (cells (econs s) n))\<rparr>"
  let ?h2 = "case ec_prev c of None \<Rightarrow> ?h1 | Some p \<Rightarrow>
      ?h1\<lparr>cells := (cells ?h1)(p := map_option (\<lambda>p. p\<lparr>ec_next := ec_next c\<rparr>) (cells ?h1 p))\<rparr>"
  have nin: "ec_next c = Some n \<Longrightarrow> n \<in> set bs" for n
    using U(1) ln first_or_in [of bs n] by simp
  have pin: "ec_prev c = Some p \<Longrightarrow> p \<in> set as" for p
    using U(2) ln last_or_in [of as p] by simp
  have na: "ec_next c \<noteq> Some a" "ec_prev c \<noteq> Some a" using nin pin dist by auto
  have np: "ec_next c = Some n \<Longrightarrow> ec_prev c = Some p \<Longrightarrow> n \<noteq> p" for n p
    using nin pin dist by auto
  have nal: "ec_next c = Some n \<Longrightarrow> \<exists>d. cells (econs s) n = Some d" for n
    using nin alive xs by force
  have pal: "ec_prev c = Some p \<Longrightarrow> \<exists>d. cells (econs s) p = Some d" for p
    using pin alive xs by force
  let ?s = "s\<lparr>econs := ?h2, dll_head := (if Some a = dll_head s then ec_next c else dll_head s),
      dll_tail := (if Some a = dll_tail s then ec_prev c else dll_tail s)\<rparr>"
  have r: "dll_remove a s = Inr ?s"
    using c na nal pal np
    by (cases "ec_next c"; cases "ec_prev c") (fastforce simp: dll_remove_def hupd_def)+
  have en': "en ?s = upd (en s) (ep s a) (en s a)"
    using na nal pal np unfolding ln
    by (cases "ec_next c"; cases "ec_prev c") (fastforce simp: en_def fun_eq_iff)+
  have ep': "ep ?s = upd (ep s) (en s a) (ep s a)"
    using na nal pal np unfolding ln
    by (cases "ec_next c"; cases "ec_prev c") (fastforce simp: ep_def fun_eq_iff)+
  have alive': "cells (econs ?s) b \<noteq> None" if "b \<in> set xs" for b
    using alive [OF that] by (cases "ec_next c"; cases "ec_prev c") auto
  have rem: "remove1 a xs = as @ bs" using dist xs by (simp add: remove1_append)
  have "dlist (en ?s) (ep ?s) (dll_head ?s) (dll_tail ?s) (as @ bs)"
    using U(3) unfolding en' ep' ln by (simp add: eq_commute)
  then have "linked ?s (remove1 a xs)"
    using alive' xs unfolding linked_def rem by auto
  with r show ?thesis by simp
qed

interpretation ep_list: removable_list linked dll_remove
  by unfold_locales (rule dll_remove_linked, assumption+, simp add: linked_def dlist_def)

subsection \<open>The invariant of the epoll server\<close>

text \<open>
  Every connection object has an open descriptor of its own and a next link that is NULL (no
  operation ever sets one); its prev link points to an older object, which may be gone; the
  head has no prev link; head and tail are alive.
\<close>

definition con_ok :: "config \<Rightarrow> int set \<Rightarrow> int \<Rightarrow> int \<Rightarrow> nat \<Rightarrow> ep_connection \<Rightarrow> bool" where
  "con_ok cfg opn ls tfd a c \<longleftrightarrow> ec_next c = None \<and> length (ec_buf c) = DEFAULT_SERVER_BUFFER_SIZE cfg
     \<and> 0 \<le> ec_fd c \<and> ec_fd c \<in> opn \<and> ec_fd c \<noteq> ls \<and> ec_fd c \<noteq> tfd \<and> (\<forall>p. ec_prev c = Some p \<longrightarrow> p < a)"

definition ends_ok :: "ep_connection heap \<Rightarrow> ptr \<Rightarrow> ptr \<Rightarrow> bool" where
  "ends_ok h hp tp \<longleftrightarrow> (\<forall>a. hp = Some a \<longrightarrow> (\<exists>c. cells h a = Some c \<and> ec_prev c = None))
     \<and> (\<forall>a. tp = Some a \<longrightarrow> cells h a \<noteq> None)"

definition ep_inv :: "config \<Rightarrow> 'w kview \<Rightarrow> int \<Rightarrow> int \<Rightarrow> 'w epoll_state \<Rightarrow> bool" where
  "ep_inv cfg v ls tfd s \<longleftrightarrow> heap_ok (econs s) \<and> 0 \<le> ls \<and> ls \<in> kv_open v (eworld s)
     \<and> (tfd \<noteq> - 1 \<longrightarrow> 0 \<le> tfd \<and> tfd \<noteq> ls \<and> tfd \<in> kv_open v (eworld s))
     \<and> (\<forall>a c. cells (econs s) a = Some c \<longrightarrow> con_ok cfg (kv_open v (eworld s)) ls tfd a c)
     \<and> (\<forall>a b c d. cells (econs s) a = Some c \<longrightarrow> cells (econs s) b = Some d \<longrightarrow> ec_fd c = ec_fd d \<longrightarrow> a = b)
     \<and> ends_ok (econs s) (dll_head s) (dll_tail s) \<and> (DO_BENCH cfg \<longrightarrow> bench_inv (ebench s))"

lemma ep_invD:
  assumes "ep_inv cfg v ls tfd s"
  shows "heap_ok (econs s)" "0 \<le> ls" "ls \<in> kv_open v (eworld s)"
    "tfd \<noteq> - 1 \<Longrightarrow> 0 \<le> tfd \<and> tfd \<noteq> ls \<and> tfd \<in> kv_open v (eworld s)"
    "cells (econs s) a = Some c \<Longrightarrow> con_ok cfg (kv_open v (eworld s)) ls tfd a c"
    "cells (econs s) a = Some c \<Longrightarrow> cells (econs s) b = Some d \<Longrightarrow> ec_fd c = ec_fd d \<Longrightarrow> a = b"
    "ends_ok (econs s) (dll_head s) (dll_tail s)" "DO_BENCH cfg \<Longrightarrow> bench_inv (ebench s)"
  using assms unfolding ep_inv_def by blast+

definition eechoes :: "'w kview \<Rightarrow> 'w epoll_state \<Rightarrow> 'w epoll_state \<Rightarrow> bool" where
  "eechoes v s s' \<longleftrightarrow> (echoed v (eworld s) \<longrightarrow> echoed v (eworld s'))"

text \<open>What \<open>dll_remove\<close> does in such a state: nothing to the objects, except reading the one
  before.\<close>

definition without :: "nat \<Rightarrow> ep_connection \<Rightarrow> 'w epoll_state \<Rightarrow> 'w epoll_state" where
  "without a c s = s\<lparr>dll_head := (if Some a = dll_head s then None else dll_head s),
     dll_tail := (if Some a = dll_tail s then ec_prev c else dll_tail s)\<rparr>"

lemma dll_remove_exact:
  assumes inv: "ep_inv cfg v ls tfd s" and c: "cells (econs s) a = Some c"
  shows "dll_remove a s =
     (case ec_prev c of None \<Rightarrow> Inr (without a c s)
      | Some p \<Rightarrow> if cells (econs s) p = None then Inl (UB UseAfterFree) else Inr (without a c s))"
proof -
  have n: "ec_next c = None" using ep_invD(5) [OF inv c] by (simp add: con_ok_def)
  have pn: "ec_next d = None" if "cells (econs s) p = Some d" for p d
    using ep_invD(5) [OF inv that] by (simp add: con_ok_def)
  have same: "(econs s)\<lparr>cells := (cells (econs s))(p := Some (d\<lparr>ec_next := None\<rparr>))\<rparr> = econs s"
    if "cells (econs s) p = Some d" for p d
  proof -
    have "d\<lparr>ec_next := None\<rparr> = d" using pn [OF that] by (cases d) simp
    then show ?thesis using that by (simp add: fun_upd_idem)
  qed
  show ?thesis
  proof (cases "ec_prev c")
    case None
    then show ?thesis using c n by (simp add: dll_remove_def without_def)
  next
    case (Some p)
    show ?thesis
    proof (cases "cells (econs s) p")
      case None
      then show ?thesis using c n Some by (simp add: dll_remove_def hupd_def)
    next
      case (Some d)
      then show ?thesis
        using c n \<open>ec_prev c = Some p\<close> same [OF Some] by (simp add: dll_remove_def without_def)
    qed
  qed
qed

text \<open>Removing a connection whose descriptor is closed with it.\<close>

definition dropped :: "nat \<Rightarrow> ep_connection \<Rightarrow> 'w \<Rightarrow> 'w epoll_state \<Rightarrow> 'w epoll_state" where
  "dropped a c w s = (without a c s)\<lparr>eworld := w, econs := (econs s)\<lparr>cells := (cells (econs s))(a := None)\<rparr>\<rparr>"

lemma dropped_inv:
  assumes inv: "ep_inv cfg v ls tfd s" and c: "cells (econs s) a = Some c"
    and p: "\<And>p. ec_prev c = Some p \<Longrightarrow> cells (econs s) p \<noteq> None"
    and w: "kv_open v w = kv_open v (eworld s) - {ec_fd c}"
  shows "ep_inv cfg v ls tfd (dropped a c w s)"
proof -
  note D = ep_invD [OF inv]
  let ?s = "dropped a c w s"
  have f: "ec_fd c \<noteq> ls" "ec_fd c \<noteq> tfd" using D(5) [OF c] by (auto simp: con_ok_def)
  have cells: "cells (econs ?s) = (cells (econs s))(a := None)" by (simp add: dropped_def)
  have ok: "con_ok cfg (kv_open v w) ls tfd b d" if "cells (econs ?s) b = Some d" for b d
  proof -
    have b: "b \<noteq> a" "cells (econs s) b = Some d" using that cells by (auto split: if_splits)
    then have "ec_fd d \<noteq> ec_fd c" using D(6) [OF b(2) c] by auto
    then show ?thesis using D(5) [OF b(2)] w by (simp add: con_ok_def)
  qed
  have pa: "ec_prev c \<noteq> Some a" using D(5) [OF c] by (auto simp: con_ok_def)
  have "ends_ok (econs ?s) (dll_head ?s) (dll_tail ?s)"
    using D(7) p pa by (auto simp: ends_ok_def dropped_def without_def)
  moreover have "heap_ok (econs ?s)"
    using heap_ok_upd [OF D(1), of a None] c by (simp add: dropped_def)
  ultimately show ?thesis
    using D(2,3,4,6,8) f w ok unfolding ep_inv_def by (auto simp: dropped_def without_def split: if_splits)
qed

lemma eclose_client_safe:
  assumes K: "close_spec env v" and inv: "ep_inv cfg v ls tfd s" and c: "cells (econs s) a = Some c"
    and p: "\<And>p. ec_prev c = Some p \<Longrightarrow> cells (econs s) p \<noteq> None"
  shows "safeE (\<lambda>s'. \<exists>w. s' = dropped a c w s \<and> kv_open v w = kv_open v (eworld s) - {ec_fd c}
     \<and> kv_in v w = kv_in v (eworld s) \<and> kv_out v w = kv_out v (eworld s)
     \<and> e_close env (ec_fd c) (eworld s) = (0, w)) (eclose_client env a s)"
proof -
  obtain rc w where e: "e_close env (ec_fd c) (eworld s) = (rc, w)" by force
  note E = K [unfolded close_spec_def, rule_format, OF e]
  have "dll_remove a s = Inr (without a c s)"
    using dll_remove_exact [OF inv c] p by (auto split: option.splits)
  then show ?thesis
    using c e E by (auto simp: eclose_client_def eclose_fd_def without_def dropped_def)
qed

subsection \<open>The contract of epoll\<close>

text \<open>
  \<open>iv\<close> is the interest list: the descriptors added with the pointer given for each.
  Closing a descriptor removes it; a wait reports each entry at most once.
\<close>

definition epoll_spec ::
    "('w, 'x) epoll_env_scheme \<Rightarrow> 'w kview \<Rightarrow> ('w \<Rightarrow> (int \<times> epoll_data) set) \<Rightarrow> bool" where
  "epoll_spec env v iv \<longleftrightarrow>
     (\<forall>ef fd es d w rc w'. e_epoll_ctl_add env ef fd es d w = (rc, w') \<longrightarrow>
        same_view v w w' \<and> iv w' = (if rc = 0 then insert (fd, d) (iv w) else iv w))
     \<and> (\<forall>fd w rc w'. e_close env fd w = (rc, w') \<longrightarrow>
        iv w' = (if rc = 0 then {x \<in> iv w. fst x \<noteq> fd} else iv w))
     \<and> (\<forall>fd n w rd w'. e_read env fd n w = (rd, w') \<longrightarrow> iv w' = iv w)
     \<and> (\<forall>fd bs w rc w'. e_write env fd bs w = (rc, w') \<longrightarrow> iv w' = iv w)
     \<and> (\<forall>fd w ac w'. e_accept4 env fd w = (ac, w') \<longrightarrow> iv w' = iv w)
     \<and> (\<forall>n w m w'. e_malloc env n w = (m, w') \<longrightarrow> iv w' = iv w)
     \<and> (\<forall>w t w'. e_clock env w = (t, w') \<longrightarrow> iv w' = iv w)
     \<and> (\<forall>ef n w rc errno evs sig w'. e_epoll_pwait env ef n w = ((rc, errno, evs, sig), w') \<longrightarrow>
        same_view v w w' \<and> iv w' = iv w \<and> - 1 \<le> rc
        \<and> (0 \<le> rc \<longrightarrow> length evs = nat rc \<and> distinct (map snd evs) \<and> snd ` set evs \<subseteq> snd ` iv w))"

lemma epoll_specD:
  assumes "epoll_spec env v iv"
  shows "e_epoll_ctl_add env ef fd es d w = (rc, w') \<Longrightarrow> same_view v w w' \<and> iv w' = (if rc = 0 then insert (fd, d) (iv w) else iv w)"
    "e_close env fd w = (rc, w') \<Longrightarrow> iv w' = (if rc = 0 then {x \<in> iv w. fst x \<noteq> fd} else iv w)"
    "e_read env fd n w = (rd, w') \<Longrightarrow> iv w' = iv w" "e_write env fd bs w = (rc, w') \<Longrightarrow> iv w' = iv w"
    "e_accept4 env fd w = (ac, w') \<Longrightarrow> iv w' = iv w" "e_malloc env n w = (m, w') \<Longrightarrow> iv w' = iv w"
    "e_clock env w = (t, w') \<Longrightarrow> iv w' = iv w"
    "e_epoll_pwait env ef n w = ((rc, errno, evs, sig), w') \<Longrightarrow> same_view v w w' \<and> iv w' = iv w \<and> - 1 \<le> rc
        \<and> (0 \<le> rc \<longrightarrow> length evs = nat rc \<and> distinct (map snd evs) \<and> snd ` set evs \<subseteq> snd ` iv w)"
proof -
  note A = assms [unfolded epoll_spec_def]
  note B = A [THEN conjunct2] note C = B [THEN conjunct2] note D = C [THEN conjunct2]
  note E = D [THEN conjunct2] note F = E [THEN conjunct2] note G = F [THEN conjunct2] note H = G [THEN conjunct2]
  show "e_epoll_ctl_add env ef fd es d w = (rc, w') \<Longrightarrow> same_view v w w' \<and> iv w' = (if rc = 0 then insert (fd, d) (iv w) else iv w)"
    by (rule A [THEN conjunct1, rule_format])
  show "e_close env fd w = (rc, w') \<Longrightarrow> iv w' = (if rc = 0 then {x \<in> iv w. fst x \<noteq> fd} else iv w)"
    by (rule B [THEN conjunct1, rule_format])
  show "e_read env fd n w = (rd, w') \<Longrightarrow> iv w' = iv w" by (rule C [THEN conjunct1, rule_format])
  show "e_write env fd bs w = (rc, w') \<Longrightarrow> iv w' = iv w" by (rule D [THEN conjunct1, rule_format])
  show "e_accept4 env fd w = (ac, w') \<Longrightarrow> iv w' = iv w" by (rule E [THEN conjunct1, rule_format])
  show "e_malloc env n w = (m, w') \<Longrightarrow> iv w' = iv w" by (rule F [THEN conjunct1, rule_format])
  show "e_clock env w = (t, w') \<Longrightarrow> iv w' = iv w" by (rule G [THEN conjunct1, rule_format])
  show "e_epoll_pwait env ef n w = ((rc, errno, evs, sig), w') \<Longrightarrow> same_view v w w' \<and> iv w' = iv w \<and> - 1 \<le> rc
        \<and> (0 \<le> rc \<longrightarrow> length evs = nat rc \<and> distinct (map snd evs) \<and> snd ` set evs \<subseteq> snd ` iv w)"
    by (rule H [rule_format])
qed

definition registered :: "('w \<Rightarrow> (int \<times> epoll_data) set) \<Rightarrow> int \<Rightarrow> int \<Rightarrow> 'w epoll_state \<Rightarrow> bool" where
  "registered iv ls tfd s \<longleftrightarrow> (\<forall>g d. (g, d) \<in> iv (eworld s) \<longleftrightarrow> (case d of
       LfdHolder \<Rightarrow> g = ls
     | TfdHolder \<Rightarrow> tfd \<noteq> - 1 \<and> g = tfd
     | ConPtr a \<Rightarrow> \<exists>c. cells (econs s) a = Some c \<and> ec_fd c = g))"

definition esafe :: "config \<Rightarrow> 'w kview \<Rightarrow> ('w \<Rightarrow> (int \<times> epoll_data) set) \<Rightarrow> int \<Rightarrow> int \<times> 'w epoll_state \<Rightarrow> bool" where
  "esafe cfg v iv ls = (\<lambda>(tfd, s). ep_inv cfg v ls tfd s \<and> registered iv ls tfd s)"

subsection \<open>Accepting\<close>

definition clients_left :: "config \<Rightarrow> nat \<Rightarrow> 'w epoll_state \<Rightarrow> bool" where
  "clients_left cfg n s \<longleftrightarrow> (DO_BENCH cfg \<longrightarrow> client_no (ebench s) + int n < 2 ^ 31)"

definition keeps_cons :: "'w epoll_state \<Rightarrow> 'w epoll_state \<Rightarrow> bool" where
  "keeps_cons s s' \<longleftrightarrow> (\<forall>a. cells (econs s) a \<noteq> None \<longrightarrow> cells (econs s') a = cells (econs s) a)"

text \<open>A connection at a fresh address, put at the back.\<close>

definition connected :: "ep_connection \<Rightarrow> 'w \<Rightarrow> 'w epoll_state \<Rightarrow> 'w epoll_state" where
  "connected c w s = (let a = next_addr (econs s);
       c' = (if dll_head s = None then c else c\<lparr>ec_prev := dll_tail s\<rparr>)
     in s\<lparr>econs := (econs s)\<lparr>cells := (cells (econs s))(a := Some c'), next_addr := Suc a\<rparr>, eworld := w,
          dll_head := (if dll_head s = None then Some a else dll_head s), dll_tail := Some a\<rparr>)"

lemma connect_back_eq:
  "halloc c (econs s) = (a, h) \<Longrightarrow> dll_connect_back a (s\<lparr>econs := h, eworld := w\<rparr>) = Inr (connected c w s)"
  by (auto simp: dll_connect_back_def connected_def halloc_def hupd_def Let_def)

lemma connected_inv:
  assumes inv: "esafe cfg v iv ls (tfd, s)" and f: "0 \<le> f" "f \<notin> kv_open v (eworld s)"
    and c: "c = \<lparr>ec_fd = f, ec_buf_size = 0, ec_buf = replicate (DEFAULT_SERVER_BUFFER_SIZE cfg) 0, ec_next = None, ec_prev = None\<rparr>"
    and w: "kv_open v w = insert f (kv_open v (eworld s))"
      "iv w = insert (f, ConPtr (next_addr (econs s))) (iv (eworld s))"
  shows "esafe cfg v iv ls (tfd, connected c w s)" "keeps_cons s (connected c w s)"
proof -
  have I: "ep_inv cfg v ls tfd s" and R: "registered iv ls tfd s" using inv by (simp_all add: esafe_def)
  note D = ep_invD [OF I]
  let ?a = "next_addr (econs s)" and ?s = "connected c w s"
  let ?c = "if dll_head s = None then c else c\<lparr>ec_prev := dll_tail s\<rparr>"
  have fresh: "cells (econs s) ?a = None" using D(1) by (rule heap_ok_fresh)
  have alive: "cells (econs s) b \<noteq> None \<Longrightarrow> b < ?a" for b
    using D(1) by (meson heap_ok_def not_le)
  have cells: "cells (econs ?s) = (cells (econs s))(?a := Some ?c)" by (simp add: connected_def Let_def)
  have fc: "ec_fd ?c = f" using c by simp
  have tl: "dll_tail s = Some p \<Longrightarrow> p < ?a" for p
    using D(7) alive by (auto simp: ends_ok_def)
  have ok: "con_ok cfg (kv_open v w) ls tfd b d" if "cells (econs ?s) b = Some d" for b d
  proof (cases "b = ?a")
    case True
    then have "d = ?c" using that cells by simp
    then show ?thesis using True c f D(3,4) w tl by (auto simp: con_ok_def)
  next
    case False
    then show ?thesis using D(5) [of b d] that cells w by (auto simp: con_ok_def)
  qed
  have old: "cells (econs s) b = Some d \<Longrightarrow> ec_fd d \<noteq> f" for b d
    using D(5) [of b d] f(2) by (auto simp: con_ok_def)
  have fd: "ec_fd d = f \<longleftrightarrow> b = ?a" if "cells (econs ?s) b = Some d" for b d
  proof (cases "b = ?a")
    case True
    then have "d = ?c" using that cells by simp
    then show ?thesis using True fc by simp
  next
    case False
    then have "cells (econs s) b = Some d" using that cells by simp
    from old [OF this] False show ?thesis by simp
  qed
  have inj: "b = b'"
    if p: "cells (econs ?s) b = Some d" "cells (econs ?s) b' = Some d'" "ec_fd d = ec_fd d'" for b d b' d'
  proof (cases "b = ?a")
    case True
    then show ?thesis using fd [OF p(1)] fd [OF p(2)] p(3) by simp
  next
    case False
    then have "b' \<noteq> ?a" using fd [OF p(1)] fd [OF p(2)] p(3) by simp
    then show ?thesis using False p D(6) cells by simp
  qed
  have ends: "ends_ok (econs ?s) (dll_head ?s) (dll_tail ?s)"
    using D(7) fresh c by (auto simp: ends_ok_def connected_def Let_def)
  have hp: "heap_ok (econs ?s)" using D(1) by (auto simp: heap_ok_def connected_def Let_def)
  have wd: "eworld ?s = w" "ebench ?s = ebench s" by (simp_all add: connected_def Let_def)
  have E: "ep_inv cfg v ls tfd ?s"
    using hp D(2,3,4,8) ok inj ends w(1) unfolding ep_inv_def wd by blast
  have ch: "(\<exists>d. cells (econs ?s) b = Some d \<and> ec_fd d = g)
      \<longleftrightarrow> (b = ?a \<and> g = f) \<or> (\<exists>d. cells (econs s) b = Some d \<and> ec_fd d = g)" for b g
    using fresh fc cells by (cases "b = ?a") auto
  have "registered iv ls tfd ?s"
    using R ch unfolding registered_def wd w(2) by (auto split: epoll_data.split)
  with E show "esafe cfg v iv ls (tfd, ?s)" by (simp add: esafe_def)
  show "keeps_cons s ?s" using fresh by (auto simp: keeps_cons_def cells)
qed

definition accept_post ::
    "config \<Rightarrow> 'w kview \<Rightarrow> ('w \<Rightarrow> (int \<times> epoll_data) set) \<Rightarrow> int \<Rightarrow> nat \<Rightarrow> int \<Rightarrow> 'w epoll_state \<Rightarrow> 'w epoll_state \<Rightarrow> bool" where
  "accept_post cfg v iv ls n tfd s s' \<longleftrightarrow> esafe cfg v iv ls (tfd, s') \<and> keeps_cons s s' \<and> eechoes v s s'
     \<and> erunning s' = erunning s \<and> client_no (ebench s') \<le> client_no (ebench s) + int n"

lemma same_view_D: "same_view v w w' \<Longrightarrow> kv_open v w' = kv_open v w" "same_view v w w' \<Longrightarrow> kv_in v w' = kv_in v w"
  "same_view v w w' \<Longrightarrow> kv_out v w' = kv_out v w"
  by (simp_all add: same_view_def)

lemma epoll_new_client_safe:
  assumes K: "kernel_spec env v" "epoll_spec env v iv" and inv: "esafe cfg v iv ls (tfd, s)"
    and f: "0 \<le> f" "f \<notin> kv_open v (eworld s)" and w: "kv_open v w = insert f (kv_open v (eworld s))"
      "kv_in v w = (kv_in v (eworld s))(f := [])" "kv_out v w = (kv_out v (eworld s))(f := [])" "iv w = iv (eworld s)"
    and n: "clients_left cfg (Suc n) s"
  shows "safeE (accept_post cfg v iv ls 1 tfd s) (epoll_handle_new_client cfg env ef f (s\<lparr>eworld := w\<rparr>))"
proof -
  let ?c = "\<lparr>ec_fd = f, ec_buf_size = 0, ec_buf = replicate (DEFAULT_SERVER_BUFFER_SIZE cfg) 0, ec_next = None, ec_prev = None\<rparr>"
  obtain mem w1 where m: "e_malloc env (sizeof_ep_con cfg) w = (mem, w1)" by force
  obtain a h where h: "halloc ?c (econs s) = (a, h)" by force
  then have a: "a = next_addr (econs s)" by (simp add: halloc_def)
  obtain rc w2 where e: "e_epoll_ctl_add env ef f (EPOLLIN OR EPOLLRDHUP OR EPOLLET) (ConPtr a) w1 = (rc, w2)" by force
  have "same_view v w (snd (e_malloc env (sizeof_ep_con cfg) w))"
    using kernel_specD(5) [OF K(1)] unfolding quiet_spec_def by blast
  then have "same_view v w w2"
    using m epoll_specD(1) [OF K(2) e] same_view_trans by (metis snd_conv)
  note V = same_view_D [OF this]
  let ?s = "connected ?c w2 s"
  have fin: "esafe cfg v iv ls (tfd, ?s)" "keeps_cons s ?s" if "rc = 0"
  proof -
    have "iv w2 = insert (f, ConPtr (next_addr (econs s))) (iv (eworld s))"
      using that epoll_specD(1) [OF K(2) e] epoll_specD(6) [OF K(2) m] w(4) a by simp
    from connected_inv [OF inv f refl _ this] show "esafe cfg v iv ls (tfd, ?s)" "keeps_cons s ?s"
      using V(1) w(1) by simp_all
  qed
  have wd: "eworld ?s = w2" "ebench ?s = ebench s" "erunning ?s = erunning s" by (simp_all add: connected_def Let_def)
  have ech: "eechoes v s ?s" using V w by (simp add: eechoes_def echoed_def wd)
  have eq: "dll_connect_back a (s\<lparr>econs := h, eworld := w2\<rparr>) = Inr ?s"
    by (rule connect_back_eq [OF h])
  have "s\<lparr>eworld := w2, econs := h\<rparr> = s\<lparr>econs := h, eworld := w2\<rparr>" by simp
  then have eq': "dll_connect_back a (s\<lparr>eworld := w2, econs := h\<rparr>) = Inr ?s"
    using eq by metis
  have post: "accept_post cfg v iv ls 1 tfd s (?s\<lparr>ebench := b\<rparr>)"
    if "rc = 0" "DO_BENCH cfg \<longrightarrow> bench_inv b" "client_no b \<le> client_no (ebench s) + 1" for b
    using fin [OF that(1)] ech that(2,3) wd
    by (simp add: accept_post_def esafe_def ep_inv_def registered_def keeps_cons_def eechoes_def cong: epoll_data.case_cong)
  have "accept_post cfg v iv ls 1 tfd s ?s" if "rc = 0"
    using fin [OF that] ech wd by (simp add: accept_post_def)
  moreover have "DO_BENCH cfg \<Longrightarrow> bench_inv (ebench s)" using inv by (simp add: esafe_def ep_inv_def)
  ultimately show ?thesis
    using m h e eq eq' n wd post
    by (cases "DO_BENCH cfg")
      (auto simp: epoll_handle_new_client_def Let_def sb_client_connected_def clients_left_def c_int_def bench_inv_def)
qed

lemma accept_client_world:
  "accept_client env ls w = Inr (c, w') \<Longrightarrow> \<exists>x. e_accept4 env ls w = (x, w')"
  by (auto simp: accept_client_def bindE_eq_Inr split: prod.splits if_splits)

lemma accept_post_step:
  assumes "accept_post cfg v iv ls 1 tfd s s1" "accept_post cfg v iv ls n tfd s1 s'"
  shows "accept_post cfg v iv ls (Suc n) tfd s s'"
  using assms by (auto simp: accept_post_def keeps_cons_def eechoes_def)

lemma accept_loop_safe:
  assumes K: "kernel_spec env v" "epoll_spec env v iv"
  shows "esafe cfg v iv ls (tfd, s) \<Longrightarrow> clients_left cfg n s \<Longrightarrow>
     epoll_handle_new_clients n cfg env ef ls s = Some r \<Longrightarrow> safeE (accept_post cfg v iv ls n tfd s) r"
proof (induction n arbitrary: s)
  case (Suc n)
  show ?case
  proof (cases "accept_client env ls (eworld s)")
    case (Inl e)
    then have "r = Inl e" using Suc.prems(3) by simp
    then show ?thesis using accept_client_safe [OF kernel_specD(3) [OF K(1)], of "eworld s" ls] Inl
      by (auto simp: safeE_def split: stop.splits)
  next
    case (Inr cw)
    obtain c w where cw: "cw = (c, w)" by force
    then have acc: "accept_client env ls (eworld s) = Inr (c, w)" using Inr by simp
    have iw: "iv w = iv (eworld s)"
      using accept_client_world [OF acc] epoll_specD(5) [OF K(2)] by blast
    have A: "(c = - 1 \<and> same_view v (eworld s) w)
        \<or> (0 \<le> c \<and> c \<notin> kv_open v (eworld s) \<and> kv_open v w = insert c (kv_open v (eworld s))
          \<and> kv_in v w = (kv_in v (eworld s))(c := []) \<and> kv_out v w = (kv_out v (eworld s))(c := []))"
      using accept_client_safe [OF kernel_specD(3) [OF K(1)], of "eworld s" ls] acc by simp
    show ?thesis
    proof (cases "c = - 1")
      case True
      then have sv: "same_view v (eworld s) w" using A by auto
      have "accept_post cfg v iv ls (Suc n) tfd s (s\<lparr>eworld := w\<rparr>)"
        using Suc.prems(1) same_view_D [OF sv] iw
        by (simp add: accept_post_def esafe_def ep_inv_def registered_def keeps_cons_def eechoes_def echoed_def
            cong: epoll_data.case_cong)
      moreover have "r = Inr (s\<lparr>eworld := w\<rparr>)" using Suc.prems(3) acc True by simp
      ultimately show ?thesis by simp
    next
      case False
      then have c: "0 \<le> c" "c \<notin> kv_open v (eworld s)" "kv_open v w = insert c (kv_open v (eworld s))"
          "kv_in v w = (kv_in v (eworld s))(c := [])" "kv_out v w = (kv_out v (eworld s))(c := [])"
        using A by auto
      have S: "safeE (accept_post cfg v iv ls 1 tfd s) (epoll_handle_new_client cfg env ef c (s\<lparr>eworld := w\<rparr>))"
        using Suc.prems(2) by (intro epoll_new_client_safe [OF K Suc.prems(1) c iw])
      show ?thesis
      proof (cases "epoll_handle_new_client cfg env ef c (s\<lparr>eworld := w\<rparr>)")
        case (Inl e)
        then have "r = Inl e" using Suc.prems(3) acc False by simp
        then show ?thesis using S Inl by (auto simp: safeE_def split: stop.splits)
      next
        case (Inr s1)
        then have P: "accept_post cfg v iv ls 1 tfd s s1" using S by simp
        have r: "epoll_handle_new_clients n cfg env ef ls s1 = Some r"
          using Suc.prems(3) acc False Inr by simp
        have "esafe cfg v iv ls (tfd, s1)" "clients_left cfg n s1"
          using P Suc.prems(2) by (auto simp: accept_post_def clients_left_def)
        from Suc.IH [OF this r] show ?thesis
          by (rule safeE_mono) (rule accept_post_step [OF P])
      qed
    qed
  qed
qed simp

subsection \<open>Serving events\<close>

text \<open>An event is of a registered entry; a closing one may refer to a connection whose
  predecessor is gone.\<close>

definition ev_live :: "int \<times> 'w epoll_state \<Rightarrow> epoll_data \<Rightarrow> bool" where
  "ev_live = (\<lambda>(tfd, s) d. case d of LfdHolder \<Rightarrow> True | TfdHolder \<Rightarrow> tfd \<noteq> - 1 | ConPtr a \<Rightarrow> cells (econs s) a \<noteq> None)"

definition dangles :: "32 word \<times> epoll_data \<Rightarrow> 'w epoll_state \<Rightarrow> bool" where
  "dangles ev s \<longleftrightarrow> (\<exists>a c p. snd ev = ConPtr a \<and> fst ev AND EPOLLRDHUP \<noteq> 0 \<and> cells (econs s) a = Some c
     \<and> ec_prev c = Some p \<and> cells (econs s) p = None)"

definition served ::
    "nat \<Rightarrow> config \<Rightarrow> 'w kview \<Rightarrow> ('w \<Rightarrow> (int \<times> epoll_data) set) \<Rightarrow> int \<Rightarrow> epoll_data \<Rightarrow> int \<times> 'w epoll_state \<Rightarrow> int \<times> 'w epoll_state \<Rightarrow> bool" where
  "served n cfg v iv ls d = (\<lambda>(tfd, s) (tfd', s'). esafe cfg v iv ls (tfd', s') \<and> eechoes v s s'
     \<and> erunning s' = erunning s \<and> (\<forall>e. e \<noteq> d \<longrightarrow> ev_live (tfd, s) e \<longrightarrow> ev_live (tfd', s') e)
     \<and> client_no (ebench s') \<le> client_no (ebench s) + (if d = LfdHolder then int n else 0))"

lemma registered_closed:
  assumes R: "registered iv ls tfd s" and I: "ep_inv cfg v ls tfd s" and c: "cells (econs s) a = Some c"
    and w: "iv w = {x \<in> iv (eworld s). fst x \<noteq> ec_fd c}"
  shows "registered iv ls tfd (dropped a c w s)"
proof -
  note D = ep_invD [OF I]
  have f: "ec_fd c \<noteq> ls" "ec_fd c \<noteq> tfd" using D(5) [OF c] by (auto simp: con_ok_def)
  have ch: "(\<exists>d. cells (econs (dropped a c w s)) b = Some d \<and> ec_fd d = g)
      \<longleftrightarrow> (\<exists>d. cells (econs s) b = Some d \<and> ec_fd d = g) \<and> g \<noteq> ec_fd c" for b g
    using c D(6) [OF c, of b] by (cases "b = a") (auto simp: dropped_def)
  have "eworld (dropped a c w s) = w" by (simp add: dropped_def)
  then show ?thesis
    using R f ch unfolding registered_def by (auto simp: w split: epoll_data.split)
qed

lemma read_n_echo_iv:
  assumes "epoll_spec env v iv" "read_n_echo env cfg fd buf n w = Inr (r, buf', w')"
  shows "iv w' = iv w"
proof -
  obtain rc data w1 where r: "e_read env fd n w = ((rc, data), w1)" by (metis prod.collapse)
  have "w' = w1 \<or> (\<exists>m. w' = snd (e_write env fd m w1))"
    using assms(2) r by (auto simp: read_n_echo_def bindE_eq_Inr case_prod_beta split: if_splits)
  moreover have "iv (snd (e_write env fd m w1)) = iv w1" for m
    by (rule epoll_specD(4) [OF assms(1)]) (rule prod.collapse [symmetric])
  ultimately show ?thesis using epoll_specD(3) [OF assms(1) r] by auto
qed

text \<open>Changes of the state that leave entries, descriptors and registrations alone.\<close>

lemma esafe_world:
  "esafe cfg v iv ls (tfd, s) \<Longrightarrow> kv_open v w = kv_open v (eworld s) \<Longrightarrow> iv w = iv (eworld s) \<Longrightarrow>
     esafe cfg v iv ls (tfd, s\<lparr>eworld := w\<rparr>)"
  by (simp add: esafe_def ep_inv_def registered_def cong: epoll_data.case_cong)

lemma esafe_bench:
  "esafe cfg v iv ls (tfd, s) \<Longrightarrow> (DO_BENCH cfg \<longrightarrow> bench_inv b) \<Longrightarrow> esafe cfg v iv ls (tfd, s\<lparr>ebench := b\<rparr>)"
  by (simp add: esafe_def ep_inv_def registered_def cong: epoll_data.case_cong)

lemma esafe_running: "esafe cfg v iv ls (tfd, s) \<Longrightarrow> esafe cfg v iv ls (tfd, s\<lparr>erunning := r\<rparr>)"
  by (simp add: esafe_def ep_inv_def registered_def cong: epoll_data.case_cong)

lemma esafe_buffer:
  assumes inv: "esafe cfg v iv ls (tfd, s)" and c: "cells (econs s) a = Some c" and l: "length buf = length (ec_buf c)"
  shows "esafe cfg v iv ls (tfd, s\<lparr>econs := (econs s)\<lparr>cells := (cells (econs s))(a := Some (c\<lparr>ec_buf := buf, ec_buf_size := n\<rparr>))\<rparr>\<rparr>)"
    (is "esafe _ _ _ _ (_, ?s)")
proof -
  have I: "ep_inv cfg v ls tfd s" and R: "registered iv ls tfd s" using inv by (simp_all add: esafe_def)
  note D = ep_invD [OF I]
  let ?c = "c\<lparr>ec_buf := buf, ec_buf_size := n\<rparr>"
  have old: "\<exists>d'. cells (econs s) b = Some d' \<and> ec_fd d' = ec_fd d \<and> ec_next d' = ec_next d
      \<and> ec_prev d' = ec_prev d \<and> length (ec_buf d') = length (ec_buf d)" if "cells (econs ?s) b = Some d" for b d
    using that c l by (cases "b = a") auto
  have ok: "con_ok cfg (kv_open v (eworld s)) ls tfd b d" if cd: "cells (econs ?s) b = Some d" for b d
    using old [OF cd] D(5) [of b] by (auto simp: con_ok_def)
  have inj: "b = b'" if p: "cells (econs ?s) b = Some d" "cells (econs ?s) b' = Some d'" "ec_fd d = ec_fd d'" for b d b' d'
  proof -
    obtain e where e: "cells (econs s) b = Some e" "ec_fd e = ec_fd d" using old [OF p(1)] by blast
    obtain e' where e': "cells (econs s) b' = Some e'" "ec_fd e' = ec_fd d'" using old [OF p(2)] by blast
    show ?thesis using D(6) [OF e(1) e'(1)] e(2) e'(2) p(3) by simp
  qed
  have hp: "heap_ok (econs ?s)" using heap_ok_upd [OF D(1), of a "Some ?c"] c by simp
  have ends: "ends_ok (econs ?s) (dll_head ?s) (dll_tail ?s)"
    using D(7) c by (auto simp: ends_ok_def)
  have wd: "eworld ?s = eworld s" "ebench ?s = ebench s" by simp_all
  have E: "ep_inv cfg v ls tfd ?s"
    using hp D(2,3,4,8) ok inj ends unfolding ep_inv_def wd by blast
  have ch: "(\<exists>d. cells (econs ?s) b = Some d \<and> ec_fd d = g) \<longleftrightarrow> (\<exists>d. cells (econs s) b = Some d \<and> ec_fd d = g)" for b g
    using c by (cases "b = a") auto
  have "registered iv ls tfd ?s"
    using R ch unfolding registered_def by (simp cong: epoll_data.case_cong)
  with E show ?thesis by (simp add: esafe_def)
qed

text \<open>The clock and the benchmark.\<close>

lemma elatency_view:
  assumes "quiet_spec env v" "epoll_spec env' v iv" "e_clock env' = e_clock env" "elatency_clock cfg env s = (t, s')"
  shows "\<exists>w. s' = s\<lparr>eworld := w\<rparr> \<and> same_view v (eworld s) w \<and> iv w = iv (eworld s) \<and> (latency_on cfg \<longrightarrow> clock_ts t)"
proof (cases "latency_on cfg")
  case False
  then have "s' = s" using assms(4) by (simp add: elatency_clock_def)
  then show ?thesis using False by (intro exI [of _ "eworld s"]) simp
next
  case True
  obtain x w where c: "e_clock env (eworld s) = (x, w)" by force
  then have "s' = s\<lparr>eworld := w\<rparr>" "t = x" using assms(4) True by (simp_all add: elatency_clock_def)
  moreover have "iv w = iv (eworld s)" using epoll_specD(7) [OF assms(2)] assms(3) c by metis
  moreover have "same_view v (eworld s) w" "clock_ts x"
    using assms(1) c unfolding quiet_spec_def by (metis snd_conv, metis fst_conv)
  ultimately show ?thesis by blast
qed

lemma closing_event_safe:
  assumes K: "kernel_spec env v" "epoll_spec env v iv" and inv: "esafe cfg v iv ls (tfd, s)"
    and c: "cells (econs s) a = Some c" and p: "\<And>p. ec_prev c = Some p \<Longrightarrow> cells (econs s) p \<noteq> None"
  shows "safeE (\<lambda>s'. served n cfg v iv ls (ConPtr a) (tfd, s) (tfd, s')) (eclose_client env a s)"
proof -
  have I: "ep_inv cfg v ls tfd s" and R: "registered iv ls tfd s" using inv by (simp_all add: esafe_def)
  show ?thesis
  proof (rule safeE_mono [OF eclose_client_safe [OF kernel_specD(4) [OF K(1)] I c p]], assumption, elim exE conjE)
    fix x w assume x: "x = dropped a c w s" and w: "kv_open v w = kv_open v (eworld s) - {ec_fd c}"
      "kv_in v w = kv_in v (eworld s)" "kv_out v w = kv_out v (eworld s)" "e_close env (ec_fd c) (eworld s) = (0, w)"
    have "ep_inv cfg v ls tfd (dropped a c w s)" by (rule dropped_inv [OF I c p w(1)])
    moreover have "registered iv ls tfd (dropped a c w s)"
      using epoll_specD(2) [OF K(2) w(4)] by (intro registered_closed [OF R I c]) simp
    moreover have "eworld (dropped a c w s) = w" "erunning (dropped a c w s) = erunning s" "ebench (dropped a c w s) = ebench s"
      by (simp_all add: dropped_def without_def)
    moreover have "ev_live (tfd, dropped a c w s) e" if "e \<noteq> ConPtr a" "ev_live (tfd, s) e" for e
      using that by (cases e) (auto simp: ev_live_def dropped_def)
    ultimately show "served n cfg v iv ls (ConPtr a) (tfd, s) (tfd, x)"
      using w(2,3) by (auto simp: served_def esafe_def eechoes_def echoed_def x)
  qed
qed

lemma reading_event_safe:
  assumes K: "kernel_spec env v" "epoll_spec env v iv" and inv: "esafe cfg v iv ls (tfd, s)"
    and c: "cells (econs s) a = Some c" and ev: "events AND EPOLLRDHUP = 0"
  shows "safeE (\<lambda>s'. served n cfg v iv ls (ConPtr a) (tfd, s) (tfd, s')) (ehandle_client_event cfg env events a s)"
proof (cases "events AND EPOLLIN = 0")
  case True
  then show ?thesis using ev inv by (simp add: ehandle_client_event_def served_def eechoes_def)
next
  case False
  let ?n = "DEFAULT_SERVER_BUFFER_SIZE cfg" and ?P = "\<lambda>s'. served n cfg v iv ls (ConPtr a) (tfd, s) (tfd, s')"
  have I: "ep_inv cfg v ls tfd s" using inv by (simp add: esafe_def)
  have lc: "length (ec_buf c) = ?n" using ep_invD(5) [OF I c] by (simp add: con_ok_def)
  note Ks = kernel_specD [OF K(1)]
  obtain start s1 where s1: "elatency_clock cfg env s = (start, s1)" by force
  then obtain w1 where w1: "s1 = s\<lparr>eworld := w1\<rparr>" "same_view v (eworld s) w1" "iv w1 = iv (eworld s)"
      "latency_on cfg \<Longrightarrow> clock_ts start"
    using elatency_view [OF Ks(5) K(2) refl s1] by blast
  have I1: "esafe cfg v iv ls (tfd, s\<lparr>eworld := w1\<rparr>)"
    using w1 by (intro esafe_world [OF inv]) (simp_all add: same_view_def)
  define tail where "tail = (\<lambda>(r :: int, buf, w).
        bindE (hset (Some a) (c\<lparr>ec_buf := buf, ec_buf_size := word_of_int r\<rparr>) (econs s)) (\<lambda>h.
        case elatency_clock cfg env (s\<lparr>eworld := w1, econs := h, eworld := w\<rparr>) of (end', s) \<Rightarrow>
        if latency_on cfg
        then bindE (sb_record_event (e_clock env) start end' (ebench s, eworld s)) (\<lambda>(b, w).
             Inr (s\<lparr>ebench := b, eworld := w\<rparr>))
        else Inr s))"
  have tail: "safeE ?P (tail (r, buf, w2))"
    if buf: "length buf = length (ec_buf c)" and op: "kv_open v w2 = kv_open v w1" "iv w2 = iv w1"
      and ec: "echoed v w1 \<Longrightarrow> echoed v w2" for r :: int and buf w2
  proof -
    let ?h = "(econs s)\<lparr>cells := (cells (econs s))(a := Some (c\<lparr>ec_buf := buf, ec_buf_size := word_of_int r\<rparr>))\<rparr>"
    let ?s2 = "s\<lparr>econs := ?h, eworld := w2\<rparr>"
    have I2: "esafe cfg v iv ls (tfd, ?s2)"
      using op w1(2,3) by (intro esafe_world [OF esafe_buffer [OF inv c buf]]) (simp_all add: same_view_def)
    have E2: "eechoes v s ?s2" using ec w1(2) by (simp add: eechoes_def same_view_def echoed_def)
    obtain en s3 where s3: "elatency_clock cfg env ?s2 = (en, s3)" by force
    obtain w3 where w3: "s3 = ?s2\<lparr>eworld := w3\<rparr>" "same_view v w2 w3" "iv w3 = iv w2" "latency_on cfg \<Longrightarrow> clock_ts en"
      using elatency_view [OF Ks(5) K(2) refl s3] by auto
    have I3: "esafe cfg v iv ls (tfd, s3)"
      unfolding w3(1) using w3(2,3) by (intro esafe_world [OF I2]) (simp_all add: same_view_def)
    have E3: "eechoes v s s3" using E2 w3 by (simp add: eechoes_def same_view_def echoed_def)
    have L3: "\<forall>e. e \<noteq> ConPtr a \<longrightarrow> ev_live (tfd, s) e \<longrightarrow> ev_live (tfd, s3) e"
      by (simp add: ev_live_def w3(1) split: epoll_data.split)
    have S3: "erunning s3 = erunning s" "ebench s3 = ebench s" by (simp_all add: w3(1))
    have P3: "?P s3" using I3 E3 L3 S3 by (simp add: served_def)
    show ?thesis
    proof (cases "latency_on cfg")
      case False
      then show ?thesis using P3 s3 c by (simp add: tail_def)
    next
      case True
      then have "DO_BENCH cfg" by (simp add: latency_on_def)
      then have "bench_inv (ebench s3)" using I3 by (simp add: esafe_def ep_inv_def)
      then obtain b w4 where b: "sb_record_event (e_clock env) start en (ebench s3, eworld s3) = Inr (b, w4)"
          "bench_inv b" "client_no b = client_no (ebench s3)" "w4 = eworld s3 \<or> w4 = snd (e_clock env (eworld s3))"
        using record_event_safe [OF _ w1(4) w3(4), of "ebench s3" "e_clock env" "eworld s3"] True by blast
      have "iv (snd (e_clock env (eworld s3))) = iv (eworld s3)"
        by (rule epoll_specD(7) [OF K(2)]) (rule prod.collapse [symmetric])
      then have w4: "same_view v (eworld s3) w4" "iv w4 = iv (eworld s3)"
        using b(4) Ks(5) by (auto simp: quiet_spec_def)
      have "esafe cfg v iv ls (tfd, s3\<lparr>ebench := b, eworld := w4\<rparr>)"
        using esafe_world [OF esafe_bench [OF I3], of b w4] b(2) w4 by (simp add: same_view_def)
      moreover have "eechoes v s (s3\<lparr>ebench := b, eworld := w4\<rparr>)"
        using E3 w4 by (simp add: eechoes_def same_view_def echoed_def)
      moreover have "\<forall>e. e \<noteq> ConPtr a \<longrightarrow> ev_live (tfd, s) e \<longrightarrow> ev_live (tfd, s3\<lparr>ebench := b, eworld := w4\<rparr>) e"
        using L3 by (simp add: ev_live_def split: epoll_data.split)
      ultimately have "?P (s3\<lparr>ebench := b, eworld := w4\<rparr>)" using S3 b(3) by (simp add: served_def)
      then show ?thesis using True s3 c b(1) by (simp add: tail_def)
    qed
  qed
  have "safeE (\<lambda>x. safeE ?P (tail x)) (read_n_echo env cfg (ec_fd c) (ec_buf c) ?n w1)"
  proof (rule safeE_mono [OF read_n_echo_safe [OF Ks(1,2)]])
    show "?n \<le> length (ec_buf c)" using lc by simp
    fix x assume r: "read_n_echo env cfg (ec_fd c) (ec_buf c) ?n w1 = Inr x"
      and P: "case x of (r, buf', w') \<Rightarrow> length buf' = length (ec_buf c) \<and> (r = 0 \<or> r = int (DEFAULT_BUFFER_SIZE cfg))
        \<and> kv_open v w' = kv_open v w1 \<and> (\<exists>msg. length msg = nat r \<and> take (nat r) buf' = msg
          \<and> kv_in v w' = (kv_in v w1)(ec_fd c := kv_in v w1 (ec_fd c) @ msg)
          \<and> kv_out v w' = (kv_out v w1)(ec_fd c := kv_out v w1 (ec_fd c) @ msg))"
    obtain rb buf w2 where x: "x = (rb, buf, w2)" by (metis prod.collapse)
    show "safeE ?P (tail x)"
      unfolding x using P x read_n_echo_iv [OF K(2) r [unfolded x]] by (intro tail) (auto simp: echoed_def)
  qed
  then have "safeE ?P (bindE (read_n_echo env cfg (ec_fd c) (ec_buf c) ?n w1) tail)" by simp
  moreover have "ehandle_client_event cfg env events a s = bindE (read_n_echo env cfg (ec_fd c) (ec_buf c) ?n w1) tail"
    using ev False s1 w1(1) c by (simp add: ehandle_client_event_def tail_def)
  ultimately show ?thesis by simp
qed

lemma timer_event_safe:
  assumes K: "kernel_spec env v" "epoll_spec env v iv" and inv: "esafe cfg v iv ls (tfd, s)" and t: "tfd \<noteq> - 1"
  shows "safeE (served n cfg v iv ls TfdHolder (tfd, s)) (etimer_expired cfg env (tfd, s))"
proof -
  have I: "ep_inv cfg v ls tfd s" and R: "registered iv ls tfd s" using inv by (simp_all add: esafe_def)
  note D = ep_invD [OF I] and Ks = kernel_specD [OF K(1)]
  obtain rc w where e: "e_close env tfd (eworld s) = (rc, w)" by force
  note E = Ks(4) [unfolded close_spec_def, rule_format, OF e]
  show ?thesis
  proof (cases "rc = 0")
    case False
    then show ?thesis using e by (simp add: etimer_expired_def eclose_timer_def eclose_fd_def)
  next
    case True
    let ?s = "s\<lparr>eworld := w\<rparr>"
    have nf: "\<forall>a c. cells (econs s) a = Some c \<longrightarrow> ec_fd c \<noteq> tfd"
      using D(5) by (auto simp: con_ok_def)
    have "con_ok cfg (kv_open v w) ls (- 1) a c" if "cells (econs s) a = Some c" for a c
      using D(5) [OF that] E True by (auto simp: con_ok_def)
    then have "ep_inv cfg v ls (- 1) ?s"
      using I E True D(4) [OF t] unfolding ep_inv_def by auto
    moreover have "registered iv ls (- 1) ?s"
      using R epoll_specD(2) [OF K(2) e] True nf D(4) [OF t] unfolding registered_def
      by (auto split: epoll_data.splits)
    ultimately have I': "esafe cfg v iv ls (- 1, ?s)" by (simp add: esafe_def)
    have Ev: "eechoes v s ?s" using E by (simp add: eechoes_def echoed_def)
    have L: "\<forall>e. e \<noteq> TfdHolder \<longrightarrow> ev_live (tfd, s) e \<longrightarrow> ev_live (- 1, s') e" if "econs s' = econs s" for s' :: "'a epoll_state"
      using that by (simp add: ev_live_def split: epoll_data.split)
    show ?thesis
    proof (cases "DO_BENCH cfg")
      case False
      then show ?thesis
        using I' Ev L e True by (simp add: etimer_expired_def eclose_timer_def eclose_fd_def with_ebench_def served_def)
    next
      case bench: True
      obtain b w' where b: "sb_start (e_clock env) (ebench s, w) = (b, w')" by force
      have bi: "bench_inv b" "client_no b = client_no (ebench s)"
        using bench_inv_ops(1) [of "ebench s" "e_clock env" w] D(8) [OF bench] sb_start_simps(3) [of "e_clock env" "ebench s" w] b
        by simp_all
      have "w' = w \<or> w' = snd (e_clock env w)"
        using b by (auto simp: sb_start_def split: if_splits prod.splits)
      moreover have "iv (snd (e_clock env w)) = iv w"
        by (rule epoll_specD(7) [OF K(2)]) (rule prod.collapse [symmetric])
      ultimately have w': "same_view v w w'" "iv w' = iv w" using Ks(5) by (auto simp: quiet_spec_def)
      have "esafe cfg v iv ls (- 1, s\<lparr>ebench := b, eworld := w'\<rparr>)"
        using esafe_world [OF esafe_bench [OF I', of b], of w'] bi w' by (simp add: same_view_def)
      moreover have "eechoes v s (s\<lparr>ebench := b, eworld := w'\<rparr>)"
        using Ev w' by (simp add: eechoes_def echoed_def same_view_def)
      ultimately show ?thesis
        using bench b bi L e True
        by (simp add: etimer_expired_def eclose_timer_def eclose_fd_def with_ebench_def served_def)
    qed
  qed
qed

text \<open>One event: either it closes a client whose predecessor is gone, and then the unlinking
  touches freed memory, or it is served safely.\<close>

definition one_event ::
    "nat \<Rightarrow> config \<Rightarrow> 'w kview \<Rightarrow> ('w \<Rightarrow> (int \<times> epoll_data) set) \<Rightarrow> int \<Rightarrow> 32 word \<times> epoll_data \<Rightarrow> int \<times> 'w epoll_state
     \<Rightarrow> (int \<times> 'w epoll_state) res \<Rightarrow> bool" where
  "one_event n cfg v iv ls ev ts r \<longleftrightarrow>
     (if dangles ev (snd ts) then r = Inl (UB UseAfterFree) else safeE (served n cfg v iv ls (snd ev) ts) r)"

lemma eserve_event:
  assumes K: "kernel_spec env v" "epoll_spec env v iv" and inv: "esafe cfg v iv ls (tfd, s)"
    and live: "ev_live (tfd, s) (snd ev)" and n: "snd ev = LfdHolder \<Longrightarrow> clients_left cfg n s"
    and r: "eserve n cfg env ef ls ev (tfd, s) = Some r"
  shows "one_event n cfg v iv ls ev (tfd, s) r"
proof -
  have I: "ep_inv cfg v ls tfd s" using inv by (simp add: esafe_def)
  note D = ep_invD [OF I]
  show ?thesis
  proof (cases "snd ev")
    case LfdHolder
    then obtain m where m: "epoll_handle_new_clients n cfg env ef ls s = Some m" "r = bindE m (\<lambda>s. Inr (tfd, s))"
      using r by (auto simp: eserve_def data_fd_def)
    have "safeE (served n cfg v iv ls LfdHolder (tfd, s)) r"
      unfolding m(2) safeE_bindE
    proof (rule safeE_mono [OF accept_loop_safe [OF K inv n [OF LfdHolder] m(1)]])
      fix s' assume P: "accept_post cfg v iv ls n tfd s s'"
      have "ev_live (tfd, s') e" if "ev_live (tfd, s) e" for e
        using that P by (cases e) (auto simp: ev_live_def accept_post_def keeps_cons_def)
      then show "safeE (served n cfg v iv ls LfdHolder (tfd, s)) (Inr (tfd, s'))"
        using P by (simp add: served_def accept_post_def)
    qed
    then show ?thesis using LfdHolder by (simp add: one_event_def dangles_def)
  next
    case TfdHolder
    then have t: "tfd \<noteq> - 1" using live by (simp add: ev_live_def)
    then have "r = etimer_expired cfg env (tfd, s)"
      using r TfdHolder D(4) by (auto simp: eserve_def data_fd_def)
    then show ?thesis using timer_event_safe [OF K inv t] TfdHolder by (simp add: one_event_def dangles_def)
  next
    case (ConPtr a)
    then obtain c where c: "cells (econs s) a = Some c" using live by (auto simp: ev_live_def)
    have f: "ec_fd c \<noteq> ls" "ec_fd c \<noteq> tfd" using D(5) [OF c] by (auto simp: con_ok_def)
    have r': "r = bindE (ehandle_client_event cfg env (fst ev) a s) (\<lambda>s. Inr (tfd, s))"
      using r c f ConPtr by (simp add: eserve_def data_fd_def)
    show ?thesis
    proof (cases "fst ev AND EPOLLRDHUP = 0")
      case True
      then show ?thesis
        using reading_event_safe [OF K inv c True] ConPtr r' by (simp add: one_event_def dangles_def)
    next
      case close: False
      show ?thesis
      proof (cases "dangles ev s")
        case True
        then obtain p where p: "ec_prev c = Some p" "cells (econs s) p = None"
          using ConPtr c by (auto simp: dangles_def)
        then have "dll_remove a s = Inl (UB UseAfterFree)" using dll_remove_exact [OF I c] by simp
        then have "r = Inl (UB UseAfterFree)"
          using r' close by (simp add: ehandle_client_event_def eclose_client_def)
        then show ?thesis using True by (simp add: one_event_def)
      next
        case False
        then have "\<And>p. ec_prev c = Some p \<Longrightarrow> cells (econs s) p \<noteq> None"
          using ConPtr c close by (auto simp: dangles_def)
        from closing_event_safe [OF K inv c this]
        show ?thesis using False ConPtr r' close by (simp add: one_event_def ehandle_client_event_def)
      qed
    qed
  qed
qed

subsection \<open>A batch of events and a round\<close>

text \<open>The only undefined behaviour is an access to a freed connection.\<close>

definition only_dangling :: "('a \<Rightarrow> bool) \<Rightarrow> 'a res \<Rightarrow> bool" where
  "only_dangling P r \<longleftrightarrow> (case r of Inr x \<Rightarrow> P x | Inl (UB u) \<Rightarrow> u = UseAfterFree | Inl (ExitFailure m) \<Rightarrow> True)"

lemma safeE_only_dangling: "safeE P r \<Longrightarrow> only_dangling P r"
  by (auto simp: only_dangling_def safeE_def split: sum.splits stop.splits)

definition batch_post :: "int \<Rightarrow> config \<Rightarrow> 'w kview \<Rightarrow> ('w \<Rightarrow> (int \<times> epoll_data) set) \<Rightarrow> int \<Rightarrow> 'w epoll_state \<Rightarrow> int \<times> 'w epoll_state \<Rightarrow> bool" where
  "batch_post k cfg v iv ls s = (\<lambda>(tfd', s'). esafe cfg v iv ls (tfd', s') \<and> eechoes v s s' \<and> erunning s' = erunning s
     \<and> client_no (ebench s') \<le> client_no (ebench s) + k)"

text \<open>A batch accepts at most once, as it names the listening socket at most once.\<close>

definition may_grow :: "nat \<Rightarrow> (32 word \<times> epoll_data) list \<Rightarrow> int" where
  "may_grow n evs = (if LfdHolder \<in> snd ` set evs then int n else 0)"

lemma batch_step:
  assumes "served n cfg v iv ls d (tfd, s) (tfd1, s1)"
    and "d \<notin> snd ` set evs"
  shows "batch_post (may_grow n evs) cfg v iv ls s1 x \<Longrightarrow> batch_post (may_grow n ((e, d) # evs)) cfg v iv ls s x"
  using assms by (auto simp: served_def batch_post_def eechoes_def may_grow_def split: if_splits)

lemma batch_cases:
  assumes K: "kernel_spec env v" "epoll_spec env v iv"
  shows "esafe cfg v iv ls (tfd, s) \<Longrightarrow> distinct (map snd evs) \<Longrightarrow> (\<forall>e \<in> snd ` set evs. ev_live (tfd, s) e) \<Longrightarrow>
     clients_left cfg n s \<or> LfdHolder \<notin> snd ` set evs \<Longrightarrow> eservice_events n cfg env ef ls evs (tfd, s) = Some r \<Longrightarrow>
     only_dangling (batch_post (may_grow n evs) cfg v iv ls s) r
     \<and> ((\<forall>ev \<in> set evs. fst ev AND EPOLLRDHUP = 0) \<longrightarrow> safeE (batch_post (may_grow n evs) cfg v iv ls s) r)"
proof (induction evs arbitrary: tfd s)
  case Nil
  then show ?case by (auto simp: only_dangling_def batch_post_def eechoes_def may_grow_def)
next
  case (Cons ev evs)
  obtain r1 where r1: "eserve n cfg env ef ls ev (tfd, s) = Some r1"
    using Cons.prems(5) by (auto split: option.splits)
  have O: "one_event n cfg v iv ls ev (tfd, s) r1"
    using Cons.prems(3,4) by (intro eserve_event [OF K Cons.prems(1) _ _ r1]) auto
  have quiet: "\<not> dangles ev s" if "\<forall>ev \<in> set (ev # evs). fst ev AND EPOLLRDHUP = 0"
    using that by (auto simp: dangles_def)
  show ?case
  proof (cases r1)
    case (Inl e)
    then have "r = Inl e" using Cons.prems(5) r1 by simp
    then show ?thesis
      using O Inl quiet by (auto simp: one_event_def only_dangling_def safeE_def split: if_splits stop.splits)
  next
    case (Inr ts1)
    obtain tfd1 s1 where ts1: "ts1 = (tfd1, s1)" by force
    have S: "served n cfg v iv ls (snd ev) (tfd, s) (tfd1, s1)"
      using O Inr ts1 by (auto simp: one_event_def split: if_splits)
    then have s1: "esafe cfg v iv ls (tfd1, s1)" "\<forall>e. e \<noteq> snd ev \<longrightarrow> ev_live (tfd, s) e \<longrightarrow> ev_live (tfd1, s1) e"
        "snd ev \<noteq> LfdHolder \<longrightarrow> client_no (ebench s1) \<le> client_no (ebench s)"
      by (auto simp: served_def)
    have ni: "snd ev \<notin> snd ` set evs" "distinct (map snd evs)" using Cons.prems(2) by simp_all
    have l: "\<forall>e \<in> snd ` set evs. ev_live (tfd1, s1) e"
    proof
      fix e assume e: "e \<in> snd ` set evs"
      then have "e \<noteq> snd ev" using ni(1) by metis
      moreover have "ev_live (tfd, s) e" using e Cons.prems(3) by auto
      ultimately show "ev_live (tfd1, s1) e" using s1(2) by blast
    qed
    have cl: "clients_left cfg n s1 \<or> LfdHolder \<notin> snd ` set evs"
      using Cons.prems(4) s1(3) ni(1) by (cases "snd ev = LfdHolder") (auto simp: clients_left_def)
    have r: "eservice_events n cfg env ef ls evs (tfd1, s1) = Some r"
      using Cons.prems(5) r1 Inr ts1 by simp
    note IH = Cons.IH [OF s1(1) ni(2) l cl r]
    show ?thesis
    proof (cases r)
      case (Inl e)
      then show ?thesis using IH by (auto simp: only_dangling_def safeE_def split: stop.splits)
    next
      case (Inr x)
      then have "batch_post (may_grow n evs) cfg v iv ls s1 x" using IH by (simp add: only_dangling_def)
      then show ?thesis using Inr batch_step [OF S ni(1), of x "fst ev"] by (simp add: only_dangling_def)
    qed
  qed
qed

definition eround_post :: "nat \<Rightarrow> config \<Rightarrow> 'w kview \<Rightarrow> ('w \<Rightarrow> (int \<times> epoll_data) set) \<Rightarrow> int \<Rightarrow> 'w epoll_state \<Rightarrow> int \<times> 'w epoll_state \<Rightarrow> bool" where
  "eround_post n cfg v iv ls s = (\<lambda>(tfd', s'). esafe cfg v iv ls (tfd', s') \<and> eechoes v s s'
     \<and> erunning s' \<in> {erunning s, 0} \<and> client_no (ebench s') \<le> client_no (ebench s) + int n)"

lemma epoll_round_cases:
  assumes K: "kernel_spec env v" "epoll_spec env v iv" and inv: "esafe cfg v iv ls (tfd, s)"
    and n: "clients_left cfg n s" and r: "epoll_round n cfg env ef ls (tfd, s) = Some r"
  shows "only_dangling (eround_post n cfg v iv ls s) r"
proof -
  obtain rc errno evs sig w where p: "e_epoll_pwait env ef EPOLL_WAIT_MAX_EVENTS (eworld s) = ((rc, errno, evs, sig), w)"
    by (cases "e_epoll_pwait env ef EPOLL_WAIT_MAX_EVENTS (eworld s)") auto
  note P = epoll_specD(8) [OF K(2) p]
  let ?run = "if sig then stop_server_signal_handler (erunning s) else erunning s"
  let ?s = "s\<lparr>eworld := w, erunning := ?run\<rparr>"
  have sv: "kv_open v w = kv_open v (eworld s)" "echoed v (eworld s) \<Longrightarrow> echoed v w"
    using P by (simp_all add: same_view_def echoed_def)
  have I: "esafe cfg v iv ls (tfd, ?s)"
    using P sv(1) by (intro esafe_running [OF esafe_world [OF inv]]) simp_all
  have E: "eechoes v s ?s" "erunning ?s \<in> {erunning s, 0}"
    using sv(2) by (simp_all add: eechoes_def stop_server_signal_handler_def)
  have stay: "eround_post n cfg v iv ls s (tfd, ?s)" using I E by (simp add: eround_post_def)
  show ?thesis
  proof (cases "rc < 0")
    case True
    then show ?thesis using r p stay by (auto simp: epoll_round_def Let_def only_dangling_def split: if_splits)
  next
    case False
    let ?s' = "if DO_BENCH cfg then ?s\<lparr>ebench := sb_requests_performed (ebench ?s) rc\<rparr> else ?s"
    have len: "length evs = nat rc" using P False by simp
    have r': "eservice_events n cfg env ef ls evs (tfd, ?s') = Some r"
      using r p False len by (auto simp: epoll_round_def Let_def split: if_splits)
    have b: "DO_BENCH cfg \<Longrightarrow> bench_inv (ebench ?s)" using I by (simp add: esafe_def ep_inv_def)
    have I': "esafe cfg v iv ls (tfd, ?s')"
      using I esafe_bench [OF I, of "sb_requests_performed (ebench ?s) rc"] bench_inv_ops(3) [OF b]
      by (cases "DO_BENCH cfg") simp_all
    have same: "eworld ?s' = w" "econs ?s' = econs s" "erunning ?s' = ?run"
      "client_no (ebench ?s') = client_no (ebench s)" by (simp_all add: sb_requests_performed_def)
    have live: "\<forall>e \<in> snd ` set evs. ev_live (tfd, ?s') e"
    proof
      fix e assume "e \<in> snd ` set evs"
      then have "e \<in> snd ` iv (eworld s)" using P False by auto
      then obtain g where "(g, e) \<in> iv (eworld s)" by force
      then show "ev_live (tfd, ?s') e"
        using inv by (cases e) (auto simp: esafe_def registered_def ev_live_def)
    qed
    have cl: "clients_left cfg n ?s' \<or> LfdHolder \<notin> snd ` set evs"
      using n by (simp add: clients_left_def sb_requests_performed_def)
    have "only_dangling (batch_post (may_grow n evs) cfg v iv ls ?s') r"
      using batch_cases [OF K I' _ live cl r'] P False by auto
    moreover have "eround_post n cfg v iv ls s x" if "batch_post (may_grow n evs) cfg v iv ls ?s' x" for x
    proof -
      have "may_grow n evs \<le> int n" by (simp add: may_grow_def)
      then show ?thesis using that E sv(2) unfolding batch_post_def eround_post_def eechoes_def same by auto
    qed
    ultimately show ?thesis
      by (auto simp: only_dangling_def split: sum.splits stop.splits)
  qed
qed

end
