(* ===== verification/EpollResults.thy ===== *)
theory EpollResults
  imports EpollClaims
begin

text \<open>
  The claims about the epoll server's rounds, its list of connections, its cleanup and its accept
  loop, with a sample kernel extended by an interest list.
\<close>

subsection \<open>The accept loop ends\<close>

text \<open>\<open>bl\<close> is the number of connections waiting: accepting takes one, and with none left the
  call reports EAGAIN; registering and allocating do not add any.\<close>

definition backlog_spec :: "('w, 'x) epoll_env_scheme \<Rightarrow> int \<Rightarrow> ('w \<Rightarrow> nat) \<Rightarrow> bool" where
  "backlog_spec env ls bl \<longleftrightarrow>
     (\<forall>w. if bl w = 0 then fst (e_accept4 env ls w) = (- 1, EAGAIN) else bl (snd (e_accept4 env ls w)) < bl w)
     \<and> (\<forall>n w. bl (snd (e_malloc env n w)) \<le> bl w)
     \<and> (\<forall>ef fd es d w. bl (snd (e_epoll_ctl_add env ef fd es d w)) \<le> bl w)"

lemma connect_back_world: "dll_connect_back a s = Inr s' \<Longrightarrow> eworld s' = eworld s"
  by (auto simp: dll_connect_back_def bindE_eq_Inr split: if_splits)

lemma new_client_backlog:
  assumes B: "backlog_spec env ls bl" and r: "epoll_handle_new_client cfg env ef f s = Inr s'"
  shows "bl (eworld s') \<le> bl (eworld s)"
proof -
  obtain mem w1 where m: "e_malloc env (sizeof_ep_con cfg) (eworld s) = (mem, w1)" by force
  let ?c = "\<lparr>ec_fd = f, ec_buf_size = 0, ec_buf = replicate (DEFAULT_SERVER_BUFFER_SIZE cfg) 0, ec_next = None, ec_prev = None\<rparr>"
  obtain a h where h: "halloc ?c (econs s) = (a, h)" by force
  obtain rc w2 where e: "e_epoll_ctl_add env ef f (EPOLLIN OR EPOLLRDHUP OR EPOLLET) (ConPtr a) w1 = (rc, w2)" by force
  have "bl w1 \<le> bl (eworld s)" using B m unfolding backlog_spec_def by (metis snd_conv)
  moreover have "bl w2 \<le> bl w1" using B e unfolding backlog_spec_def by (metis snd_conv)
  moreover obtain s1 where s1: "dll_connect_back a (s\<lparr>econs := h, eworld := w2\<rparr>) = Inr s1" "eworld s' = eworld s1"
    using r m h e by (auto simp: epoll_handle_new_client_def Let_def bindE_eq_Inr split: if_splits)
  ultimately show ?thesis using connect_back_world [OF s1(1)] by simp
qed

lemma accept_loop_ends:
  assumes B: "backlog_spec env ls bl"
  shows "bl (eworld s) < n \<Longrightarrow> \<exists>r. epoll_handle_new_clients n cfg env ef ls s = Some r"
proof (induction n arbitrary: s)
  case (Suc n)
  show ?case
  proof (cases "accept_client env ls (eworld s)")
    case (Inr cw)
    obtain c w where cw: "accept_client env ls (eworld s) = Inr (c, w)" using Inr by force
    show ?thesis
    proof (cases "c = - 1")
      case False
      have w: "w = snd (e_accept4 env ls (eworld s))"
        using accept_client_world [OF cw] by auto
      have "bl (eworld s) \<noteq> 0"
      proof
        assume "bl (eworld s) = 0"
        then have "fst (e_accept4 env ls (eworld s)) = (- 1, EAGAIN)" using B unfolding backlog_spec_def by metis
        then have "c = - 1" using cw by (auto simp: accept_client_def split: prod.splits)
        with False show False ..
      qed
      then have lt: "bl w < bl (eworld s)" using B w unfolding backlog_spec_def by metis
      show ?thesis
      proof (cases "epoll_handle_new_client cfg env ef c (s\<lparr>eworld := w\<rparr>)")
        case (Inr s1)
        then have "bl (eworld s1) < n" using new_client_backlog [OF B Inr] lt Suc.prems by simp
        from Suc.IH [OF this] show ?thesis using cw False Inr by simp
      qed (use cw False in simp)
    qed (use cw in simp)
  qed simp
qed simp

subsection \<open>A sample kernel with epoll\<close>

definition s_ctl_add :: "int \<Rightarrow> int \<Rightarrow> 32 word \<Rightarrow> epoll_data \<Rightarrow> epoll_data sworld \<Rightarrow> int \<times> epoll_data sworld" where
  "s_ctl_add ef fd es d w = (0, w\<lparr>sw_interest := (fd, d) # sw_interest w\<rparr>)"

definition s_pwait :: "int \<Rightarrow> nat \<Rightarrow> epoll_data sworld
     \<Rightarrow> (int \<times> int \<times> (32 word \<times> epoll_data) list \<times> bool) \<times> epoll_data sworld" where
  "s_pwait ef n w =
     (let evs = map (\<lambda>d. (EPOLLIN, d)) (remdups (map snd (filter (\<lambda>x. fst x \<in> set (sw_ready w)) (sw_interest w))))
      in ((int (length evs), 0, evs, False), w))"

definition sample_epoll :: "epoll_data sworld epoll_env" where
  "sample_epoll = env.extend sample_env (epoll_env.fields s_open s_ctl_add s_pwait)"

lemma sample_epoll_simps [simp]:
  "like_sample sample_epoll" "e_epoll_ctl_add sample_epoll = s_ctl_add" "e_epoll_pwait sample_epoll = s_pwait"
  "e_epoll_create1 sample_epoll = s_open"
  by (simp_all add: like_sample_def sample_epoll_def env.extend_def env.truncate_def epoll_env.fields_def sample_env_def)

lemma sample_epoll_spec: "epoll_spec sample_epoll sview (\<lambda>w. set (sw_interest w))"
  unfolding epoll_spec_def
  by (intro conjI)
    (auto simp: like_sampleD sample_defs s_ctl_add_def s_pwait_def Let_def same_view_def o_def
      intro: rev_image_eqI split: list.splits if_splits)

lemma sample_backlog: "backlog_spec sample_epoll ls sw_backlog"
  by (auto simp: backlog_spec_def like_sampleD sample_defs s_ctl_add_def)

text \<open>A running server: descriptor 3 listens, 4 is the epoll instance, 5 the first client.\<close>

definition ep_cfg :: config where
  "ep_cfg = \<lparr>DO_BENCH = False, MEASURE_LATENCY = False, DEFAULT_BUFFER_SIZE = 2\<rparr>"

lemma ep_cfg_simps [simp]: "\<not> DO_BENCH ep_cfg" "DEFAULT_BUFFER_SIZE ep_cfg = 2" "\<not> latency_on ep_cfg"
  by (simp_all add: ep_cfg_def latency_on_def)

definition ep_con :: ep_connection where
  "ep_con = \<lparr>ec_fd = 5, ec_buf_size = 0, ec_buf = replicate 10 0, ec_next = None, ec_prev = None\<rparr>"

definition ep_state :: "epoll_data sworld epoll_state" where
  "ep_state = \<lparr>ebench = \<lparr>do_measure = 0, client_no = 0, request_no = 0, meas_start_time = zero_ts, meas_end_time = zero_ts,
       event_latency = \<lparr>mc_entry_size = 0, mc_capacity = 0, mc_size = 0, mc_ptr = None\<rparr>\<rparr>,
     econs = \<lparr>cells = [0 \<mapsto> ep_con], next_addr = 1\<rparr>, dll_head = Some 0, dll_tail = Some 0, erunning = 1,
     eworld = \<lparr>sw_open = [5, 4, 3, 2, 1, 0], sw_mail = (\<lambda>_. []), sw_ready = [3], sw_got = (\<lambda>_. []), sw_sent = (\<lambda>_. []),
       sw_backlog = 1, sw_interest = [(5, ConPtr 0), (3, LfdHolder)]\<rparr>\<rparr>"

lemma ep_state_safe: "esafe ep_cfg sview (\<lambda>w. set (sw_interest w)) 3 (- 1, ep_state)"
  by (auto simp: esafe_def ep_inv_def registered_def ep_state_def ep_con_def heap_ok_def con_ok_def ends_ok_def sview_def
      DEFAULT_SERVER_BUFFER_SIZE_def split: if_splits epoll_data.splits)



subsection \<open>Claims\<close>

text \<open>C4: a round of the epoll server with the client counter within an int (wait, then serve up to 256 events, whatever the order of
  accepts, the timer, messages and disconnections) keeps the invariant and echoes every byte
  it reads. The one undefined behaviour it can have is an access to a connection that was
  freed.\<close>

theorem epoll_round_correct:
  assumes "kernel_spec env v" "epoll_spec env v iv" "esafe cfg v iv ls (tfd, s)" "clients_left cfg n s"
    and "epoll_round n cfg env ef ls (tfd, s) = Some r"
  shows "case r of
       Inr (tfd', s') \<Rightarrow> esafe cfg v iv ls (tfd', s') \<and> (echoed v (eworld s) \<longrightarrow> echoed v (eworld s'))
         \<and> erunning s' \<in> {erunning s, 0}
     | Inl (UB u) \<Rightarrow> u = UseAfterFree
     | Inl (ExitFailure m) \<Rightarrow> True"
  using epoll_round_cases [OF assms] by (auto simp: only_dangling_def eround_post_def eechoes_def split: sum.splits stop.splits)

lemmas ep_eval = ep_state_def ep_con_def epoll_round_def s_pwait_def eserve_def data_fd_def like_sampleD Let_def
  accept_client_def s_accept_def s_open_def s_fresh_def epoll_handle_new_client_def halloc_def s_ctl_add_def
  dll_connect_back_def hupd_def

theorem epoll_round_correct_witness:
  "\<exists>s'. epoll_round 2 ep_cfg sample_epoll 4 3 (- 1, ep_state) = Some (Inr (- 1, s'))
     \<and> esafe ep_cfg sview (\<lambda>w. set (sw_interest w)) 3 (- 1, s') \<and> sw_open (eworld s') = [6, 5, 4, 3, 2, 1, 0]"
proof -
  obtain s' where s': "epoll_round 2 ep_cfg sample_epoll 4 3 (- 1, ep_state) = Some (Inr (- 1, s'))"
      "sw_open (eworld s') = [6, 5, 4, 3, 2, 1, 0]"
    by (simp add: ep_eval numeral_2_eq_2)
  have "case Inr (- 1, s') of
       Inr (tfd', s') \<Rightarrow> esafe ep_cfg sview (\<lambda>w. set (sw_interest w)) 3 (tfd', s')
         \<and> (echoed sview (eworld ep_state) \<longrightarrow> echoed sview (eworld s')) \<and> erunning s' \<in> {erunning ep_state, 0}
     | Inl (UB u) \<Rightarrow> u = UseAfterFree
     | Inl (ExitFailure m) \<Rightarrow> True"
    by (rule epoll_round_correct [OF _ _ ep_state_safe _ s'(1)])
      (simp_all add: sample_kernel sample_epoll_spec clients_left_def)
  with s' show ?thesis by simp
qed

text \<open>C22: which disconnections are fatal, exactly. Closing a client whose prev link points to a
  connection that was freed is a use after free; closing any other closes its descriptor,
  frees its object and leaves all others as they were.\<close>

theorem close_client_exact:
  assumes "kernel_spec env v" "esafe cfg v iv ls (tfd, s)" "cells (econs s) a = Some c"
  shows "if \<exists>p. ec_prev c = Some p \<and> cells (econs s) p = None
     then eclose_client env a s = Inl (UB UseAfterFree)
     else safeE (\<lambda>s'. cells (econs s') = (cells (econs s))(a := None)
       \<and> kv_open v (eworld s') = kv_open v (eworld s) - {ec_fd c}) (eclose_client env a s)"
proof -
  have I: "ep_inv cfg v ls tfd s" using assms(2) by (simp add: esafe_def)
  show ?thesis
  proof (cases "\<exists>p. ec_prev c = Some p \<and> cells (econs s) p = None")
    case True
    then show ?thesis
      using dll_remove_exact [OF I assms(3)] by (auto simp: eclose_client_def)
  next
    case False
    have "safeE (\<lambda>s'. cells (econs s') = (cells (econs s))(a := None)
       \<and> kv_open v (eworld s') = kv_open v (eworld s) - {ec_fd c}) (eclose_client env a s)"
      by (rule safeE_mono [OF eclose_client_safe [OF kernel_specD(4) [OF assms(1)] I assms(3)]])
        (use False in \<open>auto simp: dropped_def\<close>)
    then show ?thesis by (subst if_not_P [OF False])
  qed
qed

theorem close_client_exact_witness:
  "safeE (\<lambda>s'. cells (econs s') 0 = None \<and> kv_open sview (eworld s') = {0, 1, 2, 3, 4}) (eclose_client sample_epoll 0 ep_state)"
proof -
  have c: "cells (econs ep_state) 0 = Some ep_con" by (simp add: ep_state_def)
  have K: "kernel_spec sample_epoll sview" by (simp add: sample_kernel)
  have np: "\<not> (\<exists>p. ec_prev ep_con = Some p \<and> cells (econs ep_state) p = None)" by (simp add: ep_con_def)
  have o: "kv_open sview (eworld ep_state) = {0, 1, 2, 3, 4, 5}" by (auto simp: ep_state_def sview_def)
  have "safeE (\<lambda>s'. cells (econs s') = (cells (econs ep_state))(0 := None)
       \<and> kv_open sview (eworld s') = kv_open sview (eworld ep_state) - {ec_fd ep_con}) (eclose_client sample_epoll 0 ep_state)"
    by (rule close_client_exact [OF K ep_state_safe c, unfolded if_not_P [OF np]])
  moreover have "kv_open sview (eworld ep_state) - {ec_fd ep_con} = {0, 1, 2, 3, 4}"
    unfolding o ep_con_def by auto
  ultimately show ?thesis by (simp only:) (erule safeE_mono, simp)
qed



text \<open>C24: what \<open>dll_remove\<close> promises it does: on a list whose links are all set, taking out any
  nodes, one after the other and in any order, leaves exactly the others linked in order,
  with head and tail at the ends.\<close>

theorem dll_remove_correct:
  assumes "linked s xs" "set as \<subseteq> set xs" "distinct as"
  shows "okE (\<lambda>s'. linked s' (filter (\<lambda>x. x \<notin> set as) xs)) (remove_all dll_remove as s)"
  using assms by (rule ep_list.remove_many)

definition linked3 :: "epoll_data sworld epoll_state" where
  "linked3 = ep_state\<lparr>econs := \<lparr>cells = [0 \<mapsto> ep_con\<lparr>ec_next := Some 1\<rparr>, 1 \<mapsto> ep_con\<lparr>ec_next := Some 2, ec_prev := Some 0\<rparr>,
       2 \<mapsto> ep_con\<lparr>ec_prev := Some 1\<rparr>], next_addr = 3\<rparr>, dll_head := Some 0, dll_tail := Some 2\<rparr>"

theorem dll_remove_correct_witness:
  "okE (\<lambda>s'. linked s' [0, 2]) (remove_all dll_remove [1] linked3)"
proof -
  have l: "linked linked3 [0, 1, 2]"
    by (simp add: linked_def dlist_def en_def ep_def linked3_def ep_con_def)
  have "okE (\<lambda>s'. linked s' (filter (\<lambda>x. x \<notin> set [1]) [0, 1, 2])) (remove_all dll_remove [1] linked3)"
    by (rule dll_remove_correct [OF l]) simp_all
  then show ?thesis by simp
qed

text \<open>C23: at shutdown the loop over the list closes at most one client, the head: with all
  calls succeeding, every other connection stays open and allocated.\<close>

theorem epoll_cleanup_leaks:
  assumes "close_spec env v" "close_reliable env v" "ep_inv cfg v ls tfd s"
    and "ef \<in> kv_open v (eworld s)" "ef \<noteq> tfd" "\<forall>a c. cells (econs s) a = Some c \<longrightarrow> ec_fd c \<noteq> ef"
  shows "\<exists>s'. edo_service_loop_cleanup (Suc n) env ef (tfd, s) = Some (Inr s')
     \<and> (\<forall>a. cells (econs s') a = (if dll_head s = Some a then None else cells (econs s) a))
     \<and> kv_open v (eworld s') = kv_open v (eworld s) - {ef} - (if tfd = - 1 then {} else {tfd})
        - {ec_fd c | a c. dll_head s = Some a \<and> cells (econs s) a = Some c}"
proof -
  note D = ep_invD [OF assms(3)]
  have cl: "\<exists>w. e_close env f w0 = (0, w) \<and> kv_open v w = kv_open v w0 - {f}" if "f \<in> kv_open v w0" for f w0
  proof -
    obtain rc w where e: "e_close env f w0 = (rc, w)" by force
    then have "rc = 0" using assms(2) that unfolding close_reliable_def by (metis fst_conv)
    then show ?thesis using e assms(1) [unfolded close_spec_def, rule_format, OF e] by auto
  qed
  obtain w1 where w1: "tfd \<noteq> - 1 \<Longrightarrow> e_close env tfd (eworld s) = (0, w1)"
      "kv_open v w1 = kv_open v (eworld s) - (if tfd = - 1 then {} else {tfd})" "tfd = - 1 \<Longrightarrow> w1 = eworld s"
  proof (cases "tfd = - 1")
    case False
    then obtain w where "e_close env tfd (eworld s) = (0, w)" "kv_open v w = kv_open v (eworld s) - {tfd}"
      using cl [of tfd "eworld s"] D(4) by blast
    then show ?thesis using that [of w] False by simp
  qed simp
  have "ef \<in> kv_open v w1" using w1(2) assms(4,5) by simp
  from cl [OF this] obtain w2 where w2: "e_close env ef w1 = (0, w2)" "kv_open v w2 = kv_open v w1 - {ef}" by blast
  have pre: "bindE (if tfd \<noteq> - 1 then eclose_timer env (tfd, s) else Inr (tfd, s)) (\<lambda>(tfd, s).
      eclose_fd env ef ''close epoll_fd'' s) = Inr (s\<lparr>eworld := w2\<rparr>)"
    using w1(1,3) w2(1) by (cases "tfd = - 1") (simp_all add: eclose_timer_def eclose_fd_def)
  show ?thesis
  proof (cases "dll_head s")
    case None
    then show ?thesis using pre w1(2) w2(2) by (auto simp: edo_service_loop_cleanup_def)
  next
    case (Some a)
    then obtain c where c: "cells (econs s) a = Some c" "ec_prev c = None"
      using D(7) by (auto simp: ends_ok_def)
    have n: "ec_next c = None" "ec_fd c \<in> kv_open v (eworld s)" "ec_fd c \<noteq> tfd"
      using D(5) [OF c(1)] by (auto simp: con_ok_def)
    have "ec_fd c \<in> kv_open v w2" using n assms(6) c(1) w1(2) w2(2) by simp
    from cl [OF this] obtain w3 where w3: "e_close env (ec_fd c) w2 = (0, w3)" "kv_open v w3 = kv_open v w2 - {ec_fd c}" by blast
    have "close_all (Suc n) env (dll_head s) (s\<lparr>eworld := w2\<rparr>)
        = Some (Inr ((without a c s)\<lparr>eworld := w3, econs := (econs s)\<lparr>cells := (cells (econs s))(a := None)\<rparr>\<rparr>))"
      using Some c n w3(1)
      by (cases n) (simp_all add: eclose_client_def dll_remove_def eclose_fd_def without_def Let_def)
    moreover have "kv_open v w3 = kv_open v (eworld s) - {ef} - (if tfd = - 1 then {} else {tfd})
        - {ec_fd c | a c. dll_head s = Some a \<and> cells (econs s) a = Some c}"
      using w1(2) w2(2) w3(2) Some c(1) by auto
    ultimately show ?thesis
      using pre Some by (simp add: edo_service_loop_cleanup_def)
  qed
qed

text \<open>Two clients: descriptor 5, then 6.\<close>

definition ep_two :: "epoll_data sworld epoll_state" where
  "ep_two = ep_state\<lparr>econs := \<lparr>cells = [0 \<mapsto> ep_con, 1 \<mapsto> ep_con\<lparr>ec_fd := 6, ec_prev := Some 0\<rparr>], next_addr = 2\<rparr>,
     dll_tail := Some 1, eworld := (eworld ep_state)\<lparr>sw_open := [6, 5, 4, 3, 2, 1, 0]\<rparr>\<rparr>"

theorem epoll_cleanup_leaks_witness:
  "\<exists>s'. edo_service_loop_cleanup 2 sample_epoll 4 (- 1, ep_two) = Some (Inr s')
     \<and> cells (econs s') 1 \<noteq> None \<and> 6 \<in> kv_open sview (eworld s') \<and> cells (econs s') 0 = None"
proof -
  have I: "ep_inv ep_cfg sview 3 (- 1) ep_two"
    by (auto simp: ep_inv_def ep_two_def ep_state_def ep_con_def heap_ok_def con_ok_def ends_ok_def sview_def
        DEFAULT_SERVER_BUFFER_SIZE_def split: if_splits)
  have ef: "4 \<in> kv_open sview (eworld ep_two)" "\<forall>a c. cells (econs ep_two) a = Some c \<longrightarrow> ec_fd c \<noteq> 4"
    by (auto simp: ep_two_def ep_state_def ep_con_def sview_def split: if_splits)
  have C: "close_spec sample_epoll sview" "close_reliable sample_epoll sview"
    by (simp_all add: kernel_specD(4) [OF sample_kernel] sample_close_reliable)
  obtain s' where s': "edo_service_loop_cleanup (Suc 1) sample_epoll 4 (- 1, ep_two) = Some (Inr s')"
      "\<forall>a. cells (econs s') a = (if dll_head ep_two = Some a then None else cells (econs ep_two) a)"
      "kv_open sview (eworld s') = kv_open sview (eworld ep_two) - {4} - (if (- 1 :: int) = - 1 then {} else {- 1})
        - {ec_fd c | a c. dll_head ep_two = Some a \<and> cells (econs ep_two) a = Some c}"
    using epoll_cleanup_leaks [OF C I ef(1) _ ef(2), of 1] by auto
  have "dll_head ep_two = Some 0" "cells (econs ep_two) 1 \<noteq> None" "cells (econs ep_two) 0 = Some ep_con"
      "kv_open sview (eworld ep_two) = {0, 1, 2, 3, 4, 5, 6}"
    by (auto simp: ep_two_def ep_state_def sview_def)
  with s' show ?thesis by (auto simp: ep_con_def numeral_2_eq_2)
qed

text \<open>C28: the edge-triggered accept loop ends, and has accepted everything: while each success
  takes one of the finitely many waiting connections, going around once more than their
  number is enough.\<close>

theorem accept_loop_terminates:
  assumes "backlog_spec env ls bl" "bl (eworld s) < n"
  shows "\<exists>r. epoll_handle_new_clients n cfg env ef ls s = Some r"
  using assms by (rule accept_loop_ends)

theorem accept_loop_terminates_witness:
  "\<exists>r. epoll_handle_new_clients 2 ep_cfg sample_epoll 4 3 ep_state = Some r"
  using accept_loop_terminates [OF sample_backlog, of ep_state 2 ep_cfg 4 3] by (simp add: ep_state_def)

end
