(* ===== verification/EpollMain.thy ===== *)
theory EpollMain
  imports EpollResults Loops
begin

text \<open>
  The epoll server as a whole: a run of \<open>main\<close> from start-up over any number of rounds to the end,
  with and without the server-side benchmark.
\<close>

subsection \<open>Start-up\<close>

text \<open>The calls of start-up register nothing.\<close>

definition setup_iv :: "('w, 'x) epoll_env_scheme \<Rightarrow> 'w kview \<Rightarrow> ('w \<Rightarrow> (int \<times> epoll_data) set) \<Rightarrow> bool" where
  "setup_iv env v iv \<longleftrightarrow>
     (\<forall>w rc w'. e_epoll_create1 env w = (rc, w') \<longrightarrow> opens_fresh v w rc w' \<and> iv w' = iv w)
     \<and> (\<forall>w rc w'. e_socket env w = (rc, w') \<longrightarrow> iv w' = iv w)
     \<and> (\<forall>w rc w'. e_timerfd_create env w = (rc, w') \<longrightarrow> iv w' = iv w)
     \<and> (\<forall>fd a b w rc w'. e_timerfd_settime env fd a b w = (rc, w') \<longrightarrow> iv w' = iv w)
     \<and> (\<forall>fd w rc w'. e_fcntl_nonblock env fd w = (rc, w') \<longrightarrow> iv w' = iv w)
     \<and> (\<forall>fd p a w rc w'. e_bind env fd p a w = (rc, w') \<longrightarrow> iv w' = iv w)
     \<and> (\<forall>fd n w rc w'. e_listen env fd n w = (rc, w') \<longrightarrow> iv w' = iv w)
     \<and> (\<forall>w rc w'. e_sigaction_usr1 env w = (rc, w') \<longrightarrow> iv w' = iv w)
     \<and> (\<forall>w rc w'. e_sigemptyset env w = (rc, w') \<longrightarrow> iv w' = iv w)
     \<and> (\<forall>w rc w'. e_sigaddset_usr1 env w = (rc, w') \<longrightarrow> iv w' = iv w)
     \<and> (\<forall>b w rc w'. e_sigprocmask env b w = (rc, w') \<longrightarrow> iv w' = iv w)"

definition epoll_start ::
    "config \<Rightarrow> ('w, 'x) epoll_env_scheme \<Rightarrow> (nat \<Rightarrow> byte list option) \<Rightarrow> 16 word \<Rightarrow> int \<Rightarrow> 'w
     \<Rightarrow> (int \<times> int \<times> int \<times> 'w epoll_state) res" where
  "epoll_start cfg env malloc port warmup w =
     bindE (epoll_setup cfg env malloc port w) (\<lambda>(ls, s).
     bindE (eservice_loop_init cfg env warmup ls s) (\<lambda>(ef, ts). Inr (ls, ef, ts)))"

lemma listening_iv:
  assumes "setup_iv env v iv" "create_ipv4_listening_socket env port w = Inr (fd, w')"
  shows "iv w' = iv w"
  using assms unfolding setup_iv_def create_ipv4_listening_socket_def
  by (auto simp: Let_def bindE_eq_Inr split: prod.splits)

lemma signal_iv: "setup_iv env v iv \<Longrightarrow> register_signal_handler env w = Inr w' \<Longrightarrow> iv w' = iv w"
  unfolding setup_iv_def register_signal_handler_def by (auto simp: bindE_eq_Inr split: prod.splits)

lemma timer_iv: "setup_iv env v iv \<Longrightarrow> create_warmup_timer env secs w = Inr (t, w') \<Longrightarrow> iv w' = iv w"
  unfolding setup_iv_def create_warmup_timer_def by (auto simp: Let_def bindE_eq_Inr split: prod.splits)

definition efresh ::
    "config \<Rightarrow> 'w kview \<Rightarrow> ('w \<Rightarrow> (int \<times> epoll_data) set) \<Rightarrow> 'w \<Rightarrow> int \<times> 'w epoll_state \<Rightarrow> bool" where
  "efresh cfg v iv w = (\<lambda>(ls, s). opened v w ls (eworld s) \<and> iv (eworld s) = iv w \<and> econs s = empty_heap
     \<and> dll_head s = None \<and> dll_tail s = None \<and> erunning s = 1
     \<and> (DO_BENCH cfg \<longrightarrow> bench_inv (ebench s) \<and> client_no (ebench s) = 0))"

lemma epoll_setup_safe:
  assumes K: "setup_spec env v" "setup_iv env v iv" and M: "malloc_spec malloc"
  shows "safeE (efresh cfg v iv w) (epoll_setup cfg env malloc port w)"
proof -
  let ?B = "\<lambda>b. DO_BENCH cfg \<longrightarrow> bench_inv b \<and> client_no b = 0"
  have sock: "safeE (efresh cfg v iv w)
     (bindE (create_ipv4_listening_socket env port w1) (\<lambda>(ls, w).
      Inr (ls, \<lparr>ebench = b, econs = empty_heap, dll_head = None, dll_tail = None, erunning = 1, eworld = w\<rparr>)))"
    if "?B b" "same_view v w w1" "iv w1 = iv w" for w1 b
    unfolding safeE_bindE
    by (rule safeE_mono [OF listening_socket_safe [OF K(1)]])
      (use that listening_iv [OF K(2)] same_then_opened in \<open>auto simp: efresh_def\<close>)
  have rest: "safeE (efresh cfg v iv w) (bindE (register_signal_handler env w) (\<lambda>w.
     bindE (create_ipv4_listening_socket env port w) (\<lambda>(ls, w).
     Inr (ls, \<lparr>ebench = b, econs = empty_heap, dll_head = None, dll_tail = None, erunning = 1, eworld = w\<rparr>))))"
    if "?B b" for b
    unfolding safeE_bindE [of _ "register_signal_handler env w"]
    by (rule safeE_mono [OF signal_handler_safe [OF K(1)]]) (use that sock signal_iv [OF K(2)] in simp)
  show ?thesis
    unfolding epoll_setup_def safeE_bindE [of _ "if DO_BENCH cfg then _ else _"]
    by (rule safeE_mono [OF bench_setup_safe [OF M]]) (rule rest)
qed

text \<open>The descriptors of \<open>service_loop\<close> and what is registered before its loop.\<close>

lemma create_epoll_safe:
  assumes "setup_iv env v iv"
  shows "safeE (\<lambda>(ef, w'). opened v w ef w' \<and> iv w' = iv w) (create_epoll env w)"
proof -
  obtain ef w1 where 1: "e_epoll_create1 env w = (ef, w1)" by force
  then have "opens_fresh v w ef w1" "iv w1 = iv w" using assms by (auto simp: setup_iv_def)
  then show ?thesis using opens_fresh_opened by (auto simp: create_epoll_def 1)
qed

lemma start_registered:
  assumes "0 \<le> ls" "ls \<in> kv_open v w" "iv w = insert (ls, LfdHolder) (if t = - 1 then {} else {(t, TfdHolder)})"
    and "t \<noteq> - 1 \<Longrightarrow> 0 \<le> t \<and> t \<noteq> ls \<and> t \<in> kv_open v w"
    and "econs s = empty_heap" "dll_head s = None" "dll_tail s = None" "DO_BENCH cfg \<Longrightarrow> bench_inv (ebench s)"
  shows "esafe cfg v iv ls (t, s\<lparr>eworld := w\<rparr>)"
  using assms
  by (auto simp: esafe_def ep_inv_def registered_def heap_ok_def empty_heap_def ends_ok_def split: epoll_data.splits if_splits)

definition epoll_register ::
    "config \<Rightarrow> ('w, 'x) epoll_env_scheme \<Rightarrow> int \<Rightarrow> 'w epoll_state \<Rightarrow> int \<Rightarrow> int \<Rightarrow> 'w \<Rightarrow> (int \<times> int \<times> 'w epoll_state) res" where
  "epoll_register cfg env ls s ef t w = (case e_sigprocmask env False w of (rc, w) \<Rightarrow>
     bindE (assert_zero rc ''sigprocmask get orig_mask'') (\<lambda>_.
     case e_sigemptyset env w of (rc, w) \<Rightarrow>
     bindE (assert_zero rc ''sigemptyset'') (\<lambda>_.
     case e_sigaddset_usr1 env w of (rc, w) \<Rightarrow>
     bindE (assert_zero rc ''sigaddset'') (\<lambda>_.
     bindE (epoll_add_listening_socket env ef ls w) (\<lambda>w.
     bindE (if DO_BENCH cfg then epoll_add_timer env ef t w else Inr w) (\<lambda>w.
     case e_sigprocmask env True w of (rc, w) \<Rightarrow>
     bindE (assert_zero rc ''sigprocmask'') (\<lambda>_. Inr (ef, t, s\<lparr>eworld := w\<rparr>))))))))"

lemma init_eq: "eservice_loop_init cfg env warmup ls s = bindE (create_epoll env (eworld s)) (\<lambda>(ef, w).
     bindE (if DO_BENCH cfg then create_warmup_timer env warmup w else Inr (- 1, w)) (\<lambda>(t, w). epoll_register cfg env ls s ef t w))"
  by (simp add: eservice_loop_init_def epoll_register_def)

lemma epoll_register_safe:
  assumes K: "epoll_spec env v iv" "setup_spec env v" "setup_iv env v iv"
    and w: "iv w = {}" "0 \<le> ls" "ls \<in> kv_open v w" and t: "if DO_BENCH cfg then 0 \<le> t \<and> t \<noteq> ls \<and> t \<in> kv_open v w else t = - 1"
    and s: "econs s = empty_heap" "dll_head s = None" "dll_tail s = None" "DO_BENCH cfg \<Longrightarrow> bench_inv (ebench s)"
  shows "safeE (\<lambda>(ef, ts). esafe cfg v iv ls ts \<and> ebench (snd ts) = ebench s \<and> (echoed v w \<longrightarrow> echoed v (eworld (snd ts))))
     (epoll_register cfg env ls s ef t w)"
proof -
  obtain r2 w2 where 2: "e_sigprocmask env False w = (r2, w2)" by force
  obtain r3 w3 where 3: "e_sigemptyset env w2 = (r3, w3)" by force
  obtain r4 w4 where 4: "e_sigaddset_usr1 env w3 = (r4, w4)" by force
  obtain r5 w5 where 5: "e_epoll_ctl_add env ef ls (EPOLLIN OR EPOLLET) LfdHolder w4 = (r5, w5)" by force
  obtain r6 w6 where 6: "e_epoll_ctl_add env ef t (EPOLLIN OR EPOLLET) TfdHolder w5 = (r6, w6)" by force
  define w7 where "w7 = (if DO_BENCH cfg then w6 else w5)"
  obtain r8 w8 where 8: "e_sigprocmask env True w7 = (r8, w8)" by force
  note I = K(3) [unfolded setup_iv_def] and S = setup_specD [OF K(2)]
  have "iv w2 = iv w" "iv w3 = iv w2" "iv w4 = iv w3" and i8: "iv w8 = iv w7" using I 2 3 4 8 by blast+
  then have i4: "iv w4 = {}" using w(1) by simp
  have a: "same_view v w4 w7"
    using epoll_specD(1) [OF K(1) 5] epoll_specD(1) [OF K(1) 6] same_view_trans [of v w4 w5 w6] by (simp add: w7_def)
  have "same_view v w w2" "same_view v w2 w3" "same_view v w3 w4" "same_view v w7 w8"
    using S(8-10) 2 3 4 8 by blast+
  then have sv: "same_view v w w8" using a by (meson same_view_trans)
  have "esafe cfg v iv ls (t, s\<lparr>eworld := w8\<rparr>)" if "r5 = 0" "DO_BENCH cfg \<longrightarrow> r6 = 0"
  proof (rule start_registered [OF w(2)])
    show "iv w8 = insert (ls, LfdHolder) (if t = - 1 then {} else {(t, TfdHolder)})"
      using that i8 i4 epoll_specD(1) [OF K(1) 5] epoll_specD(1) [OF K(1) 6] t
      by (auto simp: w7_def split: if_splits)
  qed (use sv w t s in \<open>auto simp: same_view_def split: if_splits\<close>)
  then show ?thesis
    using same_view_echoed [OF sv] 8
    by (auto simp: epoll_register_def 2 3 4 5 [simplified] 6 [simplified] w7_def epoll_add_listening_socket_def epoll_add_timer_def)
qed

lemma epoll_init_safe:
  assumes K: "epoll_spec env v iv" "setup_spec env v" "setup_iv env v iv"
    and s: "efresh cfg v iv w0 (ls, s)" and i: "iv w0 = {}"
  shows "safeE (\<lambda>(ef, ts). esafe cfg v iv ls ts \<and> ebench (snd ts) = ebench s
       \<and> (echoed v (eworld s) \<longrightarrow> echoed v (eworld (snd ts))))
     (eservice_loop_init cfg env warmup ls s)"
  (is "safeE ?Q _")
  unfolding init_eq safeE_bindE [of _ "create_epoll env (eworld s)"]
proof (rule safeE_mono [OF create_epoll_safe [OF K(3)]], clarify)
  fix ef w1 assume 1: "opened v (eworld s) ef w1" "iv w1 = iv (eworld s)"
  let ?T = "\<lambda>(t, w2). iv w2 = {} \<and> (if DO_BENCH cfg then opened v w1 t w2 else t = - 1 \<and> w2 = w1)"
  have e: "iv w1 = {}" "0 \<le> ls" "ls \<in> kv_open v w1" using 1 s i by (auto simp: efresh_def opened_def)
  have T: "safeE ?T (if DO_BENCH cfg then create_warmup_timer env warmup w1 else Inr (- 1, w1))"
  proof (cases "DO_BENCH cfg")
    case True
    then show ?thesis
      using warmup_timer_safe [OF K(2), of w1 warmup] timer_iv [OF K(3), of warmup w1] e(1)
      by (cases "create_warmup_timer env warmup w1") (auto simp: safeE_def split: stop.splits)
  qed (use e in simp)
  have R: "safeE ?Q (epoll_register cfg env ls s ef t w2)" if "?T (t, w2)" for t w2
  proof -
    have "echoed v (eworld s) \<Longrightarrow> echoed v w2"
      using opened_echoed [OF 1(1)] opened_echoed [of v w1 t w2] that by (auto split: if_splits)
    then show ?thesis
      using that e s by (intro safeE_mono [OF epoll_register_safe [OF K]]) (auto simp: efresh_def opened_def split: if_splits)
  qed
  show "safeE ?Q (bindE (if DO_BENCH cfg then create_warmup_timer env warmup w1 else Inr (- 1, w1))
      (\<lambda>(t, w). epoll_register cfg env ls s ef t w))"
    unfolding safeE_bindE by (rule safeE_mono [OF T]) (use R in auto)
qed

subsection \<open>The loop\<close>

interpretation epoll_run: server_loop "\<lambda>ts. ts" "\<lambda>ts. erunning (snd ts) \<noteq> 0"
    "\<lambda>n. epoll_round n cfg env ef ls" "\<lambda>n. epoll_loop n cfg env ef ls" for cfg env ef ls
  by unfold_locales (simp_all add: epoll_loop.simps [of 0] epoll_loop.simps [of "Suc _"] epoll_loop.simps
      split: sum.splits option.splits)

text \<open>A stop the loop may come to: an exit, or an access to a freed connection.\<close>

definition dangling :: "stop \<Rightarrow> bool" where
  "dangling e \<longleftrightarrow> e = UB UseAfterFree \<or> exits e"

lemma only_dangling_outcome: "only_dangling P r = outcome dangling P r"
  by (auto simp: only_dangling_def outcome_def dangling_def exits_def split: sum.splits stop.splits)

text \<open>With \<open>k\<close> rounds left, at most \<open>k\<close>, \<open>k - 1\<close>, ... clients can still be counted.\<close>

definition eloop_inv ::
    "config \<Rightarrow> 'w kview \<Rightarrow> ('w \<Rightarrow> (int \<times> epoll_data) set) \<Rightarrow> int \<Rightarrow> nat \<Rightarrow> int \<times> 'w epoll_state \<Rightarrow> bool" where
  "eloop_inv cfg v iv ls k ts \<longleftrightarrow> esafe cfg v iv ls ts \<and> echoed v (eworld (snd ts)) \<and> clients_left cfg (k * k) (snd ts)"

lemma epoll_round_keeps:
  assumes K: "kernel_spec env v" "epoll_spec env v iv" and I: "eloop_inv cfg v iv ls (Suc k) ts"
  shows "outcome_opt dangling (eloop_inv cfg v iv ls k) (epoll_round k cfg env ef ls ts)"
proof (cases "epoll_round k cfg env ef ls ts")
  case (Some r)
  obtain tfd s where ts: "ts = (tfd, s)" by force
  have s: "esafe cfg v iv ls (tfd, s)" "echoed v (eworld s)" "clients_left cfg (Suc k * Suc k) s"
    using I ts by (simp_all add: eloop_inv_def)
  have sq: "int (Suc k * Suc k) = int (k * k) + 2 * int k + 1" by (simp add: algebra_simps)
  have left: "DO_BENCH cfg \<Longrightarrow> client_no (ebench s) + int (k * k) + 2 * int k + 1 < 2 ^ 31"
    using s(3) unfolding clients_left_def sq by simp
  then have "clients_left cfg k s" using left by (auto simp: clients_left_def simp del: of_nat_mult)
  then have "outcome dangling (eround_post k cfg v iv ls s) r"
    using epoll_round_cases [OF K s(1)] Some ts by (simp add: only_dangling_outcome)
  then show ?thesis
    unfolding Some outcome_opt_simps
    by (rule outcome_mono) (use s(2) left in \<open>auto simp: eloop_inv_def eround_post_def eechoes_def clients_left_def simp del: of_nat_mult\<close>)
qed simp

lemma epoll_loop_keeps:
  assumes K: "kernel_spec env v" "epoll_spec env v iv" and I: "eloop_inv cfg v iv ls n ts"
  shows "outcome_opt dangling (\<lambda>ts. esafe cfg v iv ls ts \<and> echoed v (eworld (snd ts))) (epoll_loop n cfg env ef ls ts)"
proof -
  have "outcome_opt dangling (\<lambda>ts'. \<exists>k t0. eloop_inv cfg v iv ls k t0 \<and> ts' = t0 \<and> \<not> erunning (snd ts') \<noteq> 0)
      (epoll_loop n cfg env ef ls ts)"
    by (rule epoll_run.loop_keeps [where I = "eloop_inv cfg v iv ls"]) (use epoll_round_keeps [OF K] I in auto)
  then show ?thesis by (auto simp: outcome_opt_def outcome_def eloop_inv_def split: option.splits sum.splits)
qed

subsection \<open>The end\<close>

lemma eclose_fd_echoed:
  assumes "close_spec env v" "echoed v (eworld s)"
  shows "safeE (\<lambda>s'. \<exists>w. s' = s\<lparr>eworld := w\<rparr> \<and> echoed v w) (eclose_fd env f m s)"
proof -
  obtain rc w where c: "e_close env f (eworld s) = (rc, w)" by force
  show ?thesis
    using assms(1) [unfolded close_spec_def, rule_format, OF c] c assms(2)
    by (auto simp: eclose_fd_def echoed_def)
qed

text \<open>The loop of the cleanup meets at most the head of the list, which is intact.\<close>

definition head_ok :: "'w epoll_state \<Rightarrow> bool" where
  "head_ok s \<longleftrightarrow> (\<forall>a. dll_head s = Some a \<longrightarrow> (\<exists>c. cells (econs s) a = Some c \<and> ec_prev c = None \<and> ec_next c = None))"

lemma close_all_safe:
  assumes C: "close_spec env v" and e: "echoed v (eworld s)" and h: "head_ok s"
  shows "outcome_opt exits (\<lambda>s'. echoed v (eworld s')) (close_all n env (dll_head s) s)"
proof (cases "dll_head s")
  case None
  then show ?thesis using e by (cases n) simp_all
next
  case (Some a)
  then obtain c where c: "cells (econs s) a = Some c" "ec_prev c = None" "ec_next c = None" using h by (auto simp: head_ok_def)
  let ?s = "without a c s"
  have r: "dll_remove a s = Inr ?s" using c by (simp add: dll_remove_def without_def)
  have w: "econs ?s = econs s" "eworld ?s = eworld s" by (simp_all add: without_def)
  have "safeE (\<lambda>s'. echoed v (eworld s')) (eclose_client env a s)"
    unfolding eclose_client_def r using w c e
    by (simp, intro safeE_mono [OF eclose_fd_echoed [OF C]]) auto
  moreover have "close_all n env None s' = Some (Inr s')" for s' by (cases n) simp_all
  ultimately have "outcome_opt exits (\<lambda>s'. echoed v (eworld s')) (close_all (Suc n) env (Some a) s)" for n
    using c(1,3) by (cases "eclose_client env a s") (simp_all add: safeE_outcome Let_def, cases n, simp_all)
  then show ?thesis using Some by (cases n) simp_all
qed

lemma cleanup_safe:
  assumes C: "close_spec env v" and e: "echoed v (eworld s)" and h: "head_ok s"
  shows "outcome_opt exits (\<lambda>s'. echoed v (eworld s')) (edo_service_loop_cleanup n env ef (tfd, s))"
proof -
  let ?P = "\<lambda>s'. \<exists>w. s' = s\<lparr>eworld := w\<rparr> \<and> echoed v w"
  have close: "safeE ?P (eclose_fd env f m s1)" if "?P s1" for f m s1
  proof -
    have "echoed v (eworld s1)" using that by auto
    from eclose_fd_echoed [OF C this] show ?thesis by (rule safeE_mono) (use that in auto)
  qed
  have "?P s" using e by (intro exI [of _ "eworld s"]) simp
  then have "safeE (\<lambda>(tfd, s'). ?P s') (if tfd \<noteq> - 1 then eclose_timer env (tfd, s) else Inr (tfd, s))"
    using close [of s] by (auto simp: eclose_timer_def elim: safeE_mono)
  then have m: "safeE ?P (bindE (if tfd \<noteq> - 1 then eclose_timer env (tfd, s) else Inr (tfd, s))
      (\<lambda>(tfd, s). eclose_fd env ef ''close epoll_fd'' s))" (is "safeE ?P ?m")
    unfolding safeE_bindE by (rule safeE_mono) (use close in auto)
  show ?thesis
  proof (cases ?m)
    case (Inl x)
    then show ?thesis using m by (simp add: edo_service_loop_cleanup_def safeE_outcome)
  next
    case (Inr s1)
    then obtain w where "s1 = s\<lparr>eworld := w\<rparr>" "echoed v w" using m by auto
    then have "outcome_opt exits (\<lambda>s'. echoed v (eworld s')) (close_all n env (dll_head s1) s1)"
      using h by (intro close_all_safe [OF C]) (auto simp: head_ok_def)
    then show ?thesis using Inr by (simp add: edo_service_loop_cleanup_def)
  qed
qed

lemma esafe_head:
  assumes "esafe cfg v iv ls (tfd, s)"
  shows "head_ok s"
  unfolding head_ok_def
proof (intro allI impI)
  fix a assume a: "dll_head s = Some a"
  have I: "ep_inv cfg v ls tfd s" using assms by (simp add: esafe_def)
  obtain c where c: "cells (econs s) a = Some c" "ec_prev c = None"
    using ep_invD(7) [OF I] a by (auto simp: ends_ok_def)
  then show "\<exists>c. cells (econs s) a = Some c \<and> ec_prev c = None \<and> ec_next c = None"
    using ep_invD(5) [OF I c(1)] by (simp add: con_ok_def)
qed

lemma exit_cleanup_safe:
  assumes "close_spec env v" "echoed v (eworld s)"
  shows "safeE (\<lambda>s'. echoed v (eworld s')) (edo_exit_cleanup cfg env ls s)"
  unfolding edo_exit_cleanup_def safeE_bindE
  by (rule safeE_mono [OF eclose_fd_echoed [OF assms]]) auto

text \<open>What follows the loop.\<close>

definition epoll_finish ::
    "nat \<Rightarrow> config \<Rightarrow> ('w, 'x) epoll_env_scheme \<Rightarrow> 'f option \<Rightarrow> int \<Rightarrow> int \<Rightarrow> int \<times> 'w epoll_state
     \<Rightarrow> (string option \<times> 'w epoll_state) res option" where
  "epoll_finish n cfg env fopen ls ef = (\<lambda>(tfd, s).
     let s = with_ebench cfg (sb_stop (e_clock env)) s
     in case (if DO_BENCH cfg then sb_save_bench fopen (ebench s) else Inr None) of
          Inl e \<Rightarrow> Some (Inl e)
        | Inr file \<Rightarrow> map_option (\<lambda>r. bindE r (\<lambda>s. bindE (edo_exit_cleanup cfg env ls s) (\<lambda>s. Inr (file, s))))
            (edo_service_loop_cleanup n env ef (tfd, s)))"

lemma stopped_safe:
  assumes K: "kernel_spec env v" "epoll_spec env v iv" and I: "esafe cfg v iv ls (tfd, s)" and e: "echoed v (eworld s)"
  defines "s' \<equiv> with_ebench cfg (sb_stop (e_clock env)) s"
  shows "esafe cfg v iv ls (tfd, s')" "echoed v (eworld s')"
    "safeE (\<lambda>_. True) (if DO_BENCH cfg then sb_save_bench fopen (ebench s') else Inr None)"
proof -
  obtain b w where b: "sb_stop (e_clock env) (ebench s, eworld s) = (b, w)" by force
  then have w: "w = snd (e_clock env (eworld s))" by (auto simp: sb_stop_def split: prod.splits)
  have sv: "same_view v (eworld s) w" using kernel_specD(5) [OF K(1)] by (simp add: quiet_spec_def w)
  have iw: "iv w = iv (eworld s)" unfolding w by (rule epoll_specD(7) [OF K(2)]) (rule prod.collapse [symmetric])
  have bi: "bench_inv b" "do_measure b = 0" if "DO_BENCH cfg"
    using bench_inv_ops(2) [of "ebench s" "e_clock env" "eworld s"] sb_stop_simps [of "e_clock env" "ebench s" "eworld s"] I that b
    by (simp_all add: esafe_def ep_inv_def)
  have "esafe cfg v iv ls (tfd, s\<lparr>eworld := w, ebench := b\<rparr>)" if "DO_BENCH cfg"
    using esafe_bench [OF esafe_world [OF I, of w]] sv iw bi that by (simp add: same_view_def)
  moreover have "s\<lparr>eworld := w, ebench := b\<rparr> = s\<lparr>ebench := b, eworld := w\<rparr>" by simp
  ultimately show "esafe cfg v iv ls (tfd, s')" using I b by (cases "DO_BENCH cfg") (auto simp: s'_def with_ebench_def)
  show "echoed v (eworld s')"
    using same_view_echoed [OF sv e] e b by (simp add: s'_def with_ebench_def)
  show "safeE (\<lambda>_. True) (if DO_BENCH cfg then sb_save_bench fopen (ebench s') else Inr None)"
    using save_bench_safe bi b by (auto simp: s'_def with_ebench_def)
qed

lemma finish_safe:
  assumes K: "kernel_spec env v" "epoll_spec env v iv" and I: "esafe cfg v iv ls ts" and e: "echoed v (eworld (snd ts))"
  shows "outcome_opt exits (\<lambda>(_, s'). echoed v (eworld s')) (epoll_finish n cfg env fopen ls ef ts)"
proof -
  obtain tfd s where ts: "ts = (tfd, s)" by force
  note C = kernel_specD(4) [OF K(1)]
  define s' where "s' = with_ebench cfg (sb_stop (e_clock env)) s"
  note S = stopped_safe [OF K, of cfg ls tfd s, folded s'_def]
  have I': "esafe cfg v iv ls (tfd, s')" "echoed v (eworld s')" using S I e ts by simp_all
  have sv: "safeE (\<lambda>_. True) (if DO_BENCH cfg then sb_save_bench fopen (ebench s') else Inr None)"
    using S(3) I e ts by simp
  have fin: "outcome_opt exits (\<lambda>(_, s'). echoed v (eworld s'))
      (map_option (\<lambda>r. bindE r (\<lambda>s. bindE (edo_exit_cleanup cfg env ls s) (\<lambda>s. Inr (out, s))))
        (edo_service_loop_cleanup n env ef (tfd, s')))" for out :: "string option"
  proof (cases "edo_service_loop_cleanup n env ef (tfd, s')")
    case (Some r)
    have "safeE (\<lambda>s1. echoed v (eworld s1)) r"
      using cleanup_safe [OF C I'(2) esafe_head [OF I'(1)], of n ef tfd] Some by (simp add: safeE_outcome)
    then have "safeE (\<lambda>(_, s'). echoed v (eworld s')) (bindE r (\<lambda>s. bindE (edo_exit_cleanup cfg env ls s) (\<lambda>s. Inr (out, s))))"
      unfolding safeE_bindE by (rule safeE_mono) (use exit_cleanup_safe [OF C] in auto)
    then show ?thesis using Some by (simp add: safeE_outcome)
  qed simp
  show ?thesis
  proof (cases "if DO_BENCH cfg then sb_save_bench fopen (ebench s') else Inr None")
    case (Inl x)
    then show ?thesis using sv unfolding ts epoll_finish_def prod.case Let_def s'_def [symmetric] Inl by (simp add: safeE_outcome)
  next
    case (Inr out)
    then show ?thesis using fin unfolding ts epoll_finish_def prod.case Let_def s'_def [symmetric] Inr by simp
  qed
qed

lemma emain_after_start:
  assumes "epoll_start cfg env malloc port warmup w = Inr (ls, ef, start)"
  shows "epoll_main n cfg env malloc fopen port warmup w = (case epoll_loop n cfg env ef ls start of None \<Rightarrow> None
     | Some (Inl e) \<Rightarrow> Some (Inl e)
     | Some (Inr ts) \<Rightarrow> epoll_finish n cfg env fopen ls ef ts)"
proof -
  obtain s where s: "epoll_setup cfg env malloc port w = Inr (ls, s)" "eservice_loop_init cfg env warmup ls s = Inr (ef, start)"
    using assms by (auto simp: epoll_start_def bindE_eq_Inr)
  show ?thesis
    using s
    by (auto simp: epoll_main_def eservice_loop_def epoll_finish_def Let_def bindE_assoc map_option_case split: option.splits sum.splits)
qed

subsection \<open>Claim\<close>

text \<open>C5: A run of the whole epoll server, whatever the kernel does within its contract: for every
  bound on the number of rounds and accepts (with the benchmark, one that keeps the client counter
  within an int) it is still going, exits at an assertion, touches a connection that was freed, or
  has returned from \<open>main\<close> with every byte it read echoed. It has no other undefined behaviour.\<close>

theorem epoll_main_only_dangles:
  fixes w :: 'w
  assumes "kernel_spec env v" "epoll_spec env v iv" "setup_spec env v" "setup_iv env v iv" "malloc_spec malloc"
    and "DO_BENCH cfg \<Longrightarrow> n * n < 2 ^ 31" "echoed v w" "iv w = {}"
  shows "case epoll_main n cfg env malloc fopen port warmup w of
       Some (Inr (out, s)) \<Rightarrow> echoed v (eworld s)
     | Some (Inl (UB u)) \<Rightarrow> u = UseAfterFree
     | _ \<Rightarrow> True"
proof -
  let ?Q = "\<lambda>(ls, ef, ts). eloop_inv cfg v iv ls n ts"
  have init: "safeE ?Q (bindE (eservice_loop_init cfg env warmup ls s) (\<lambda>(ef, ts). Inr (ls, ef, ts)))"
    if s: "efresh cfg v iv w (ls, s)" for ls s
  proof -
    have "echoed v (eworld s)" "DO_BENCH cfg \<longrightarrow> client_no (ebench s) = 0"
      using s assms(7) opened_echoed [of v w ls "eworld s"] by (simp_all add: efresh_def)
    then have "\<And>ef ts. esafe cfg v iv ls ts \<and> ebench (snd ts) = ebench s \<and> (echoed v (eworld s) \<longrightarrow> echoed v (eworld (snd ts)))
        \<Longrightarrow> eloop_inv cfg v iv ls n ts"
      using assms(6) by (auto simp: eloop_inv_def clients_left_def simp flip: of_nat_mult)
    then show ?thesis
      unfolding safeE_bindE by (intro safeE_mono [OF epoll_init_safe [OF assms(2-4) s assms(8)]]) auto
  qed
  have st: "safeE ?Q (epoll_start cfg env malloc port warmup w)"
    unfolding epoll_start_def safeE_bindE [of _ "epoll_setup cfg env malloc port w"]
    by (rule safeE_mono [OF epoll_setup_safe [OF assms(3-5)]]) (use init in auto)
  show ?thesis
  proof (cases "epoll_start cfg env malloc port warmup w")
    case (Inl e)
    then have "epoll_main n cfg env malloc fopen port warmup w = Some (Inl e)"
      by (auto simp: epoll_start_def epoll_main_def eservice_loop_def bindE_eq_Inl split: sum.splits prod.splits)
    then show ?thesis using st Inl by (cases e) auto
  next
    case (Inr x)
    obtain ls ef ts where x: "x = (ls, ef, ts)" by (metis prod.collapse)
    note M = emain_after_start [OF Inr [unfolded x], of n fopen]
    have I: "eloop_inv cfg v iv ls n ts" using st Inr x by simp
    note L = epoll_loop_keeps [OF assms(1,2) I, of ef]
    show ?thesis
    proof (cases "epoll_loop n cfg env ef ls ts")
      case (Some r)
      show ?thesis
      proof (cases r)
        case (Inl e)
        then show ?thesis using L M Some by (auto simp: dangling_def exits_def split: stop.splits)
      next
        case (Inr ts')
        have "outcome_opt exits (\<lambda>(out, s'). echoed v (eworld s')) (epoll_main n cfg env malloc fopen port warmup w)"
          using finish_safe [OF assms(1,2), of cfg ls ts' n fopen ef] L M Some Inr by simp
        then show ?thesis by (auto simp: outcome_opt_def outcome_def exits_def split: option.splits sum.splits stop.splits)
      qed
    qed (use M x in simp)
  qed
qed

text \<open>A kernel that reports the waiting connection, and then delivers the signal.\<close>

definition stopping_epoll :: "epoll_data sworld epoll_env" where
  "stopping_epoll = sample_epoll\<lparr>e_epoll_pwait := (\<lambda>ef n w.
     if sw_backlog w = 0 then ((- 1, EINTR, [], True), w) else s_pwait ef n w)\<rparr>"

lemma stopping_epoll_simps [simp]:
  "like_sample stopping_epoll" "e_epoll_ctl_add stopping_epoll = s_ctl_add" "e_epoll_create1 stopping_epoll = s_open"
  "e_epoll_pwait stopping_epoll = (\<lambda>ef n w. if sw_backlog w = 0 then ((- 1, EINTR, [], True), w) else s_pwait ef n w)"
  by (simp_all add: stopping_epoll_def like_sample_def sample_epoll_def env.extend_def env.truncate_def
      epoll_env.fields_def sample_env_def)

lemma stopping_epoll_spec: "epoll_spec stopping_epoll sview (\<lambda>w. set (sw_interest w))"
  unfolding epoll_spec_def
  by (intro conjI)
    (auto simp: like_sampleD sample_defs s_ctl_add_def s_pwait_def Let_def same_view_def o_def
      intro: rev_image_eqI split: list.splits if_splits)

lemma stopping_setup_iv: "setup_iv stopping_epoll sview (\<lambda>w. set (sw_interest w))"
  by (simp add: setup_iv_def opens_fresh_def like_sampleD sample_defs)

lemma stopping_epoll_run:
  "\<exists>s. epoll_main 3 ep_cfg stopping_epoll (\<lambda>n. None) (Some ()) 8080 3 (sample_world (\<lambda>_. []) [3]) = Some (Inr (None, s))"
  unfolding epoll_main_def numeral_3_eq_3
  by (simp add: ep_eval epoll_setup_def register_signal_handler_def create_ipv4_listening_socket_def sample_world_def
      eservice_loop_def eservice_loop_init_def create_epoll_def epoll_add_listening_socket_def
      epoll_loop.simps [of "Suc _"] with_ebench_def edo_service_loop_cleanup_def edo_exit_cleanup_def
      eclose_fd_def eclose_client_def empty_heap_def dll_remove_def stop_server_signal_handler_def s_close_def)

theorem epoll_main_only_dangles_witness:
  "\<exists>s. epoll_main 3 ep_cfg stopping_epoll (\<lambda>n. None) (Some ()) 8080 3 (sample_world (\<lambda>_. []) [3]) = Some (Inr (None, s))
     \<and> echoed sview (eworld s)"
proof -
  obtain s where s: "epoll_main 3 ep_cfg stopping_epoll (\<lambda>n. None) (Some ()) 8080 3 (sample_world (\<lambda>_. []) [3]) = Some (Inr (None, s))"
    using stopping_epoll_run by blast
  have "echoed sview (sample_world (\<lambda>_. []) [3])" by (simp add: echoed_def sview_def sample_world_def)
  then show ?thesis
    using epoll_main_only_dangles [OF sample_kernel stopping_epoll_spec sample_setup stopping_setup_iv _, where cfg = ep_cfg
        and w = "sample_world (\<lambda>_. []) [3]" and n = 3 and malloc = "\<lambda>n. None" and fopen = "Some ()" and port = 8080 and warmup = 3] s
    by (simp add: sample_world_def malloc_spec_def)
qed

end
