(* ===== verification/RingSlots.thy ===== *)
theory RingSlots
  imports CMemory
begin

text \<open>
  Rings of \<open>2 ^ k\<close> slots indexed by free-running 32-bit counters, as io_uring lays them
  out: the counter i names the slot \<open>i AND mask\<close>, and the entries of the ring are those at
  the counters from head up to tail. Nothing here depends on where the counters stand, so
  the laws hold across their wrap-around.
\<close>

unbundle bit_operations_syntax

definition ring_slot :: "32 word \<Rightarrow> 32 word \<Rightarrow> nat" where
  "ring_slot msk i = unat (i AND msk)"

definition ring_entries :: "32 word \<Rightarrow> (nat \<Rightarrow> 'a) \<Rightarrow> 32 word \<Rightarrow> 32 word \<Rightarrow> 'a list" where
  "ring_entries msk slot head tail =
     map (\<lambda>i. slot (ring_slot msk (head + word_of_nat i))) [0..<unat (tail - head)]"

text \<open>\<open>ring_mask_ok msk n\<close>: the mask of a ring with \<open>n\<close> slots, a power of two.\<close>

definition ring_mask_ok :: "32 word \<Rightarrow> nat \<Rightarrow> bool" where
  "ring_mask_ok msk n \<longleftrightarrow> (\<exists>k < 32. n = 2 ^ k \<and> msk = mask k)"

lemma length_ring_entries [simp]: "length (ring_entries msk slot h t) = unat (t - h)"
  by (simp add: ring_entries_def)

lemma ring_slot_mod: "ring_mask_ok msk n \<Longrightarrow> ring_slot msk i = unat i mod n"
proof -
  assume "ring_mask_ok msk n"
  then obtain k where k: "n = 2 ^ k" "msk = mask k" by (auto simp: ring_mask_ok_def)
  have "ring_slot msk i = take_bit k (unat i)"
    by (simp add: ring_slot_def k take_bit_eq_mask [symmetric] unsigned_take_bit_eq)
  then show ?thesis by (simp add: k take_bit_eq_mod)
qed

lemma ring_slot_less: "ring_mask_ok msk n \<Longrightarrow> ring_slot msk i < n"
  by (auto simp: ring_slot_mod ring_mask_ok_def)

lemma ring_mask_dvd: "ring_mask_ok msk n \<Longrightarrow> n dvd 2 ^ 32 \<and> 0 < n \<and> n < 2 ^ 32"
proof -
  assume "ring_mask_ok msk n"
  then obtain k where k: "k < 32" "n = 2 ^ k" by (auto simp: ring_mask_ok_def)
  have "(2 :: nat) ^ k dvd 2 ^ 32" using k by (intro le_imp_power_dvd) simp
  moreover have "(2 :: nat) ^ k < 2 ^ 32" using k(1) by (rule power_strict_increasing) simp
  ultimately show ?thesis using k by simp
qed

lemma ring_slot_plus:
  assumes "ring_mask_ok msk n"
  shows "ring_slot msk (h + word_of_nat i) = (unat h + i) mod n"
proof -
  have d: "n dvd 2 ^ 32" using ring_mask_dvd [OF assms] by simp
  have "unat (h + word_of_nat i) = (unat h + i) mod 2 ^ 32"
    by (simp add: unat_word_ariths unsigned_of_nat take_bit_eq_mod mod_simps)
  then have "ring_slot msk (h + word_of_nat i) = (unat h + i) mod 2 ^ 32 mod n"
    by (simp add: ring_slot_mod [OF assms])
  then show ?thesis by (simp only: mod_mod_cancel [OF d])
qed

lemma ring_slot_inj:
  assumes m: "ring_mask_ok msk n" and ij: "i < n" "j < n"
    and eq: "ring_slot msk (h + word_of_nat i) = ring_slot msk (h + word_of_nat j)"
  shows "i = j"
proof -
  have eq': "(unat h + i) mod n = (unat h + j) mod n"
    using eq by (simp add: ring_slot_plus [OF m])
  show ?thesis
  proof (cases "i \<le> j")
    case True
    then have "n dvd j - i" using eq' mod_eq_dvd_iff_nat [of "unat h + i" "unat h + j" n] by simp
    then show ?thesis using True ij by (auto dest: dvd_imp_le)
  next
    case False
    then have "n dvd i - j" using eq' mod_eq_dvd_iff_nat [of "unat h + j" "unat h + i" n] by simp
    then show ?thesis using False ij by (auto dest: dvd_imp_le)
  qed
qed

text \<open>Adding at the tail and taking from the head.\<close>

lemma ring_entries_push:
  assumes m: "ring_mask_ok msk n" and room: "unat (t - h) < n"
    and new: "slot' (ring_slot msk t) = x"
    and old: "\<And>i. i < n \<Longrightarrow> i \<noteq> ring_slot msk t \<Longrightarrow> slot' i = slot i"
  shows "ring_entries msk slot' h (t + 1) = ring_entries msk slot h t @ [x]"
proof -
  have lt: "unat (t - h) < 2 ^ 32 - 1" using room ring_mask_dvd [OF m] by simp
  have len: "unat (t + 1 - h) = Suc (unat (t - h))"
  proof -
    have "t + 1 - h = 1 + (t - h)" by simp
    also have "unat (1 + (t - h)) = Suc (unat (t - h))"
      using lt by (intro unatSuc) (auto simp: word_unat_eq_iff unat_word_ariths)
    finally show ?thesis .
  qed
  have tl: "h + word_of_nat (unat (t - h)) = t" by simp
  have "slot' (ring_slot msk (h + word_of_nat i)) = slot (ring_slot msk (h + word_of_nat i))"
    if "i < unat (t - h)" for i
  proof (rule old [OF ring_slot_less [OF m]], rule notI)
    assume "ring_slot msk (h + word_of_nat i) = ring_slot msk t"
    then have "ring_slot msk (h + word_of_nat i) = ring_slot msk (h + word_of_nat (unat (t - h)))" by simp
    from ring_slot_inj [OF m _ room this] that room show False by simp
  qed
  then show ?thesis
    by (simp add: ring_entries_def len new tl)
qed

lemma ring_entries_pop:
  assumes "h \<noteq> t"
  shows "ring_entries msk slot h t = slot (ring_slot msk h) # ring_entries msk slot (h + 1) t"
proof -
  have nz: "t - h \<noteq> 0" using assms by simp
  then have pos: "0 < unat (t - h)" by (simp add: unat_gt_0)
  have e: "t - (h + 1) = t - h - 1" by simp
  have l: "unat (t - h) = Suc (unat (t - (h + 1)))"
    unfolding e using pos by (simp add: unat_minus_one [OF nz])
  have "[0..<unat (t - h)] = 0 # map Suc [0..<unat (t - (h + 1))]"
    unfolding l by (simp add: upt_conv_Cons map_Suc_upt del: upt_Suc)
  then show ?thesis
    by (simp add: ring_entries_def comp_def algebra_simps)
qed

lemma ring_entries_empty: "ring_entries msk slot h t = [] \<longleftrightarrow> h = t"
  by (auto simp: ring_entries_def unsigned_eq_0_iff)

lemma ring_entries_cong:
  assumes "ring_mask_ok msk n" "\<And>i. i < n \<Longrightarrow> slot i = slot' i"
  shows "ring_entries msk slot h t = ring_entries msk slot' h t"
  using assms(2) [OF ring_slot_less [OF assms(1)]] by (simp add: ring_entries_def)

end
