(* ===== verification/IoUring.thy ===== *)
theory IoUring
  imports RingSlots Libc Printf
begin

text \<open>
  code/c/server/io_uring/io_uring_server_utils.h and .c, the part that talks to io_uring:
  setting the rings up, entering the kernel, submitting a request and taking a completion.
  The memory shared with the kernel is a set of mappings addressed by byte; a pointer into it
  is a mapping and an offset (mapping 0 is the null page), and every access is checked against
  the length mapped. \<open>e_uring_async\<close> is what the kernel did to the shared memory up to an
  atomic load: the model runs it at each of them. Operation objects live on a heap, which the
  kernel writes as well (the buffers of the requests it holds).
\<close>

subsection \<open>Operations and connections\<close>

datatype io_operation_types = ACCEPTED_CONNECTION | CLOSE_CONNECTION | RECV_FROM_CLIENT
  | SEND_TO_CLIENT | TIMER_EXPIRED

record client_con =
  con_fd :: int
  con_busy :: int
  con_buf_send_len :: "32 word"
  con_buf :: "byte list"
  con_bench_start_send :: timespec

record iou_socket_accept =
  acc_fd :: int
  acc_addr :: "byte list"
  acc_addrlen :: "32 word"

text \<open>The union of \<open>struct iou_op\<close>: the member last stored.\<close>

datatype op_info = InfoAccept iou_socket_accept | InfoCon client_con | InfoTimer timespec

record iou_op =
  op_type :: io_operation_types
  op_info :: op_info
  op_mem_tracker :: ptr

definition info_accept :: "iou_op \<Rightarrow> iou_socket_accept res" where
  "info_accept o' = (case op_info o' of InfoAccept i \<Rightarrow> Inr i | _ \<Rightarrow> Inl (UB WrongMember))"

definition info_con :: "iou_op \<Rightarrow> client_con res" where
  "info_con o' = (case op_info o' of InfoCon c \<Rightarrow> Inr c | _ \<Rightarrow> Inl (UB WrongMember))"

definition info_timer :: "iou_op \<Rightarrow> timespec res" where
  "info_timer o' = (case op_info o' of InfoTimer t \<Rightarrow> Inr t | _ \<Rightarrow> Inl (UB WrongMember))"

subsection \<open>The entries of the rings\<close>

datatype uring_opcode = IORING_OP_NOP | IORING_OP_TIMEOUT | IORING_OP_ACCEPT | IORING_OP_CLOSE
  | IORING_OP_SEND | IORING_OP_RECV

text \<open>Addresses inside an operation object.\<close>

datatype uaddr = UNull | AddrOfAddr nat | AddrOfAddrlen nat | AddrOfBuf nat | AddrOfTimer nat

record io_uring_sqe =
  sqe_opcode :: uring_opcode
  sqe_fd :: int
  sqe_addr2 :: uaddr
  sqe_addr :: uaddr
  sqe_len :: "32 word"
  sqe_op_flags :: "32 word"
  sqe_user_data :: ptr
  sqe_file_index :: "32 word"

text \<open>The kernel's union of \<open>off\<close> and \<open>addr2\<close> is the field \<open>sqe_addr2\<close>; the unions of the
  flags of each operation are \<open>sqe_op_flags\<close>.\<close>

definition zero_sqe :: io_uring_sqe where
  "zero_sqe = \<lparr>sqe_opcode = IORING_OP_NOP, sqe_fd = 0, sqe_addr2 = UNull, sqe_addr = UNull,
     sqe_len = 0, sqe_op_flags = 0, sqe_user_data = None, sqe_file_index = 0\<rparr>"

record io_uring_cqe =
  cqe_user_data :: ptr
  cqe_res :: int
  cqe_flags :: "32 word"

subsection \<open>Memory shared with the kernel\<close>

type_synonym rptr = "nat \<times> nat"

record ring_mem =
  rm_maps :: "nat \<Rightarrow> nat option"
  rm_u32 :: "rptr \<Rightarrow> 32 word"
  rm_sqe :: "rptr \<Rightarrow> io_uring_sqe"
  rm_cqe :: "rptr \<Rightarrow> io_uring_cqe"

definition rp_at :: "rptr \<Rightarrow> nat \<Rightarrow> nat \<Rightarrow> rptr" where
  "rp_at p width i = (fst p, snd p + width * i)"

definition rm_check :: "rptr \<Rightarrow> nat \<Rightarrow> ring_mem \<Rightarrow> unit res" where
  "rm_check p n m = (case rm_maps m (fst p) of
     None \<Rightarrow> Inl (UB UseAfterFree)
   | Some len \<Rightarrow> if snd p + n \<le> len then Inr () else Inl (UB OutOfBounds))"

definition load_u32 :: "rptr \<Rightarrow> ring_mem \<Rightarrow> 32 word res" where
  "load_u32 p m = bindE (rm_check p 4 m) (\<lambda>_. Inr (rm_u32 m p))"

definition store_u32 :: "rptr \<Rightarrow> 32 word \<Rightarrow> ring_mem \<Rightarrow> ring_mem res" where
  "store_u32 p x m = bindE (rm_check p 4 m) (\<lambda>_. Inr (m\<lparr>rm_u32 := (rm_u32 m)(p := x)\<rparr>))"

definition load_sqe :: "rptr \<Rightarrow> ring_mem \<Rightarrow> io_uring_sqe res" where
  "load_sqe p m = bindE (rm_check p 64 m) (\<lambda>_. Inr (rm_sqe m p))"

definition store_sqe :: "rptr \<Rightarrow> io_uring_sqe \<Rightarrow> ring_mem \<Rightarrow> ring_mem res" where
  "store_sqe p x m = bindE (rm_check p 64 m) (\<lambda>_. Inr (m\<lparr>rm_sqe := (rm_sqe m)(p := x)\<rparr>))"

definition load_cqe :: "rptr \<Rightarrow> ring_mem \<Rightarrow> io_uring_cqe res" where
  "load_cqe p m = bindE (rm_check p 16 m) (\<lambda>_. Inr (rm_cqe m p))"

lemma rm_check_upd [simp]:
  "rm_check p w (m\<lparr>rm_u32 := f\<rparr>) = rm_check p w m" "rm_check p w (m\<lparr>rm_sqe := g\<rparr>) = rm_check p w m"
  "rm_check p w (m\<lparr>rm_cqe := h\<rparr>) = rm_check p w m"
  by (simp_all add: rm_check_def)

lemmas rm_access_defs = load_u32_def store_u32_def load_sqe_def store_sqe_def load_cqe_def

subsection \<open>Parameters and the ring structure\<close>

record io_sqring_offsets =
  so_head :: "32 word"
  so_tail :: "32 word"
  so_ring_mask :: "32 word"
  so_ring_entries :: "32 word"
  so_flags :: "32 word"
  so_array :: "32 word"

record io_cqring_offsets =
  co_head :: "32 word"
  co_tail :: "32 word"
  co_ring_mask :: "32 word"
  co_ring_entries :: "32 word"
  co_cqes :: "32 word"

record io_uring_params =
  sq_entries :: "32 word"
  cq_entries :: "32 word"
  p_flags :: "32 word"
  sq_thread_cpu :: "32 word"
  sq_thread_idle :: "32 word"
  features :: "32 word"
  sq_off :: io_sqring_offsets
  cq_off :: io_cqring_offsets

definition zero_params :: io_uring_params where
  "zero_params = \<lparr>sq_entries = 0, cq_entries = 0, p_flags = 0, sq_thread_cpu = 0,
     sq_thread_idle = 0, features = 0,
     sq_off = \<lparr>so_head = 0, so_tail = 0, so_ring_mask = 0, so_ring_entries = 0, so_flags = 0, so_array = 0\<rparr>,
     cq_off = \<lparr>co_head = 0, co_tail = 0, co_ring_mask = 0, co_ring_entries = 0, co_cqes = 0\<rparr>\<rparr>"

record iou_sq_ring =
  sq_head :: rptr
  sq_tail :: rptr
  sq_ring_mask :: rptr
  sq_ring_entries :: rptr
  sq_flags :: rptr
  sq_array :: rptr

record iou_cq_ring =
  cq_head :: rptr
  cq_tail :: rptr
  cq_ring_mask :: rptr
  cq_ring_entries :: rptr
  cq_cqes :: rptr

record iou =
  iou_ring_fd :: int
  iou_ring_size :: "32 word"
  iou_configuration :: io_uring_params
  sq_ring :: iou_sq_ring
  iou_sqes :: rptr
  cq_ring :: iou_cq_ring
  sq_ptr_mapped :: nat
  sq_mapped_size :: "32 word"
  cq_ptr_mapped :: nat
  cq_mapped_size :: "32 word"
  sqe_ptr_mapped :: nat
  sqe_mapped_size :: "32 word"

definition zero_iou :: iou where
  "zero_iou = \<lparr>iou_ring_fd = 0, iou_ring_size = 0, iou_configuration = zero_params,
     sq_ring = \<lparr>sq_head = (0, 0), sq_tail = (0, 0), sq_ring_mask = (0, 0), sq_ring_entries = (0, 0),
       sq_flags = (0, 0), sq_array = (0, 0)\<rparr>,
     iou_sqes = (0, 0),
     cq_ring = \<lparr>cq_head = (0, 0), cq_tail = (0, 0), cq_ring_mask = (0, 0), cq_ring_entries = (0, 0),
       cq_cqes = (0, 0)\<rparr>,
     sq_ptr_mapped = 0, sq_mapped_size = 0, cq_ptr_mapped = 0, cq_mapped_size = 0,
     sqe_ptr_mapped = 0, sqe_mapped_size = 0\<rparr>"

text \<open>Constants of linux/io_uring.h, sys/socket.h and errno.h.\<close>

abbreviation IORING_SETUP_SQPOLL :: "32 word" where "IORING_SETUP_SQPOLL \<equiv> 2"
abbreviation IORING_SETUP_SQ_AFF :: "32 word" where "IORING_SETUP_SQ_AFF \<equiv> 4"
abbreviation IORING_SETUP_COOP_TASKRUN :: "32 word" where "IORING_SETUP_COOP_TASKRUN \<equiv> 256"
abbreviation IORING_SETUP_SINGLE_ISSUER :: "32 word" where "IORING_SETUP_SINGLE_ISSUER \<equiv> 4096"
abbreviation IORING_FEAT_SINGLE_MMAP :: "32 word" where "IORING_FEAT_SINGLE_MMAP \<equiv> 1"
abbreviation IORING_FEAT_SQPOLL_NONFIXED :: "32 word" where "IORING_FEAT_SQPOLL_NONFIXED \<equiv> 128"
abbreviation IORING_SQ_NEED_WAKEUP :: "32 word" where "IORING_SQ_NEED_WAKEUP \<equiv> 1"
abbreviation IORING_ENTER_GETEVENTS :: "32 word" where "IORING_ENTER_GETEVENTS \<equiv> 1"
abbreviation IORING_ENTER_SQ_WAKEUP :: "32 word" where "IORING_ENTER_SQ_WAKEUP \<equiv> 2"
abbreviation SOCK_NONBLOCK :: "32 word" where "SOCK_NONBLOCK \<equiv> 2048"
abbreviation EBUSY :: int where "EBUSY \<equiv> 16"
abbreviation ETIME :: int where "ETIME \<equiv> 62"

definition KERNEL_THREAD_IDLE_SLEEP_TIME_MS :: "32 word" where "KERNEL_THREAD_IDLE_SLEEP_TIME_MS = 3100"
definition KERNEL_THREAD_CPU_BIND :: "32 word" where "KERNEL_THREAD_CPU_BIND = 0"

datatype mmap_offset = IORING_OFF_SQ_RING | IORING_OFF_CQ_RING | IORING_OFF_SQES

subsection \<open>What the program shares with the kernel, and the calls\<close>

record 'w ushared =
  sh_mem :: ring_mem
  sh_ops :: "iou_op heap"
  sh_world :: 'w

text \<open>
  The two system calls yield the return value and \<open>errno\<close>; \<open>e_uring_enter\<close> takes whether a
  signal mask is passed and also yields whether SIGUSR1 was delivered meanwhile;
  \<open>e_mmap\<close> yields a mapping, never 0, or \<open>None\<close> for \<open>MAP_FAILED\<close>; \<open>e_signal\<close> tells
  whether SIGUSR1 was delivered where the program does not block it.
\<close>

record 'w uring_env = "'w env" +
  e_uring_setup :: "32 word \<Rightarrow> io_uring_params \<Rightarrow> 'w ushared \<Rightarrow> (int \<times> int \<times> io_uring_params) \<times> 'w ushared"
  e_uring_enter :: "int \<Rightarrow> 32 word \<Rightarrow> 32 word \<Rightarrow> 32 word \<Rightarrow> bool \<Rightarrow> 'w ushared \<Rightarrow> (int \<times> int \<times> bool) \<times> 'w ushared"
  e_uring_async :: "'w ushared \<Rightarrow> 'w ushared"
  e_mmap :: "nat \<Rightarrow> int \<Rightarrow> mmap_offset \<Rightarrow> 'w ushared \<Rightarrow> nat option \<times> 'w ushared"
  e_munmap :: "nat \<Rightarrow> nat \<Rightarrow> 'w ushared \<Rightarrow> int \<times> 'w ushared"
  e_signal :: "'w \<Rightarrow> bool \<times> 'w"

definition io_uring_setup ::
    "('w, 'x) uring_env_scheme \<Rightarrow> 32 word \<Rightarrow> io_uring_params \<Rightarrow> 'w ushared
     \<Rightarrow> (int \<times> io_uring_params) \<times> 'w ushared" where
  "io_uring_setup env entries p sh = (case e_uring_setup env entries p sh of ((ret, errno, p), sh) \<Rightarrow>
     ((if ret < 0 then - errno else ret, p), sh))"

definition io_uring_enter ::
    "('w, 'x) uring_env_scheme \<Rightarrow> int \<Rightarrow> 32 word \<Rightarrow> 32 word \<Rightarrow> 32 word \<Rightarrow> bool \<Rightarrow> 'w ushared
     \<Rightarrow> (int \<times> bool) \<times> 'w ushared" where
  "io_uring_enter env ring_fd to_submit min_complete flags sig_mask sh =
     (case e_uring_enter env ring_fd to_submit min_complete flags sig_mask sh of ((ret, errno, sig), sh) \<Rightarrow>
     ((if ret < 0 then - errno else ret, sig), sh))"

subsection \<open>Creating and freeing the ring\<close>

definition iou_config_params :: "bool \<Rightarrow> io_uring_params" where
  "iou_config_params use_kernel_pooling =
     (let p = zero_params;
          p = p\<lparr>p_flags := p_flags p OR IORING_SETUP_SINGLE_ISSUER\<rparr>
      in if \<not> use_kernel_pooling
         then p\<lparr>p_flags := p_flags p OR IORING_SETUP_COOP_TASKRUN\<rparr>
         else (let p = p\<lparr>p_flags := p_flags p OR IORING_SETUP_SQPOLL\<rparr>;
                   p = p\<lparr>sq_thread_idle := KERNEL_THREAD_IDLE_SLEEP_TIME_MS\<rparr>;
                   p = p\<lparr>p_flags := p_flags p OR IORING_SETUP_SQ_AFF\<rparr>
               in p\<lparr>sq_thread_cpu := KERNEL_THREAD_CPU_BIND\<rparr>))"

definition iou_check_features :: "io_uring_params \<Rightarrow> bool \<Rightarrow> unit res" where
  "iou_check_features p use_kernel_pooling =
     (if \<not> use_kernel_pooling then Inr ()
      else if features p AND IORING_FEAT_SQPOLL_NONFIXED = 0
      then Inl (ExitFailure ''Necessary feature IORING_FEAT_SQPOLL_NONFIXED not supported'')
      else Inr ())"

definition iou_mmap_rings ::
    "('w, 'x) uring_env_scheme \<Rightarrow> int \<Rightarrow> io_uring_params \<Rightarrow> 32 word \<Rightarrow> 'w ushared \<Rightarrow> (iou \<times> 'w ushared) res" where
  "iou_mmap_rings env ring_fd p ring_size sh =
     (let single = (features p AND IORING_FEAT_SINGLE_MMAP \<noteq> 0);
          sring_size = so_array (sq_off p) + sq_entries p * 4;
          cring_size = co_cqes (cq_off p) + cq_entries p * 16;
          sring_size = (if single \<and> cring_size > sring_size then cring_size else sring_size);
          cring_size = (if single then sring_size else cring_size);
          sqe_size = sq_entries p * 64
      in case e_mmap env (unat sring_size) ring_fd IORING_OFF_SQ_RING sh of (sq_ptr, sh) \<Rightarrow>
      bindE (assert_nnull sq_ptr ''mmap submission queue'') (\<lambda>sq_ptr.
      bindE (if single then Inr (sq_ptr, 0, 0, sh)
             else case e_mmap env (unat cring_size) ring_fd IORING_OFF_CQ_RING sh of (cq_ptr, sh) \<Rightarrow>
               bindE (assert_nnull cq_ptr ''mmap completion queue'') (\<lambda>cq_ptr.
               Inr (cq_ptr, cq_ptr, cring_size, sh))) (\<lambda>(cq_ptr, cq_mapped, cq_size, sh).
      case e_mmap env (unat sqe_size) ring_fd IORING_OFF_SQES sh of (sqes, sh) \<Rightarrow>
      bindE (assert_nnull sqes ''mmap submission queue entries'') (\<lambda>sqes.
      Inr (\<lparr>iou_ring_fd = ring_fd, iou_ring_size = ring_size, iou_configuration = p,
        sq_ring = \<lparr>sq_head = (sq_ptr, unat (so_head (sq_off p))),
          sq_tail = (sq_ptr, unat (so_tail (sq_off p))),
          sq_ring_mask = (sq_ptr, unat (so_ring_mask (sq_off p))),
          sq_ring_entries = (sq_ptr, unat (so_ring_entries (sq_off p))),
          sq_flags = (sq_ptr, unat (so_flags (sq_off p))),
          sq_array = (sq_ptr, unat (so_array (sq_off p)))\<rparr>,
        iou_sqes = (sqes, 0),
        cq_ring = \<lparr>cq_head = (cq_ptr, unat (co_head (cq_off p))),
          cq_tail = (cq_ptr, unat (co_tail (cq_off p))),
          cq_ring_mask = (cq_ptr, unat (co_ring_mask (cq_off p))),
          cq_ring_entries = (cq_ptr, unat (co_ring_entries (cq_off p))),
          cq_cqes = (cq_ptr, unat (co_cqes (cq_off p)))\<rparr>,
        sq_ptr_mapped = sq_ptr, sq_mapped_size = sring_size,
        cq_ptr_mapped = cq_mapped, cq_mapped_size = cq_size,
        sqe_ptr_mapped = sqes, sqe_mapped_size = sqe_size\<rparr>, sh)))))"

definition iou_create ::
    "('w, 'x) uring_env_scheme \<Rightarrow> 32 word \<Rightarrow> bool \<Rightarrow> 'w ushared \<Rightarrow> (iou \<times> 'w ushared) res" where
  "iou_create env ring_size use_kernel_pooling sh =
     (case io_uring_setup env ring_size (iou_config_params use_kernel_pooling) sh of ((ring_fd, p), sh) \<Rightarrow>
      if ring_fd < 0 then Inl (ExitFailure ''io_uring_setup failed'')
      else bindE (iou_check_features p use_kernel_pooling) (\<lambda>_. iou_mmap_rings env ring_fd p ring_size sh))"

definition munmap_asserted ::
    "('w, 'x) uring_env_scheme \<Rightarrow> nat \<Rightarrow> 32 word \<Rightarrow> string \<Rightarrow> 'w ushared \<Rightarrow> 'w ushared res" where
  "munmap_asserted env p len msg sh = (case e_munmap env p (unat len) sh of (rc, sh) \<Rightarrow>
     bindE (assert_zero rc msg) (\<lambda>_. Inr sh))"

definition iou_free :: "('w, 'x) uring_env_scheme \<Rightarrow> iou \<Rightarrow> 'w ushared \<Rightarrow> (iou \<times> 'w ushared) res" where
  "iou_free env r sh =
     bindE (munmap_asserted env (sq_ptr_mapped r) (sq_mapped_size r) ''munmap(sq_ring)'' sh) (\<lambda>sh.
     bindE (if cq_ptr_mapped r \<noteq> 0
            then munmap_asserted env (cq_ptr_mapped r) (cq_mapped_size r) ''munmap(cq_ring)'' sh
            else Inr sh) (\<lambda>sh.
     bindE (munmap_asserted env (sqe_ptr_mapped r) (sqe_mapped_size r) ''munmap(sqe_array)'' sh) (\<lambda>sh.
     case e_close env (iou_ring_fd r) (sh_world sh) of (rc, w) \<Rightarrow>
     bindE (assert_zero rc ''close(ring_fd)'') (\<lambda>_.
     Inr (zero_iou\<lparr>iou_ring_fd := - 1\<rparr>, sh\<lparr>sh_world := w\<rparr>)))))"

subsection \<open>Entering the kernel\<close>

text \<open>The result is whether SIGUSR1 was delivered meanwhile.\<close>

definition iou_enter_or_wake ::
    "('w, 'x) uring_env_scheme \<Rightarrow> iou \<Rightarrow> 32 word \<Rightarrow> 'w ushared \<Rightarrow> (bool \<times> 'w ushared) res" where
  "iou_enter_or_wake env r to_submit sh =
     (if p_flags (iou_configuration r) AND IORING_SETUP_SQPOLL = 0
      then case io_uring_enter env (iou_ring_fd r) to_submit 1 IORING_ENTER_GETEVENTS True sh of ((rc, sig), sh) \<Rightarrow>
        bindE (io_uring_assert (0 \<le> rc \<or> rc = - EINTR) ''io_uring_enter(IORING_ENTER_GETEVENTS)'') (\<lambda>_.
        Inr (sig, sh))
      else (let sh = e_uring_async env sh in
        bindE (load_u32 (sq_flags (sq_ring r)) (sh_mem sh)) (\<lambda>flags.
        if flags AND IORING_SQ_NEED_WAKEUP \<noteq> 0
        then case io_uring_enter env (iou_ring_fd r) 0 0 IORING_ENTER_SQ_WAKEUP False sh of ((rc, sig), sh) \<Rightarrow>
          bindE (io_uring_assert (0 \<le> rc \<or> rc = - EINTR) ''io_uring_enter(IORING_ENTER_SQ_WAKEUP)'') (\<lambda>_.
          Inr (sig, sh))
        else Inr (False, sh))))"

subsection \<open>Submitting a request\<close>

record iou_acquired_sqe_data =
  acq_sqe :: "rptr option"
  acq_tail :: "32 word"
  acq_index :: "32 word"

definition iou_acquire_sqe ::
    "('w, 'x) uring_env_scheme \<Rightarrow> iou \<Rightarrow> 'w ushared \<Rightarrow> (iou_acquired_sqe_data \<times> 'w ushared) res" where
  "iou_acquire_sqe env r sh =
     bindE (load_u32 (sq_tail (sq_ring r)) (sh_mem sh)) (\<lambda>tail.
     let sh = e_uring_async env sh in
     bindE (load_u32 (sq_head (sq_ring r)) (sh_mem sh)) (\<lambda>head.
     if tail - head \<ge> iou_ring_size r
     then Inr (\<lparr>acq_sqe = None, acq_tail = tail, acq_index = 0\<rparr>, sh)
     else bindE (load_u32 (sq_ring_mask (sq_ring r)) (sh_mem sh)) (\<lambda>msk.
       let index = tail AND msk; p = rp_at (iou_sqes r) 64 (unat index) in
       bindE (store_sqe p zero_sqe (sh_mem sh)) (\<lambda>m.
       Inr (\<lparr>acq_sqe = Some p, acq_tail = tail, acq_index = index\<rparr>, sh\<lparr>sh_mem := m\<rparr>)))))"

definition iou_submit_sqe :: "iou \<Rightarrow> iou_acquired_sqe_data \<Rightarrow> ring_mem \<Rightarrow> ring_mem res" where
  "iou_submit_sqe r acq m =
     bindE (store_u32 (rp_at (sq_array (sq_ring r)) 4 (unat (acq_index acq))) (acq_index acq) m) (\<lambda>m.
     store_u32 (sq_tail (sq_ring r)) (acq_tail acq + 1) m)"

text \<open>The first argument is the address of the operation object the second is a member of.\<close>

definition iou_prep_accept_sqe :: "nat \<Rightarrow> iou_socket_accept \<Rightarrow> io_uring_sqe \<Rightarrow> io_uring_sqe" where
  "iou_prep_accept_sqe a i sqe = sqe\<lparr>sqe_opcode := IORING_OP_ACCEPT, sqe_fd := acc_fd i,
     sqe_addr := AddrOfAddr a, sqe_addr2 := AddrOfAddrlen a, sqe_op_flags := SOCK_NONBLOCK\<rparr>"

definition iou_prep_close_sqe :: "nat \<Rightarrow> client_con \<Rightarrow> io_uring_sqe \<Rightarrow> io_uring_sqe" where
  "iou_prep_close_sqe a c sqe = sqe\<lparr>sqe_opcode := IORING_OP_CLOSE, sqe_fd := con_fd c, sqe_file_index := 0\<rparr>"

definition iou_prep_recv_sqe :: "nat \<Rightarrow> client_con \<Rightarrow> io_uring_sqe \<Rightarrow> io_uring_sqe" where
  "iou_prep_recv_sqe a c sqe = sqe\<lparr>sqe_opcode := IORING_OP_RECV, sqe_fd := con_fd c,
     sqe_addr := AddrOfBuf a, sqe_len := word_of_nat (length (con_buf c)), sqe_op_flags := 0\<rparr>"

definition iou_prep_send_sqe :: "nat \<Rightarrow> client_con \<Rightarrow> io_uring_sqe \<Rightarrow> io_uring_sqe" where
  "iou_prep_send_sqe a c sqe = sqe\<lparr>sqe_opcode := IORING_OP_SEND, sqe_fd := con_fd c,
     sqe_addr := AddrOfBuf a, sqe_len := con_buf_send_len c, sqe_op_flags := 0\<rparr>"

definition iou_prep_timer_sqe :: "nat \<Rightarrow> timespec \<Rightarrow> io_uring_sqe \<Rightarrow> io_uring_sqe" where
  "iou_prep_timer_sqe a t sqe = sqe\<lparr>sqe_opcode := IORING_OP_TIMEOUT, sqe_addr := AddrOfTimer a,
     sqe_len := 1, sqe_op_flags := 0, sqe_addr2 := UNull\<rparr>"

text \<open>The switch of \<open>iou_config_and_submit\<close>; the enum has no further values.\<close>

definition iou_prep_sqe :: "nat \<Rightarrow> iou_op \<Rightarrow> io_uring_sqe \<Rightarrow> io_uring_sqe res" where
  "iou_prep_sqe a o' sqe = (case op_type o' of
     ACCEPTED_CONNECTION \<Rightarrow> bindE (info_accept o') (\<lambda>i. Inr (iou_prep_accept_sqe a i sqe))
   | CLOSE_CONNECTION \<Rightarrow> bindE (info_con o') (\<lambda>c. Inr (iou_prep_close_sqe a c sqe))
   | RECV_FROM_CLIENT \<Rightarrow> bindE (info_con o') (\<lambda>c. Inr (iou_prep_recv_sqe a c sqe))
   | SEND_TO_CLIENT \<Rightarrow> bindE (info_con o') (\<lambda>c. Inr (iou_prep_send_sqe a c sqe))
   | TIMER_EXPIRED \<Rightarrow> bindE (info_timer o') (\<lambda>t. Inr (iou_prep_timer_sqe a t sqe)))"

definition iou_config_and_submit ::
    "('w, 'x) uring_env_scheme \<Rightarrow> iou \<Rightarrow> nat \<Rightarrow> 'w ushared \<Rightarrow> (int \<times> 'w ushared) res" where
  "iou_config_and_submit env r op sh =
     bindE (iou_acquire_sqe env r sh) (\<lambda>(acq, sh).
     case acq_sqe acq of
       None \<Rightarrow> Inr (- EBUSY, sh)
     | Some p \<Rightarrow>
         bindE (load_sqe p (sh_mem sh)) (\<lambda>sqe.
         bindE (hget (Some op) (sh_ops sh)) (\<lambda>o'.
         bindE (iou_prep_sqe op o' (sqe\<lparr>sqe_user_data := Some op\<rparr>)) (\<lambda>sqe.
         bindE (store_sqe p sqe (sh_mem sh)) (\<lambda>m.
         bindE (iou_submit_sqe r acq m) (\<lambda>m. Inr (0, sh\<lparr>sh_mem := m\<rparr>)))))))"

subsection \<open>Taking a completion\<close>

definition iou_get_cqe ::
    "('w, 'x) uring_env_scheme \<Rightarrow> iou \<Rightarrow> 'w ushared \<Rightarrow> (io_uring_cqe option \<times> 'w ushared) res" where
  "iou_get_cqe env r sh =
     bindE (load_u32 (cq_head (cq_ring r)) (sh_mem sh)) (\<lambda>head.
     let sh = e_uring_async env sh in
     bindE (load_u32 (cq_tail (cq_ring r)) (sh_mem sh)) (\<lambda>tail.
     if head = tail then Inr (None, sh)
     else bindE (load_u32 (cq_ring_mask (cq_ring r)) (sh_mem sh)) (\<lambda>msk.
       bindE (load_cqe (rp_at (cq_cqes (cq_ring r)) 16 (unat (head AND msk))) (sh_mem sh)) (\<lambda>cqe.
       bindE (store_u32 (cq_head (cq_ring r)) (head + 1) (sh_mem sh)) (\<lambda>m.
       Inr (Some cqe, sh\<lparr>sh_mem := m\<rparr>))))))"

text \<open>The message of \<open>io_uring_debug_print_rings\<close>; each load is atomic.\<close>

definition io_uring_debug_print_rings ::
    "('w, 'x) uring_env_scheme \<Rightarrow> iou \<Rightarrow> 'w ushared \<Rightarrow> (string \<times> 'w ushared) res" where
  "io_uring_debug_print_rings env r sh =
     (let sh = e_uring_async env sh in
      bindE (load_u32 (sq_head (sq_ring r)) (sh_mem sh)) (\<lambda>h1. let sh = e_uring_async env sh in
      bindE (load_u32 (sq_tail (sq_ring r)) (sh_mem sh)) (\<lambda>t1. let sh = e_uring_async env sh in
      bindE (load_u32 (cq_head (cq_ring r)) (sh_mem sh)) (\<lambda>h2. let sh = e_uring_async env sh in
      bindE (load_u32 (cq_tail (cq_ring r)) (sh_mem sh)) (\<lambda>t2.
      Inr (''sq: {tail: '' @ show_nat (unat t1) @ '' | head: '' @ show_nat (unat h1)
        @ '' | entries: '' @ show_nat (unat (sq_entries (iou_configuration r)))
        @ ''}, cq: {tail: '' @ show_nat (unat t2) @ '' | head: '' @ show_nat (unat h2)
        @ '' | entries: '' @ show_nat (unat (cq_entries (iou_configuration r))) @ ''}'', sh))))))"

end
