(* ===== verification/UringRing.thy ===== *)
theory UringRing
  imports IoUring
begin

text \<open>
  The rings of io_uring as queues: what the program and the kernel may rely on in the shared
  memory (\<open>ring_ok\<close>), the requests in the submission ring and the completions in the
  completion ring as lists, and what each side's accesses do to these lists.
\<close>

unbundle bit_operations_syntax

subsection \<open>The rings as lists\<close>

definition sqe_slot :: "iou \<Rightarrow> nat \<Rightarrow> rptr" where
  "sqe_slot r i = rp_at (iou_sqes r) 64 i"

definition cqe_slot :: "iou \<Rightarrow> nat \<Rightarrow> rptr" where
  "cqe_slot r i = rp_at (cq_cqes (cq_ring r)) 16 i"

definition array_slot :: "iou \<Rightarrow> nat \<Rightarrow> rptr" where
  "array_slot r i = rp_at (sq_array (sq_ring r)) 4 i"

definition sq_list :: "iou \<Rightarrow> ring_mem \<Rightarrow> io_uring_sqe list" where
  "sq_list r m = ring_entries (rm_u32 m (sq_ring_mask (sq_ring r)))
     (\<lambda>i. rm_sqe m (sqe_slot r (unat (rm_u32 m (array_slot r i)))))
     (rm_u32 m (sq_head (sq_ring r))) (rm_u32 m (sq_tail (sq_ring r)))"

definition cq_list :: "iou \<Rightarrow> ring_mem \<Rightarrow> io_uring_cqe list" where
  "cq_list r m = ring_entries (rm_u32 m (cq_ring_mask (cq_ring r)))
     (\<lambda>i. rm_cqe m (cqe_slot r i))
     (rm_u32 m (cq_head (cq_ring r))) (rm_u32 m (cq_tail (cq_ring r)))"

text \<open>The single words of the rings.\<close>

definition ring_words :: "iou \<Rightarrow> rptr list" where
  "ring_words r = [sq_head (sq_ring r), sq_tail (sq_ring r), sq_ring_mask (sq_ring r), sq_ring_entries (sq_ring r),
     sq_flags (sq_ring r), cq_head (cq_ring r), cq_tail (cq_ring r), cq_ring_mask (cq_ring r), cq_ring_entries (cq_ring r)]"

definition in_maps :: "(nat \<Rightarrow> nat option) \<Rightarrow> rptr \<Rightarrow> nat \<Rightarrow> bool" where
  "in_maps maps p w \<longleftrightarrow> (\<exists>len. maps (fst p) = Some len \<and> snd p + w \<le> len)"

text \<open>All that lies in the mappings, each with its size in bytes: the words, the array, and the
  \<open>n\<close> slots of the submission and \<open>cn\<close> of the completion ring. No two share a byte.\<close>

definition ring_objects :: "iou \<Rightarrow> nat \<Rightarrow> nat \<Rightarrow> (rptr \<times> nat) list" where
  "ring_objects r n cn = map (\<lambda>q. (q, 4)) (ring_words r) @ map (\<lambda>i. (array_slot r i, 4)) [0..<n]
     @ map (\<lambda>i. (sqe_slot r i, 64)) [0..<n] @ map (\<lambda>i. (cqe_slot r i, 16)) [0..<cn]"

definition apart :: "rptr \<times> nat \<Rightarrow> rptr \<times> nat \<Rightarrow> bool" where
  "apart x y \<longleftrightarrow> fst (fst x) \<noteq> fst (fst y) \<or> snd (fst x) + snd x \<le> snd (fst y) \<or> snd (fst y) + snd y \<le> snd (fst x)"

definition ring_layout :: "iou \<Rightarrow> nat \<Rightarrow> nat \<Rightarrow> (nat \<Rightarrow> nat option) \<Rightarrow> bool" where
  "ring_layout r n cn maps \<longleftrightarrow>
     (\<forall>x \<in> set (ring_objects r n cn). in_maps maps (fst x) (snd x)) \<and> sorted_wrt apart (ring_objects r n cn)"

lemma sorted_wrt_distinct: "sorted_wrt P xs \<Longrightarrow> (\<And>x. \<not> P x x) \<Longrightarrow> distinct xs"
  by (induction xs) auto

lemma ring_layoutD:
  assumes "ring_layout r n cn maps"
  shows "q \<in> set (ring_words r) \<Longrightarrow> in_maps maps q 4" "distinct (ring_words r)"
    "i < n \<Longrightarrow> in_maps maps (array_slot r i) 4" "i < n \<Longrightarrow> array_slot r i \<notin> set (ring_words r)"
    "i < n \<Longrightarrow> in_maps maps (sqe_slot r i) 64" "i < cn \<Longrightarrow> in_maps maps (cqe_slot r i) 16"
proof -
  note L = assms [unfolded ring_layout_def]
  have m: "in_maps maps q w" if "(q, w) \<in> set (ring_objects r n cn)" for q w using L that by fastforce
  show "q \<in> set (ring_words r) \<Longrightarrow> in_maps maps q 4" "i < n \<Longrightarrow> in_maps maps (array_slot r i) 4"
    "i < n \<Longrightarrow> in_maps maps (sqe_slot r i) 64" "i < cn \<Longrightarrow> in_maps maps (cqe_slot r i) 16"
    by (rule m, auto simp: ring_objects_def)+
  have "sorted_wrt (\<lambda>p q. apart (p, 4) (q, 4)) (ring_words r)"
    using L by (simp add: ring_objects_def sorted_wrt_append sorted_wrt_map)
  then show "distinct (ring_words r)" by (rule sorted_wrt_distinct) (simp add: apart_def)
  show "array_slot r i \<notin> set (ring_words r)" if "i < n"
  proof
    assume "array_slot r i \<in> set (ring_words r)"
    then have "apart (array_slot r i, 4) (array_slot r i, 4)"
      using L that by (auto simp: ring_objects_def sorted_wrt_append)
    then show False by (simp add: apart_def)
  qed
qed

definition sq_used :: "iou \<Rightarrow> ring_mem \<Rightarrow> nat" where
  "sq_used r m = unat (rm_u32 m (sq_tail (sq_ring r)) - rm_u32 m (sq_head (sq_ring r)))"

definition cq_used :: "iou \<Rightarrow> ring_mem \<Rightarrow> nat" where
  "cq_used r m = unat (rm_u32 m (cq_tail (cq_ring r)) - rm_u32 m (cq_head (cq_ring r)))"

text \<open>The array names for each submitted counter the slot of the same index.\<close>

definition array_ok :: "iou \<Rightarrow> ring_mem \<Rightarrow> bool" where
  "array_ok r m \<longleftrightarrow> (\<forall>i < sq_used r m.
     unat (rm_u32 m (array_slot r (ring_slot (rm_u32 m (sq_ring_mask (sq_ring r)))
       (rm_u32 m (sq_head (sq_ring r)) + word_of_nat i))))
     = ring_slot (rm_u32 m (sq_ring_mask (sq_ring r))) (rm_u32 m (sq_head (sq_ring r)) + word_of_nat i))"

definition ring_ok :: "iou \<Rightarrow> nat \<Rightarrow> nat \<Rightarrow> ring_mem \<Rightarrow> bool" where
  "ring_ok r n cn m \<longleftrightarrow> ring_layout r n cn (rm_maps m)
     \<and> ring_mask_ok (rm_u32 m (sq_ring_mask (sq_ring r))) n
     \<and> ring_mask_ok (rm_u32 m (cq_ring_mask (cq_ring r))) cn
     \<and> unat (iou_ring_size r) \<le> n \<and> sq_used r m \<le> unat (iou_ring_size r) \<and> cq_used r m \<le> cn
     \<and> array_ok r m"

lemma length_sq_list [simp]: "length (sq_list r m) = sq_used r m"
  by (simp add: sq_list_def sq_used_def)

lemma length_cq_list [simp]: "length (cq_list r m) = cq_used r m"
  by (simp add: cq_list_def cq_used_def)

lemma rm_check_in_maps: "in_maps (rm_maps m) p w \<Longrightarrow> rm_check p w m = Inr ()"
  by (auto simp: in_maps_def rm_check_def)

text \<open>Under \<open>ring_ok\<close> no access of either side is out of bounds.\<close>

lemma ring_okD:
  assumes "ring_ok r n cn m"
  shows "rm_check (sq_head (sq_ring r)) 4 m = Inr ()" "rm_check (sq_tail (sq_ring r)) 4 m = Inr ()"
    "rm_check (sq_ring_mask (sq_ring r)) 4 m = Inr ()" "rm_check (sq_flags (sq_ring r)) 4 m = Inr ()"
    "rm_check (cq_head (cq_ring r)) 4 m = Inr ()" "rm_check (cq_tail (cq_ring r)) 4 m = Inr ()"
    "rm_check (cq_ring_mask (cq_ring r)) 4 m = Inr ()"
    "i < n \<Longrightarrow> rm_check (array_slot r i) 4 m = Inr ()"
    "i < n \<Longrightarrow> rm_check (sqe_slot r i) 64 m = Inr ()"
    "j < cn \<Longrightarrow> rm_check (cqe_slot r j) 16 m = Inr ()"
proof -
  have L: "ring_layout r n cn (rm_maps m)" using assms by (simp add: ring_ok_def)
  have "rm_check q 4 m = Inr ()" if "q \<in> set (ring_words r)" for q
    by (rule rm_check_in_maps [OF ring_layoutD(1) [OF L that]])
  then show "rm_check (sq_head (sq_ring r)) 4 m = Inr ()" "rm_check (sq_tail (sq_ring r)) 4 m = Inr ()"
    "rm_check (sq_ring_mask (sq_ring r)) 4 m = Inr ()" "rm_check (sq_flags (sq_ring r)) 4 m = Inr ()"
    "rm_check (cq_head (cq_ring r)) 4 m = Inr ()" "rm_check (cq_tail (cq_ring r)) 4 m = Inr ()"
    "rm_check (cq_ring_mask (cq_ring r)) 4 m = Inr ()"
    by (simp_all add: ring_words_def)
  show "i < n \<Longrightarrow> rm_check (array_slot r i) 4 m = Inr ()" "i < n \<Longrightarrow> rm_check (sqe_slot r i) 64 m = Inr ()"
    "j < cn \<Longrightarrow> rm_check (cqe_slot r j) 16 m = Inr ()"
    by (rule rm_check_in_maps, rule ring_layoutD [OF L], assumption)+
qed

lemma slot_inj:
  "array_slot r i = array_slot r j \<longleftrightarrow> i = j" "sqe_slot r i = sqe_slot r j \<longleftrightarrow> i = j"
  "cqe_slot r i = cqe_slot r j \<longleftrightarrow> i = j"
  by (auto simp: array_slot_def sqe_slot_def cqe_slot_def rp_at_def)

text \<open>In a well-formed ring the i-th pending request is in the slot of its counter.\<close>

lemma sq_list_direct:
  assumes "array_ok r m"
  shows "sq_list r m = ring_entries (rm_u32 m (sq_ring_mask (sq_ring r))) (\<lambda>i. rm_sqe m (sqe_slot r i))
     (rm_u32 m (sq_head (sq_ring r))) (rm_u32 m (sq_tail (sq_ring r)))"
  using assms by (auto simp: sq_list_def ring_entries_def array_ok_def sq_used_def)

subsection \<open>The kernel's accesses\<close>

definition k_take :: "iou \<Rightarrow> ring_mem \<Rightarrow> ring_mem" where
  "k_take r m = m\<lparr>rm_u32 := (rm_u32 m)(sq_head (sq_ring r) := rm_u32 m (sq_head (sq_ring r)) + 1)\<rparr>"

definition k_post :: "iou \<Rightarrow> io_uring_cqe \<Rightarrow> ring_mem \<Rightarrow> ring_mem" where
  "k_post r c m = m\<lparr>
     rm_cqe := (rm_cqe m)(cqe_slot r (ring_slot (rm_u32 m (cq_ring_mask (cq_ring r))) (rm_u32 m (cq_tail (cq_ring r)))) := c),
     rm_u32 := (rm_u32 m)(cq_tail (cq_ring r) := rm_u32 m (cq_tail (cq_ring r)) + 1)\<rparr>"

definition k_flags :: "iou \<Rightarrow> 32 word \<Rightarrow> ring_mem \<Rightarrow> ring_mem" where
  "k_flags r x m = m\<lparr>rm_u32 := (rm_u32 m)(sq_flags (sq_ring r) := x)\<rparr>"

lemma unat_diff_Suc:
  assumes "(h :: 32 word) \<noteq> t"
  shows "unat (t - h) = Suc (unat (t - (h + 1)))"
proof -
  have nz: "t - h \<noteq> 0" using assms by simp
  have e: "t - (h + 1) = t - h - 1" by simp
  have "0 < unat (t - h)" using nz by (simp add: unat_gt_0)
  then show ?thesis unfolding e by (simp add: unat_minus_one [OF nz])
qed

lemma unat_diff_push:
  assumes "unat (t - h :: 32 word) < n" "n < 2 ^ 32"
  shows "unat (t + 1 - h) = Suc (unat (t - h))"
proof -
  have "t + 1 - h = 1 + (t - h)" by simp
  also have "unat (1 + (t - h)) = Suc (unat (t - h))"
    using assms by (intro unatSuc) (auto simp: word_unat_eq_iff unat_word_ariths)
  finally show ?thesis .
qed

text \<open>Words of the ring other than the one written keep their value.\<close>

lemma ring_words_neq:
  assumes "ring_ok r n cn m"
  shows "distinct [sq_head (sq_ring r), sq_tail (sq_ring r), sq_ring_mask (sq_ring r),
     sq_flags (sq_ring r), cq_head (cq_ring r), cq_tail (cq_ring r), cq_ring_mask (cq_ring r)]"
    "i < n \<Longrightarrow> array_slot r i \<notin> {sq_head (sq_ring r), sq_tail (sq_ring r), sq_ring_mask (sq_ring r),
     sq_flags (sq_ring r), cq_head (cq_ring r), cq_tail (cq_ring r), cq_ring_mask (cq_ring r)}"
  by (use ring_layoutD(2) [of r n cn "rm_maps m"] assms in \<open>simp add: ring_ok_def ring_words_def\<close>)
    (use ring_layoutD(4) [of r n cn "rm_maps m" i] assms in \<open>simp add: ring_ok_def ring_words_def\<close>)

lemma ring_mask_okD:
  assumes "ring_ok r n cn m"
  shows "ring_mask_ok (rm_u32 m (sq_ring_mask (sq_ring r))) n"
    "ring_mask_ok (rm_u32 m (cq_ring_mask (cq_ring r))) cn"
  using assms by (auto simp: ring_ok_def)

lemma ring_sizes:
  assumes "ring_ok r n cn m"
  shows "n < 2 ^ 32" "cn < 2 ^ 32" "sq_used r m \<le> n" "cq_used r m \<le> cn" "array_ok r m"
    "unat (iou_ring_size r) \<le> n" "sq_used r m \<le> unat (iou_ring_size r)"
  using assms ring_mask_dvd ring_mask_okD [OF assms] by (auto simp: ring_ok_def)

text \<open>A change of words outside the submission ring, and outside the completion ring.\<close>

lemma sq_frame:
  assumes ok: "ring_ok r n cn m" and s: "rm_sqe m' = rm_sqe m"
    and w: "\<And>p. p \<in> {sq_head (sq_ring r), sq_tail (sq_ring r), sq_ring_mask (sq_ring r)} \<Longrightarrow> rm_u32 m' p = rm_u32 m p"
    and a: "\<And>i. i < n \<Longrightarrow> rm_u32 m' (array_slot r i) = rm_u32 m (array_slot r i)"
  shows "sq_list r m' = sq_list r m" "sq_used r m' = sq_used r m" "array_ok r m'"
proof -
  note M = ring_mask_okD(1) [OF ok]
  have w': "rm_u32 m' (sq_head (sq_ring r)) = rm_u32 m (sq_head (sq_ring r))"
    "rm_u32 m' (sq_tail (sq_ring r)) = rm_u32 m (sq_tail (sq_ring r))"
    "rm_u32 m' (sq_ring_mask (sq_ring r)) = rm_u32 m (sq_ring_mask (sq_ring r))" using w by auto
  show "sq_list r m' = sq_list r m"
    unfolding sq_list_def w' s by (rule ring_entries_cong [OF M]) (simp add: a)
  show u: "sq_used r m' = sq_used r m" by (simp add: sq_used_def w')
  show "array_ok r m'"
    using ring_sizes(5) [OF ok] unfolding array_ok_def u w' by (simp add: a [OF ring_slot_less [OF M]])
qed

lemma cq_frame:
  assumes s: "rm_cqe m' = rm_cqe m"
    and w: "\<And>p. p \<in> {cq_head (cq_ring r), cq_tail (cq_ring r), cq_ring_mask (cq_ring r)} \<Longrightarrow> rm_u32 m' p = rm_u32 m p"
  shows "cq_list r m' = cq_list r m" "cq_used r m' = cq_used r m"
  using w by (simp_all add: cq_list_def cq_used_def s)

lemma sq_nonempty: "sq_list r m \<noteq> [] \<longleftrightarrow> rm_u32 m (sq_head (sq_ring r)) \<noteq> rm_u32 m (sq_tail (sq_ring r))"
  by (simp add: sq_list_def ring_entries_empty)

lemma cq_nonempty: "cq_list r m \<noteq> [] \<longleftrightarrow> rm_u32 m (cq_head (cq_ring r)) \<noteq> rm_u32 m (cq_tail (cq_ring r))"
  by (simp add: cq_list_def ring_entries_empty)

lemma k_flags_ok:
  assumes ok: "ring_ok r n cn m"
  shows "ring_ok r n cn (k_flags r x m)" "sq_list r (k_flags r x m) = sq_list r m"
    "cq_list r (k_flags r x m) = cq_list r m"
proof -
  note N = ring_words_neq [OF ok]
  have f: "sq_list r (k_flags r x m) = sq_list r m" "sq_used r (k_flags r x m) = sq_used r m"
    "array_ok r (k_flags r x m)"
    using N by (auto intro!: sq_frame [OF ok] simp: k_flags_def)
  have g: "cq_list r (k_flags r x m) = cq_list r m" "cq_used r (k_flags r x m) = cq_used r m"
    using N(1) by (auto intro!: cq_frame simp: k_flags_def)
  show "sq_list r (k_flags r x m) = sq_list r m" "cq_list r (k_flags r x m) = cq_list r m"
    by (fact f g)+
  show "ring_ok r n cn (k_flags r x m)"
    using ok f g N(1) by (auto simp: ring_ok_def k_flags_def)
qed

lemma k_take_ok:
  assumes ok: "ring_ok r n cn m" and ne: "sq_list r m \<noteq> []"
  shows "ring_ok r n cn (k_take r m)" "sq_list r (k_take r m) = tl (sq_list r m)"
    "cq_list r (k_take r m) = cq_list r m"
proof -
  note N = ring_words_neq [OF ok] and M = ring_mask_okD(1) [OF ok]
  let ?h = "rm_u32 m (sq_head (sq_ring r))" and ?t = "rm_u32 m (sq_tail (sq_ring r))"
  have ht: "?h \<noteq> ?t" using ne by (simp add: sq_nonempty)
  have w: "rm_u32 (k_take r m) (sq_head (sq_ring r)) = ?h + 1" "rm_u32 (k_take r m) (sq_tail (sq_ring r)) = ?t"
    "rm_u32 (k_take r m) (sq_ring_mask (sq_ring r)) = rm_u32 m (sq_ring_mask (sq_ring r))"
    using N(1) by (auto simp: k_take_def)
  have a: "i < n \<Longrightarrow> rm_u32 (k_take r m) (array_slot r i) = rm_u32 m (array_slot r i)" for i
    using N(2) by (auto simp: k_take_def)
  have s: "rm_sqe (k_take r m) = rm_sqe m" by (simp add: k_take_def)
  have l: "sq_list r (k_take r m) = ring_entries (rm_u32 m (sq_ring_mask (sq_ring r)))
      (\<lambda>i. rm_sqe m (sqe_slot r (unat (rm_u32 m (array_slot r i))))) (?h + 1) ?t"
    unfolding sq_list_def w s by (rule ring_entries_cong [OF M]) (simp add: a)
  show "sq_list r (k_take r m) = tl (sq_list r m)"
    unfolding l by (simp add: sq_list_def ring_entries_pop [OF ht])
  have g: "cq_list r (k_take r m) = cq_list r m" "cq_used r (k_take r m) = cq_used r m"
    using N(1) by (auto intro!: cq_frame simp: k_take_def)
  show "cq_list r (k_take r m) = cq_list r m" by (fact g)
  have u: "sq_used r m = Suc (sq_used r (k_take r m))"
    unfolding sq_used_def w by (rule unat_diff_Suc [OF ht])
  have "array_ok r (k_take r m)"
    unfolding array_ok_def w
  proof (intro allI impI)
    fix i assume i: "i < sq_used r (k_take r m)"
    have e: "?h + 1 + word_of_nat i = ?h + word_of_nat (Suc i)" by simp
    show "unat (rm_u32 (k_take r m) (array_slot r (ring_slot (rm_u32 m (sq_ring_mask (sq_ring r))) (?h + 1 + word_of_nat i))))
        = ring_slot (rm_u32 m (sq_ring_mask (sq_ring r))) (?h + 1 + word_of_nat i)"
      unfolding a [OF ring_slot_less [OF M]] e
      using i u by (intro ring_sizes(5) [OF ok, unfolded array_ok_def, rule_format]) simp
  qed
  then show "ring_ok r n cn (k_take r m)"
    using ok u g N(1) by (auto simp: ring_ok_def k_take_def)
qed

lemma k_post_ok:
  assumes ok: "ring_ok r n cn m" and room: "length (cq_list r m) < cn"
  shows "ring_ok r n cn (k_post r c m)" "sq_list r (k_post r c m) = sq_list r m"
    "cq_list r (k_post r c m) = cq_list r m @ [c]"
proof -
  note N = ring_words_neq [OF ok] and M = ring_mask_okD(2) [OF ok]
  let ?h = "rm_u32 m (cq_head (cq_ring r))" and ?t = "rm_u32 m (cq_tail (cq_ring r))"
  have w: "rm_u32 (k_post r c m) (cq_head (cq_ring r)) = ?h" "rm_u32 (k_post r c m) (cq_tail (cq_ring r)) = ?t + 1"
    "rm_u32 (k_post r c m) (cq_ring_mask (cq_ring r)) = rm_u32 m (cq_ring_mask (cq_ring r))"
    using N(1) by (auto simp: k_post_def)
  have f: "sq_list r (k_post r c m) = sq_list r m" "sq_used r (k_post r c m) = sq_used r m"
    "array_ok r (k_post r c m)"
    using N by (auto intro!: sq_frame [OF ok] simp: k_post_def)
  show "sq_list r (k_post r c m) = sq_list r m" by (fact f)
  have rm: "unat (?t - ?h) < cn" using room by (simp add: cq_used_def)
  show "cq_list r (k_post r c m) = cq_list r m @ [c]"
    unfolding cq_list_def w using M rm
    by (rule ring_entries_push) (auto simp: k_post_def slot_inj)
  have "cq_used r (k_post r c m) = Suc (cq_used r m)"
    unfolding cq_used_def w by (rule unat_diff_push [OF rm ring_sizes(2) [OF ok]])
  then show "ring_ok r n cn (k_post r c m)"
    using ok f w N(1) room by (auto simp: ring_ok_def k_post_def)
qed

lemma kernel_words:
  assumes "ring_ok r n cn m"
    and "p \<in> {sq_tail (sq_ring r), sq_ring_mask (sq_ring r), cq_head (cq_ring r), cq_ring_mask (cq_ring r)}"
  shows "rm_u32 (k_take r m) p = rm_u32 m p" "rm_u32 (k_post r c m) p = rm_u32 m p"
    "rm_u32 (k_flags r x m) p = rm_u32 m p"
  using ring_words_neq(1) [OF assms(1)] assms(2) by (auto simp: k_take_def k_post_def k_flags_def)

lemma kernel_maps [simp]: "rm_maps (k_take r m) = rm_maps m" "rm_maps (k_post r c m) = rm_maps m"
    "rm_maps (k_flags r x m) = rm_maps m"
  by (simp_all add: k_take_def k_post_def k_flags_def)

subsection \<open>The program's accesses\<close>

text \<open>What \<open>iou_prep_sqe\<close> makes of a cleared entry, for an operation whose tag fits.\<close>

definition tag_fits :: "iou_op \<Rightarrow> bool" where
  "tag_fits o' = (case op_info o' of
     InfoAccept _ \<Rightarrow> op_type o' = ACCEPTED_CONNECTION
   | InfoTimer _ \<Rightarrow> op_type o' = TIMER_EXPIRED
   | InfoCon _ \<Rightarrow> op_type o' \<in> {CLOSE_CONNECTION, RECV_FROM_CLIENT, SEND_TO_CLIENT})"

definition request :: "nat \<Rightarrow> iou_op \<Rightarrow> io_uring_sqe" where
  "request a o' = (case iou_prep_sqe a o' (zero_sqe\<lparr>sqe_user_data := Some a\<rparr>) of
     Inl _ \<Rightarrow> zero_sqe | Inr sqe \<Rightarrow> sqe)"

lemma prep_fits: "tag_fits o' \<Longrightarrow> iou_prep_sqe a o' (zero_sqe\<lparr>sqe_user_data := Some a\<rparr>) = Inr (request a o')"
  by (cases "op_type o'"; cases "op_info o'")
    (auto simp: tag_fits_def request_def iou_prep_sqe_def info_accept_def info_con_def info_timer_def)

lemma prep_misfits: "iou_prep_sqe a o' sqe = Inl (UB WrongMember) \<longleftrightarrow> \<not> tag_fits o'"
  by (cases "op_type o'"; cases "op_info o'")
    (auto simp: tag_fits_def iou_prep_sqe_def info_accept_def info_con_def info_timer_def)

lemma request_user_data [simp]: "tag_fits o' \<Longrightarrow> sqe_user_data (request a o') = Some a"
  by (cases "op_type o'"; cases "op_info o'")
    (auto simp: tag_fits_def request_def iou_prep_sqe_def info_accept_def info_con_def info_timer_def
      iou_prep_accept_sqe_def iou_prep_close_sqe_def iou_prep_recv_sqe_def iou_prep_send_sqe_def
      iou_prep_timer_sqe_def)

text \<open>The store of an entry in the slot of the tail, its index in the array, the new tail.\<close>

definition p_push :: "iou \<Rightarrow> io_uring_sqe \<Rightarrow> ring_mem \<Rightarrow> ring_mem" where
  "p_push r e m =
     (let t = rm_u32 m (sq_tail (sq_ring r)); i = t AND rm_u32 m (sq_ring_mask (sq_ring r))
      in m\<lparr>rm_sqe := (rm_sqe m)(sqe_slot r (unat i) := e),
           rm_u32 := (rm_u32 m)(array_slot r (unat i) := i, sq_tail (sq_ring r) := t + 1)\<rparr>)"

definition p_pop :: "iou \<Rightarrow> ring_mem \<Rightarrow> ring_mem" where
  "p_pop r m = m\<lparr>rm_u32 := (rm_u32 m)(cq_head (cq_ring r) := rm_u32 m (cq_head (cq_ring r)) + 1)\<rparr>"

lemma p_push_ok:
  assumes ok: "ring_ok r n cn m" and room: "length (sq_list r m) < unat (iou_ring_size r)"
  shows "ring_ok r n cn (p_push r e m)" "sq_list r (p_push r e m) = sq_list r m @ [e]"
    "cq_list r (p_push r e m) = cq_list r m"
proof -
  note N = ring_words_neq [OF ok] and M = ring_mask_okD(1) [OF ok]
  let ?h = "rm_u32 m (sq_head (sq_ring r))" and ?t = "rm_u32 m (sq_tail (sq_ring r))"
  let ?k = "rm_u32 m (sq_ring_mask (sq_ring r))"
  have sl: "unat (?t AND ?k) = ring_slot ?k ?t" by (simp add: ring_slot_def)
  have lt: "ring_slot ?k ?t < n" by (rule ring_slot_less [OF M])
  have w: "rm_u32 (p_push r e m) (sq_head (sq_ring r)) = ?h" "rm_u32 (p_push r e m) (sq_tail (sq_ring r)) = ?t + 1"
    "rm_u32 (p_push r e m) (sq_ring_mask (sq_ring r)) = ?k"
    using N(1) N(2) [OF lt] by (auto simp: p_push_def Let_def sl)
  have a: "rm_u32 (p_push r e m) (array_slot r i) = (if i = ring_slot ?k ?t then ?t AND ?k else rm_u32 m (array_slot r i))"
    if "i < n" for i
    using N(2) [OF that] by (auto simp: p_push_def Let_def sl slot_inj)
  have s: "rm_sqe (p_push r e m) (sqe_slot r i) = (if i = ring_slot ?k ?t then e else rm_sqe m (sqe_slot r i))" for i
    by (auto simp: p_push_def Let_def sl slot_inj)
  have g: "cq_list r (p_push r e m) = cq_list r m" "cq_used r (p_push r e m) = cq_used r m"
    using N(1) N(2) [OF lt] by (auto intro!: cq_frame simp: p_push_def Let_def sl)
  show "cq_list r (p_push r e m) = cq_list r m" by (fact g)
  have rm: "unat (?t - ?h) < n" using room ring_sizes(6) [OF ok] by (simp add: sq_used_def)
  have u: "sq_used r (p_push r e m) = Suc (sq_used r m)"
    unfolding sq_used_def w by (rule unat_diff_push [OF rm ring_sizes(1) [OF ok]])
  have ao: "array_ok r (p_push r e m)"
    unfolding array_ok_def w
  proof (intro allI impI)
    fix i assume i: "i < sq_used r (p_push r e m)"
    show "unat (rm_u32 (p_push r e m) (array_slot r (ring_slot ?k (?h + word_of_nat i)))) = ring_slot ?k (?h + word_of_nat i)"
    proof (cases "ring_slot ?k (?h + word_of_nat i) = ring_slot ?k ?t")
      case True
      then show ?thesis using a [OF ring_slot_less [OF M]] by (simp add: sl)
    next
      case False
      have "i \<noteq> unat (?t - ?h)" using False by auto
      then have "i < sq_used r m" using i u by (simp add: sq_used_def)
      then show ?thesis
        using a [OF ring_slot_less [OF M]] False ring_sizes(5) [OF ok, unfolded array_ok_def] by simp
    qed
  qed
  show "sq_list r (p_push r e m) = sq_list r m @ [e]"
    unfolding sq_list_direct [OF ao] sq_list_direct [OF ring_sizes(5) [OF ok]] w
    using M rm by (rule ring_entries_push) (auto simp: s)
  have mp: "rm_maps (p_push r e m) = rm_maps m" by (simp add: p_push_def Let_def)
  have cm: "rm_u32 (p_push r e m) (cq_ring_mask (cq_ring r)) = rm_u32 m (cq_ring_mask (cq_ring r))"
    using N(1) N(2) [OF lt] by (auto simp: p_push_def Let_def sl)
  show "ring_ok r n cn (p_push r e m)"
    using ok u g ao room by (simp add: ring_ok_def w cm mp)
qed

lemma p_pop_ok:
  assumes ok: "ring_ok r n cn m" and ne: "cq_list r m \<noteq> []"
  shows "ring_ok r n cn (p_pop r m)" "sq_list r (p_pop r m) = sq_list r m"
    "cq_list r (p_pop r m) = tl (cq_list r m)"
proof -
  note N = ring_words_neq [OF ok]
  let ?h = "rm_u32 m (cq_head (cq_ring r))" and ?t = "rm_u32 m (cq_tail (cq_ring r))"
  have ht: "?h \<noteq> ?t" using ne by (simp add: cq_nonempty)
  have w: "rm_u32 (p_pop r m) (cq_head (cq_ring r)) = ?h + 1" "rm_u32 (p_pop r m) (cq_tail (cq_ring r)) = ?t"
    "rm_u32 (p_pop r m) (cq_ring_mask (cq_ring r)) = rm_u32 m (cq_ring_mask (cq_ring r))"
    using N(1) by (auto simp: p_pop_def)
  have f: "sq_list r (p_pop r m) = sq_list r m" "sq_used r (p_pop r m) = sq_used r m" "array_ok r (p_pop r m)"
    using N by (auto intro!: sq_frame [OF ok] simp: p_pop_def)
  show "sq_list r (p_pop r m) = sq_list r m" by (fact f)
  show "cq_list r (p_pop r m) = tl (cq_list r m)"
    unfolding cq_list_def w by (simp add: ring_entries_pop [OF ht] p_pop_def)
  have "cq_used r m = Suc (cq_used r (p_pop r m))"
    unfolding cq_used_def w by (rule unat_diff_Suc [OF ht])
  then show "ring_ok r n cn (p_pop r m)"
    using ok f w N(1) by (auto simp: ring_ok_def p_pop_def)
qed

lemma cq_hd:
  assumes "cq_list r m \<noteq> []"
  shows "hd (cq_list r m) = rm_cqe m (cqe_slot r (unat (rm_u32 m (cq_head (cq_ring r)) AND rm_u32 m (cq_ring_mask (cq_ring r)))))"
  using assms by (simp add: cq_nonempty) (simp add: cq_list_def ring_entries_pop ring_slot_def)

end
