(* ===== verification/UringKernel.thy ===== *)
theory UringKernel
  imports UringRing ServerUtils
begin

text \<open>
  What the io_uring server relies on from the kernel, as a step relation on the shared state:
  the kernel takes requests from the head of the submission ring, completes requests it holds,
  in any order, by posting a completion, and raises or clears the wake-up flag. The program's
  ring functions are related to the lists of the rings under any such activity.
\<close>

unbundle bit_operations_syntax

subsection \<open>The kernel's steps\<close>

text \<open>
  A view of the world: descriptors and transferred bytes, the requests the kernel holds, and
  as ghost histories all requests it has taken and all completions it has posted.
\<close>

record 'w uview =
  uv_view :: "'w kview"
  uv_flight :: "'w \<Rightarrow> io_uring_sqe list"
  uv_taken :: "'w \<Rightarrow> io_uring_sqe list"
  uv_posted :: "'w \<Rightarrow> io_uring_cqe list"

definition same_uview :: "'w uview \<Rightarrow> 'w \<Rightarrow> 'w \<Rightarrow> bool" where
  "same_uview u w w' \<longleftrightarrow> same_view (uv_view u) w w' \<and> uv_flight u w' = uv_flight u w
     \<and> uv_taken u w' = uv_taken u w \<and> uv_posted u w' = uv_posted u w"

definition k_write_buf :: "nat \<Rightarrow> byte list \<Rightarrow> iou_op heap \<Rightarrow> iou_op heap" where
  "k_write_buf a bs ops = (case cells ops a of None \<Rightarrow> ops | Some o' \<Rightarrow> (case op_info o' of
     InfoCon c \<Rightarrow> ops\<lparr>cells := (cells ops)(a := Some (o'\<lparr>op_info :=
       InfoCon (c\<lparr>con_buf := bs @ drop (length bs) (con_buf c)\<rparr>)\<rparr>))\<rparr>
   | _ \<Rightarrow> ops))"

definition k_write_addr :: "nat \<Rightarrow> byte list \<Rightarrow> 32 word \<Rightarrow> iou_op heap \<Rightarrow> iou_op heap" where
  "k_write_addr a bs l ops = (case cells ops a of None \<Rightarrow> ops | Some o' \<Rightarrow> (case op_info o' of
     InfoAccept i \<Rightarrow> ops\<lparr>cells := (cells ops)(a := Some (o'\<lparr>op_info :=
       InfoAccept (i\<lparr>acc_addr := bs, acc_addrlen := l\<rparr>)\<rparr>))\<rparr>
   | _ \<Rightarrow> ops))"

text \<open>The effect of completing the request \<open>e\<close> with the result \<open>rc\<close>.\<close>

definition k_effect ::
    "'w kview \<Rightarrow> io_uring_sqe \<Rightarrow> int \<Rightarrow> iou_op heap \<times> 'w \<Rightarrow> iou_op heap \<times> 'w \<Rightarrow> bool" where
  "k_effect v e rc = (\<lambda>(ops, w) (ops', w'). case sqe_opcode e of
     IORING_OP_ACCEPT \<Rightarrow>
       if rc < 0 then ops' = ops \<and> same_view v w w'
       else opened v w rc w' \<and> (ops' = ops \<or> (\<exists>a bs l. sqe_addr e = AddrOfAddr a \<and> ops' = k_write_addr a bs l ops))
   | IORING_OP_CLOSE \<Rightarrow>
       ops' = ops \<and> kv_in v w' = kv_in v w \<and> kv_out v w' = kv_out v w
       \<and> (rc = 0 \<longrightarrow> sqe_fd e \<in> kv_open v w)
       \<and> kv_open v w' = (if rc = 0 then kv_open v w - {sqe_fd e} else kv_open v w)
   | IORING_OP_RECV \<Rightarrow>
       if rc \<le> 0 then ops' = ops \<and> same_view v w w'
       else nat rc \<le> unat (sqe_len e) \<and> kv_open v w' = kv_open v w \<and> kv_out v w' = kv_out v w
         \<and> (\<exists>bs. length bs = nat rc \<and> kv_in v w' = (kv_in v w)(sqe_fd e := kv_in v w (sqe_fd e) @ bs)
           \<and> (case sqe_addr e of AddrOfBuf a \<Rightarrow> ops' = k_write_buf a bs ops | _ \<Rightarrow> ops' = ops))
   | IORING_OP_SEND \<Rightarrow>
       if rc \<le> 0 then ops' = ops \<and> same_view v w w'
       else nat rc \<le> unat (sqe_len e) \<and> ops' = ops \<and> kv_open v w' = kv_open v w \<and> kv_in v w' = kv_in v w
         \<and> (\<exists>bs. length bs = nat rc \<and> kv_out v w' = (kv_out v w)(sqe_fd e := kv_out v w (sqe_fd e) @ bs)
           \<and> (\<forall>a o' c. sqe_addr e = AddrOfBuf a \<longrightarrow> cells ops a = Some o' \<longrightarrow> op_info o' = InfoCon c
                \<longrightarrow> nat rc \<le> length (con_buf c) \<longrightarrow> bs = take (nat rc) (con_buf c)))
   | _ \<Rightarrow> ops' = ops \<and> same_view v w w')"

text \<open>The kernel posts a completion only while the completion ring has room (\<open>cn\<close> entries).\<close>

inductive kstep :: "'w uview \<Rightarrow> iou \<Rightarrow> nat \<Rightarrow> 'w ushared \<Rightarrow> 'w ushared \<Rightarrow> bool"
  for u :: "'w uview" and r :: iou and cn :: nat where
  k_step_take: "sq_list r (sh_mem sh) = e # q \<Longrightarrow> same_view (uv_view u) (sh_world sh) w \<Longrightarrow>
     uv_flight u w = uv_flight u (sh_world sh) @ [e] \<Longrightarrow> uv_taken u w = uv_taken u (sh_world sh) @ [e] \<Longrightarrow>
     uv_posted u w = uv_posted u (sh_world sh) \<Longrightarrow>
     kstep u r cn sh (sh\<lparr>sh_mem := k_take r (sh_mem sh), sh_world := w\<rparr>)"
| k_step_complete: "uv_flight u (sh_world sh) = xs @ e # ys \<Longrightarrow> length (cq_list r (sh_mem sh)) < cn \<Longrightarrow>
     cqe_user_data c = sqe_user_data e \<Longrightarrow>
     k_effect (uv_view u) e (cqe_res c) (sh_ops sh, sh_world sh) (ops, w) \<Longrightarrow>
     uv_flight u w = xs @ ys \<Longrightarrow> uv_taken u w = uv_taken u (sh_world sh) \<Longrightarrow>
     uv_posted u w = uv_posted u (sh_world sh) @ [c] \<Longrightarrow>
     kstep u r cn sh (sh\<lparr>sh_mem := k_post r c (sh_mem sh), sh_ops := ops, sh_world := w\<rparr>)"
| k_step_flags: "same_uview u (sh_world sh) w \<Longrightarrow>
     kstep u r cn sh (sh\<lparr>sh_mem := k_flags r x (sh_mem sh), sh_world := w\<rparr>)"
| k_step_world: "same_uview u (sh_world sh) w \<Longrightarrow> kstep u r cn sh (sh\<lparr>sh_world := w\<rparr>)"

abbreviation ksteps :: "'w uview \<Rightarrow> iou \<Rightarrow> nat \<Rightarrow> 'w ushared \<Rightarrow> 'w ushared \<Rightarrow> bool" where
  "ksteps u r cn \<equiv> (kstep u r cn)\<^sup>*\<^sup>*"

text \<open>The contract of the environment for a ring in use.\<close>

definition uring_spec :: "('w, 'x) uring_env_scheme \<Rightarrow> 'w uview \<Rightarrow> iou \<Rightarrow> nat \<Rightarrow> bool" where
  "uring_spec env u r cn \<longleftrightarrow>
     (\<forall>sh. ksteps u r cn sh (e_uring_async env sh))
     \<and> (\<forall>fd n k f s sh. ksteps u r cn sh (snd (e_uring_enter env fd n k f s sh)))
     \<and> (\<forall>n w. same_uview u w (snd (e_malloc env n w)))
     \<and> (\<forall>w. same_uview u w (snd (e_clock env w)) \<and> clock_ts (fst (e_clock env w)))
     \<and> (\<forall>w. same_uview u w (snd (e_signal env w)))"

lemma uring_specD:
  assumes "uring_spec env u r cn"
  shows "ksteps u r cn sh (e_uring_async env sh)"
    "e_uring_enter env fd n k f s sh = (x, sh') \<Longrightarrow> ksteps u r cn sh sh'"
    "e_malloc env sz w = (mem, w') \<Longrightarrow> same_uview u w w'"
    "e_clock env w = (t, w') \<Longrightarrow> same_uview u w w' \<and> clock_ts t"
    "e_signal env w = (sig, w') \<Longrightarrow> same_uview u w w'"
  using assms unfolding uring_spec_def by (metis fst_conv snd_conv)+

lemma same_uview_refl [simp]: "same_uview u w w"
  by (simp add: same_uview_def)

lemma same_uview_trans: "same_uview u a b \<Longrightarrow> same_uview u b c \<Longrightarrow> same_uview u a c"
  by (auto simp: same_uview_def intro: same_view_trans)

subsection \<open>The rings under kernel activity\<close>

text \<open>
  What any kernel activity leaves of the rings: the words the program writes are untouched,
  requests leave the submission ring at its head in the order they were put in, and the
  completion ring grows by what was posted.
\<close>

definition kernel_progress :: "'w uview \<Rightarrow> iou \<Rightarrow> nat \<Rightarrow> nat \<Rightarrow> 'w ushared \<Rightarrow> 'w ushared \<Rightarrow> bool" where
  "kernel_progress u r n cn sh sh' \<longleftrightarrow> ring_ok r n cn (sh_mem sh')
     \<and> rm_u32 (sh_mem sh') (sq_tail (sq_ring r)) = rm_u32 (sh_mem sh) (sq_tail (sq_ring r))
     \<and> rm_u32 (sh_mem sh') (sq_ring_mask (sq_ring r)) = rm_u32 (sh_mem sh) (sq_ring_mask (sq_ring r))
     \<and> rm_u32 (sh_mem sh') (cq_head (cq_ring r)) = rm_u32 (sh_mem sh) (cq_head (cq_ring r))
     \<and> rm_u32 (sh_mem sh') (cq_ring_mask (cq_ring r)) = rm_u32 (sh_mem sh) (cq_ring_mask (cq_ring r))
     \<and> rm_maps (sh_mem sh') = rm_maps (sh_mem sh)
     \<and> uv_taken u (sh_world sh') @ sq_list r (sh_mem sh') = uv_taken u (sh_world sh) @ sq_list r (sh_mem sh)
     \<and> (\<exists>tk. uv_taken u (sh_world sh') = uv_taken u (sh_world sh) @ tk)
     \<and> (\<exists>new. uv_posted u (sh_world sh') = uv_posted u (sh_world sh) @ new
           \<and> cq_list r (sh_mem sh') = cq_list r (sh_mem sh) @ new)"

lemma kstep_progress:
  assumes "kstep u r cn sh sh'" and ok: "ring_ok r n cn (sh_mem sh)"
  shows "kernel_progress u r n cn sh sh'"
  using assms(1)
proof cases
  case (k_step_take e q w)
  have ne: "sq_list r (sh_mem sh) \<noteq> []" using k_step_take by simp
  show ?thesis
    using k_step_take k_take_ok [OF ok ne] by (simp add: kernel_progress_def kernel_words(1) [OF ok])
next
  case (k_step_complete xs e ys c ops w)
  show ?thesis
    using k_step_complete k_post_ok [OF ok k_step_complete(3)]
    by (simp add: kernel_progress_def kernel_words(2) [OF ok])
next
  case (k_step_flags w x)
  show ?thesis
    using k_step_flags k_flags_ok [OF ok]
    by (simp add: kernel_progress_def same_uview_def kernel_words(3) [OF ok])
next
  case (k_step_world w)
  then show ?thesis using ok by (simp add: kernel_progress_def same_uview_def)
qed

lemma ksteps_progress:
  assumes "ksteps u r cn sh sh'" "ring_ok r n cn (sh_mem sh)"
  shows "kernel_progress u r n cn sh sh'"
  using assms(1)
proof (induction rule: rtranclp_induct)
  case base
  show ?case using assms(2) by (simp add: kernel_progress_def)
next
  case (step sh1 sh2)
  have "ring_ok r n cn (sh_mem sh1)" using step.IH by (simp add: kernel_progress_def)
  then have "kernel_progress u r n cn sh1 sh2" using step.hyps kstep_progress by blast
  then show ?case using step.IH unfolding kernel_progress_def
    by (elim conjE exE) (intro conjI, simp_all)
qed

subsection \<open>The program's ring functions on the lists\<close>

lemma submit_eq:
  assumes S: "uring_spec env u r cn" and ok: "ring_ok r n cn (sh_mem sh)"
  shows "iou_config_and_submit env r a sh = (let sh1 = e_uring_async env sh in
     if unat (iou_ring_size r) \<le> length (sq_list r (sh_mem sh1)) then Inr (- EBUSY, sh1)
     else bindE (hget (Some a) (sh_ops sh1)) (\<lambda>o'.
          bindE (iou_prep_sqe a o' (zero_sqe\<lparr>sqe_user_data := Some a\<rparr>)) (\<lambda>e.
          Inr (0, sh1\<lparr>sh_mem := p_push r e (sh_mem sh1)\<rparr>))))"
proof -
  define sh1 where "sh1 = e_uring_async env sh"
  note P = ksteps_progress [OF uring_specD(1) [OF S] ok, folded sh1_def, unfolded kernel_progress_def]
  have ok1: "ring_ok r n cn (sh_mem sh1)" using P by simp
  note D = ring_okD [OF ok1]
  have tail: "rm_u32 (sh_mem sh) (sq_tail (sq_ring r)) = rm_u32 (sh_mem sh1) (sq_tail (sq_ring r))" using P by simp
  let ?t = "rm_u32 (sh_mem sh1) (sq_tail (sq_ring r))" and ?h = "rm_u32 (sh_mem sh1) (sq_head (sq_ring r))"
  let ?i = "?t AND rm_u32 (sh_mem sh1) (sq_ring_mask (sq_ring r))"
  have lt: "unat ?i < n" using ring_slot_less [OF ring_mask_okD(1) [OF ok1], of ?t] by (simp add: ring_slot_def)
  have full: "iou_ring_size r \<le> ?t - ?h \<longleftrightarrow> unat (iou_ring_size r) \<le> length (sq_list r (sh_mem sh1))"
    by (simp add: word_le_nat_alt sq_used_def)
  have c1: "rm_check (rp_at (iou_sqes r) 64 (unat ?i)) 64 (sh_mem sh1) = Inr ()"
    using D(9) [OF lt] by (simp add: sqe_slot_def)
  have c2: "rm_check (rp_at (sq_array (sq_ring r)) 4 (unat ?i)) 4 (sh_mem sh1) = Inr ()"
    using D(8) [OF lt] by (simp add: array_slot_def)
  have acq: "iou_acquire_sqe env r sh =
     (if unat (iou_ring_size r) \<le> length (sq_list r (sh_mem sh1))
      then Inr (\<lparr>acq_sqe = None, acq_tail = ?t, acq_index = 0\<rparr>, sh1)
      else Inr (\<lparr>acq_sqe = Some (rp_at (iou_sqes r) 64 (unat ?i)), acq_tail = ?t, acq_index = ?i\<rparr>,
        sh1\<lparr>sh_mem := (sh_mem sh1)\<lparr>rm_sqe := (rm_sqe (sh_mem sh1))(rp_at (iou_sqes r) 64 (unat ?i) := zero_sqe)\<rparr>\<rparr>))"
    using ring_okD(2) [OF ok] D(1,3) c1
    by (simp add: iou_acquire_sqe_def rm_access_defs tail full Let_def sh1_def [symmetric])
  show ?thesis
  proof (cases "unat (iou_ring_size r) \<le> length (sq_list r (sh_mem sh1))")
    case True
    then show ?thesis by (simp add: iou_config_and_submit_def acq Let_def sh1_def [symmetric])
  next
    case False
    have st: "iou_submit_sqe r \<lparr>acq_sqe = Some (rp_at (iou_sqes r) 64 (unat ?i)), acq_tail = ?t, acq_index = ?i\<rparr>
        (sh_mem sh1\<lparr>rm_sqe := (rm_sqe (sh_mem sh1))(rp_at (iou_sqes r) 64 (unat ?i) := e)\<rparr>)
      = Inr (p_push r e (sh_mem sh1))" for e
      using c2 D(2) by (simp add: iou_submit_sqe_def rm_access_defs p_push_def Let_def
          sqe_slot_def array_slot_def)
    show ?thesis
      using False c1
      by (simp add: iou_config_and_submit_def acq Let_def sh1_def [symmetric] rm_access_defs st)
  qed
qed

lemma get_cqe_eq:
  assumes S: "uring_spec env u r cn" and ok: "ring_ok r n cn (sh_mem sh)"
  shows "iou_get_cqe env r sh = (let sh1 = e_uring_async env sh in
     case cq_list r (sh_mem sh1) of
       [] \<Rightarrow> Inr (None, sh1)
     | c # cs \<Rightarrow> Inr (Some c, sh1\<lparr>sh_mem := p_pop r (sh_mem sh1)\<rparr>))"
proof -
  define sh1 where "sh1 = e_uring_async env sh"
  note P = ksteps_progress [OF uring_specD(1) [OF S] ok, folded sh1_def, unfolded kernel_progress_def]
  have ok1: "ring_ok r n cn (sh_mem sh1)" using P by simp
  note D = ring_okD [OF ok1]
  have head: "rm_u32 (sh_mem sh) (cq_head (cq_ring r)) = rm_u32 (sh_mem sh1) (cq_head (cq_ring r))" using P by simp
  let ?h = "rm_u32 (sh_mem sh1) (cq_head (cq_ring r))"
  let ?i = "?h AND rm_u32 (sh_mem sh1) (cq_ring_mask (cq_ring r))"
  have lt: "unat ?i < cn" using ring_slot_less [OF ring_mask_okD(2) [OF ok1], of ?h] by (simp add: ring_slot_def)
  have c1: "rm_check (rp_at (cq_cqes (cq_ring r)) 16 (unat ?i)) 16 (sh_mem sh1) = Inr ()"
    using D(10) [OF lt] by (simp add: cqe_slot_def)
  show ?thesis
  proof (cases "cq_list r (sh_mem sh1)")
    case Nil
    then have "rm_u32 (sh_mem sh1) (cq_head (cq_ring r)) = rm_u32 (sh_mem sh1) (cq_tail (cq_ring r))"
      using cq_nonempty by metis
    then show ?thesis
      using Nil ring_okD(5) [OF ok] D(6)
      by (simp add: iou_get_cqe_def rm_access_defs head Let_def sh1_def [symmetric])
  next
    case (Cons c cs)
    then have ne: "cq_list r (sh_mem sh1) \<noteq> []" by simp
    have "rm_cqe (sh_mem sh1) (cqe_slot r (unat ?i)) = c" using cq_hd [OF ne] Cons by simp
    then have hd: "rm_cqe (sh_mem sh1) (rp_at (cq_cqes (cq_ring r)) 16 (unat ?i)) = c" by (simp add: cqe_slot_def)
    have "rm_u32 (sh_mem sh1) (cq_head (cq_ring r)) \<noteq> rm_u32 (sh_mem sh1) (cq_tail (cq_ring r))"
      using ne by (simp add: cq_nonempty)
    then show ?thesis
      using Cons ring_okD(5) [OF ok] D(5-7) c1 hd
      by (simp add: iou_get_cqe_def rm_access_defs head Let_def p_pop_def sh1_def [symmetric])
  qed
qed

text \<open>Entering the kernel, or waking its thread, is kernel activity only.\<close>

lemma enter_ksteps:
  assumes S: "uring_spec env u r cn" and ok: "ring_ok r n cn (sh_mem sh)"
  shows "safeE (\<lambda>(sig, sh'). ksteps u r cn sh sh') (iou_enter_or_wake env r k sh)"
proof -
  obtain rc er sig sh1 where 1: "e_uring_enter env (iou_ring_fd r) k 1 IORING_ENTER_GETEVENTS True sh = ((rc, er, sig), sh1)"
    by (cases "e_uring_enter env (iou_ring_fd r) k 1 IORING_ENTER_GETEVENTS True sh") auto
  define sh2 where "sh2 = e_uring_async env sh"
  obtain rc3 er3 sig3 sh3 where 3: "e_uring_enter env (iou_ring_fd r) 0 0 IORING_ENTER_SQ_WAKEUP False sh2 = ((rc3, er3, sig3), sh3)"
    by (cases "e_uring_enter env (iou_ring_fd r) 0 0 IORING_ENTER_SQ_WAKEUP False sh2") auto
  have k1: "ksteps u r cn sh sh1" by (rule uring_specD(2) [OF S 1])
  have k2: "ksteps u r cn sh sh2" unfolding sh2_def by (rule uring_specD(1) [OF S])
  have k3: "ksteps u r cn sh sh3" using k2 uring_specD(2) [OF S 3] by (rule rtranclp_trans)
  have "ring_ok r n cn (sh_mem sh2)" using ksteps_progress [OF k2 ok] by (simp add: kernel_progress_def)
  from ring_okD(4) [OF this] have ck: "rm_check (sq_flags (sq_ring r)) 4 (sh_mem sh2) = Inr ()" .
  have lf: "load_u32 (sq_flags (sq_ring r)) (sh_mem sh2) = Inr (rm_u32 (sh_mem sh2) (sq_flags (sq_ring r)))"
    by (simp add: load_u32_def ck)
  show ?thesis
    unfolding iou_enter_or_wake_def io_uring_enter_def sh2_def [symmetric] Let_def lf bindE_Inr
    by (simp add: 1 3 k1 k2 k3)
qed

subsection \<open>Claims\<close>

text \<open>C8: Submitting refines enqueueing on a bounded FIFO queue, whatever the kernel does meanwhile
  and wherever the 32-bit counters stand. If the kernel has left no free entry the result is
  -EBUSY and nothing is written; otherwise the request built from the operation object joins
  the end of the queue: what the kernel has taken followed by what it will take grows by
  exactly that request, so none is lost, repeated, overtaken or overwritten.\<close>

theorem submit_refines_queue:
  assumes S: "uring_spec env u r cn" and ok: "ring_ok r n cn (sh_mem sh)"
    and op: "cells (sh_ops (e_uring_async env sh)) a = Some o'" "tag_fits o'"
  shows "\<exists>rc sh'. iou_config_and_submit env r a sh = Inr (rc, sh') \<and> ring_ok r n cn (sh_mem sh')
     \<and> (if length (sq_list r (sh_mem (e_uring_async env sh))) < unat (iou_ring_size r)
        then rc = 0 \<and> uv_taken u (sh_world sh') @ sq_list r (sh_mem sh')
             = uv_taken u (sh_world sh) @ sq_list r (sh_mem sh) @ [request a o']
        else rc = - EBUSY \<and> sh' = e_uring_async env sh)"
proof -
  note P = ksteps_progress [OF uring_specD(1) [OF S] ok, unfolded kernel_progress_def]
  have ok1: "ring_ok r n cn (sh_mem (e_uring_async env sh))" using P by blast
  have q: "uv_taken u (sh_world (e_uring_async env sh)) @ sq_list r (sh_mem (e_uring_async env sh))
      = uv_taken u (sh_world sh) @ sq_list r (sh_mem sh)" using P by blast
  show ?thesis
  proof (cases "length (sq_list r (sh_mem (e_uring_async env sh))) < unat (iou_ring_size r)")
    case True
    note push = p_push_ok [OF ok1 True, of "request a o'"]
    show ?thesis
      using True op push(1) q push(2)
      by (simp add: submit_eq [OF S ok] Let_def prep_fits del: length_sq_list)
  next
    case False
    then show ?thesis using ok1 by (simp add: submit_eq [OF S ok] Let_def del: length_sq_list)
  qed
qed

text \<open>C9: Taking a completion refines dequeueing: NULL is returned exactly when the completions
  posted so far have all been taken, and otherwise the oldest one, which leaves the ring; the
  completions taken followed by those in the ring are those the kernel posted, in its order.\<close>

theorem get_cqe_refines_queue:
  assumes S: "uring_spec env u r cn" and ok: "ring_ok r n cn (sh_mem sh)"
  shows "\<exists>c sh' new. iou_get_cqe env r sh = Inr (c, sh') \<and> ring_ok r n cn (sh_mem sh')
     \<and> uv_posted u (sh_world sh') = uv_posted u (sh_world sh) @ new
     \<and> (case c of None \<Rightarrow> cq_list r (sh_mem sh) @ new = [] \<and> cq_list r (sh_mem sh') = []
        | Some x \<Rightarrow> cq_list r (sh_mem sh) @ new = x # cq_list r (sh_mem sh'))"
proof -
  note P = ksteps_progress [OF uring_specD(1) [OF S] ok, unfolded kernel_progress_def]
  have ok1: "ring_ok r n cn (sh_mem (e_uring_async env sh))" using P by blast
  obtain new where new: "uv_posted u (sh_world (e_uring_async env sh)) = uv_posted u (sh_world sh) @ new"
    "cq_list r (sh_mem (e_uring_async env sh)) = cq_list r (sh_mem sh) @ new" using P by blast
  show ?thesis
  proof (cases "cq_list r (sh_mem (e_uring_async env sh))")
    case Nil
    then show ?thesis using new ok1 by (simp add: get_cqe_eq [OF S ok] Let_def)
  next
    case (Cons x xs)
    then have ne: "cq_list r (sh_mem (e_uring_async env sh)) \<noteq> []" by simp
    have e: "iou_get_cqe env r sh = Inr (Some x, (e_uring_async env sh)\<lparr>sh_mem := p_pop r (sh_mem (e_uring_async env sh))\<rparr>)"
      by (simp add: get_cqe_eq [OF S ok] Let_def Cons)
    have "cq_list r (sh_mem sh) @ new = x # cq_list r (p_pop r (sh_mem (e_uring_async env sh)))"
      using p_pop_ok(3) [OF ok1 ne] unfolding new(2) [symmetric] Cons by simp
    then show ?thesis
      using new(1) p_pop_ok(1) [OF ok1 ne] unfolding e by auto
  qed
qed

end
