(* ===== verification/UringSetup.thy ===== *)
theory UringSetup
  imports UringKernel
begin

text \<open>
  Creating and freeing the ring (\<open>iou_create\<close>, \<open>iou_free\<close>): the sizes computed for the
  mappings cover every word and slot the ring functions touch, with one mapping for both
  rings or with two, and freeing gives back exactly what creating took.
\<close>

unbundle bit_operations_syntax

subsection \<open>What io_uring_setup(2) and mmap(2) promise\<close>

text \<open>The areas of each ring, as offset and number of bytes.\<close>

definition sq_words :: "io_uring_params \<Rightarrow> 32 word list" where
  "sq_words p = [so_head (sq_off p), so_tail (sq_off p), so_ring_mask (sq_off p), so_ring_entries (sq_off p), so_flags (sq_off p)]"

definition cq_words :: "io_uring_params \<Rightarrow> 32 word list" where
  "cq_words p = [co_head (cq_off p), co_tail (cq_off p), co_ring_mask (cq_off p), co_ring_entries (cq_off p)]"

definition ring_areas :: "io_uring_params \<Rightarrow> (nat \<times> nat) list" where
  "ring_areas p = map (\<lambda>o'. (unat o', 4)) (sq_words p @ cq_words p)
     @ [(unat (so_array (sq_off p)), 4 * unat (sq_entries p)), (unat (co_cqes (cq_off p)), 16 * unat (cq_entries p))]"

text \<open>The areas do not overlap, the words precede the array and the completions; the sizes the man
  page gives for the mappings fit 32 bits.\<close>

definition params_ok :: "io_uring_params \<Rightarrow> bool" where
  "params_ok p \<longleftrightarrow> sorted_wrt (\<lambda>x y. fst x + snd x \<le> fst y \<or> fst y + snd y \<le> fst x) (ring_areas p)
     \<and> (\<forall>o' \<in> set (sq_words p). unat o' + 4 \<le> unat (so_array (sq_off p)))
     \<and> (\<forall>o' \<in> set (cq_words p). unat o' + 4 \<le> unat (co_cqes (cq_off p)))
     \<and> unat (so_array (sq_off p)) + 4 * unat (sq_entries p) < 2 ^ 32
     \<and> unat (co_cqes (cq_off p)) + 16 * unat (cq_entries p) < 2 ^ 32
     \<and> 64 * unat (sq_entries p) < 2 ^ 32"

definition setup_ring_spec :: "('w, 'x) uring_env_scheme \<Rightarrow> 'w kview \<Rightarrow> bool" where
  "setup_ring_spec env v \<longleftrightarrow> (\<forall>k p sh ret er p' sh'. e_uring_setup env k p sh = ((ret, er, p'), sh') \<longrightarrow>
     rm_maps (sh_mem sh') = rm_maps (sh_mem sh)
     \<and> (if ret < 0 then 0 < er else params_ok p' \<and> opened v (sh_world sh) ret (sh_world sh')))"

definition mmap_spec :: "('w, 'x) uring_env_scheme \<Rightarrow> 'w kview \<Rightarrow> bool" where
  "mmap_spec env v \<longleftrightarrow> (\<forall>len fd off sh res sh'. e_mmap env len fd off sh = (res, sh') \<longrightarrow>
     same_view v (sh_world sh) (sh_world sh')
     \<and> (\<forall>a. res = Some a \<longrightarrow> a \<noteq> 0 \<and> rm_maps (sh_mem sh) a = None
          \<and> rm_maps (sh_mem sh') = (rm_maps (sh_mem sh))(a := Some len)))"

text \<open>\<open>reg\<close> tells which area of the ring each mapping shows: the one named in the call.\<close>

definition region_spec :: "('w, 'x) uring_env_scheme \<Rightarrow> ('w ushared \<Rightarrow> nat \<Rightarrow> mmap_offset option) \<Rightarrow> bool" where
  "region_spec env reg \<longleftrightarrow> (\<forall>len fd off sh a sh'. e_mmap env len fd off sh = (Some a, sh') \<longrightarrow>
     reg sh' = (reg sh)(a := Some off))"

definition munmap_spec :: "('w, 'x) uring_env_scheme \<Rightarrow> 'w kview \<Rightarrow> bool" where
  "munmap_spec env v \<longleftrightarrow> (\<forall>a len sh. rm_maps (sh_mem sh) a = Some len \<longrightarrow>
     (\<exists>sh'. e_munmap env a len sh = (0, sh') \<and> rm_maps (sh_mem sh') = (rm_maps (sh_mem sh))(a := None)
        \<and> sh_ops sh' = sh_ops sh \<and> same_view v (sh_world sh) (sh_world sh')))"

subsection \<open>The mappings\<close>

lemma unat_mult_const:
  fixes w :: "32 word"
  assumes "k * unat w < 2 ^ 32" "unat (c :: 32 word) = k"
  shows "unat (w * c) = k * unat w"
  using assms by (simp add: unat_word_ariths mult.commute)

lemma unat_plus_small: "unat (a :: 32 word) + unat b < 2 ^ 32 \<Longrightarrow> unat (a + b) = unat a + unat b"
  by (simp add: unat_word_ariths)

lemma ring_sizes_exact:
  assumes "params_ok p"
  shows "unat (so_array (sq_off p) + sq_entries p * 4) = unat (so_array (sq_off p)) + 4 * unat (sq_entries p)"
    "unat (co_cqes (cq_off p) + cq_entries p * 16) = unat (co_cqes (cq_off p)) + 16 * unat (cq_entries p)"
    "unat (sq_entries p * 64) = 64 * unat (sq_entries p)"
proof -
  have m: "unat (sq_entries p * 4) = 4 * unat (sq_entries p)" "unat (cq_entries p * 16) = 16 * unat (cq_entries p)"
    "unat (sq_entries p * 64) = 64 * unat (sq_entries p)"
    using assms by (auto simp: params_ok_def intro!: unat_mult_const)
  then show "unat (so_array (sq_off p) + sq_entries p * 4) = unat (so_array (sq_off p)) + 4 * unat (sq_entries p)"
    "unat (co_cqes (cq_off p) + cq_entries p * 16) = unat (co_cqes (cq_off p)) + 16 * unat (cq_entries p)"
    "unat (sq_entries p * 64) = 64 * unat (sq_entries p)"
    using assms by (auto simp: params_ok_def unat_plus_small)
qed

text \<open>The pointers are those the parameters give over the mappings at \<open>a\<close>, \<open>b\<close> and \<open>d\<close>.\<close>

definition ring_placed :: "io_uring_params \<Rightarrow> nat \<Rightarrow> nat \<Rightarrow> nat \<Rightarrow> iou \<Rightarrow> bool" where
  "ring_placed p a b d r \<longleftrightarrow>
     sq_ring r = \<lparr>sq_head = (a, unat (so_head (sq_off p))), sq_tail = (a, unat (so_tail (sq_off p))),
          sq_ring_mask = (a, unat (so_ring_mask (sq_off p))), sq_ring_entries = (a, unat (so_ring_entries (sq_off p))),
          sq_flags = (a, unat (so_flags (sq_off p))), sq_array = (a, unat (so_array (sq_off p)))\<rparr>
     \<and> cq_ring r = \<lparr>cq_head = (b, unat (co_head (cq_off p))), cq_tail = (b, unat (co_tail (cq_off p))),
          cq_ring_mask = (b, unat (co_ring_mask (cq_off p))), cq_ring_entries = (b, unat (co_ring_entries (cq_off p))),
          cq_cqes = (b, unat (co_cqes (cq_off p)))\<rparr>
     \<and> iou_sqes r = (d, 0)"

lemma placed_slots:
  assumes "ring_placed p a b d r"
  shows "ring_words r = map (\<lambda>o'. (a, unat o')) (sq_words p) @ map (\<lambda>o'. (b, unat o')) (cq_words p)"
    "array_slot r i = (a, unat (so_array (sq_off p)) + 4 * i)" "sqe_slot r i = (d, 64 * i)"
    "cqe_slot r i = (b, unat (co_cqes (cq_off p)) + 16 * i)"
  using assms by (simp_all add: ring_placed_def ring_words_def sq_words_def cq_words_def array_slot_def
      sqe_slot_def cqe_slot_def rp_at_def)

lemma sorted_wrt_upt: "sorted_wrt P [0..<n]" if "\<And>i j. i < j \<Longrightarrow> j < n \<Longrightarrow> P i j"
  using that by (simp add: sorted_wrt_iff_nth_less)

lemma layout_over_maps:
  assumes P: "params_ok p" and r: "ring_placed p a b d r" and d: "d \<noteq> a" "d \<noteq> b"
    and sq: "maps a = Some la" "unat (so_array (sq_off p)) + 4 * unat (sq_entries p) \<le> la"
    and cq: "maps b = Some lb" "unat (co_cqes (cq_off p)) + 16 * unat (cq_entries p) \<le> lb"
    and se: "maps d = Some (64 * unat (sq_entries p))"
  shows "ring_layout r (unat (sq_entries p)) (unat (cq_entries p)) maps"
proof -
  let ?n = "unat (sq_entries p)" and ?cn = "unat (cq_entries p)"
  let ?A = "unat (so_array (sq_off p))" and ?C = "unat (co_cqes (cq_off p))"
  note S = placed_slots [OF r]
  have w: "o' \<in> set (sq_words p) \<Longrightarrow> unat o' + 4 \<le> ?A" "o' \<in> set (cq_words p) \<Longrightarrow> unat o' + 4 \<le> ?C" for o'
    using P by (simp_all add: params_ok_def)
  have R: "sorted_wrt (\<lambda>x y. unat x + 4 \<le> unat y \<or> unat y + 4 \<le> unat x) (sq_words p @ cq_words p)"
    "o' \<in> set (sq_words p @ cq_words p) \<Longrightarrow> unat o' + 4 \<le> ?A \<or> ?A + 4 * ?n \<le> unat o'"
    "o' \<in> set (sq_words p @ cq_words p) \<Longrightarrow> unat o' + 4 \<le> ?C \<or> ?C + 16 * ?cn \<le> unat o'"
    "?A + 4 * ?n \<le> ?C \<or> ?C + 16 * ?cn \<le> ?A" for o'
    using P by (auto simp: params_ok_def ring_areas_def sorted_wrt_append sorted_wrt_map)
  have "in_maps maps (fst x) (snd x)" if "x \<in> set (ring_objects r ?n ?cn)" for x
    using that sq cq se w by (fastforce simp: ring_objects_def S in_maps_def)
  moreover have "sorted_wrt apart (ring_objects r ?n ?cn)"
  proof -
    have 1: "sorted_wrt apart (map (\<lambda>q. (q, 4)) (ring_words r))"
      using R(1) by (auto simp: S sorted_wrt_append sorted_wrt_map apart_def)
    have 2: "sorted_wrt apart (map (\<lambda>i. (array_slot r i, 4)) [0..<?n])"
      "sorted_wrt apart (map (\<lambda>i. (sqe_slot r i, 64)) [0..<?n])"
      "sorted_wrt apart (map (\<lambda>i. (cqe_slot r i, 16)) [0..<?cn])"
      unfolding sorted_wrt_map by (rule sorted_wrt_upt, simp add: S apart_def)+
    have 3: "(i < ?n \<longrightarrow> apart (q, 4) (array_slot r i, 4)) \<and> (i < ?cn \<longrightarrow> apart (q, 4) (cqe_slot r i, 16))"
      if q: "q \<in> set (ring_words r)" for q i
    proof -
      have "\<exists>o'. o' \<in> set (sq_words p @ cq_words p) \<and> snd q = unat o'" using q by (force simp: S)
      then obtain o' where "o' \<in> set (sq_words p @ cq_words p)" "snd q = unat o'" by blast
      with R(2,3) [of o'] show ?thesis by (auto simp: S apart_def)
    qed
    have 5: "apart (array_slot r i, 4) (cqe_slot r j, 16)" if "i < ?n" "j < ?cn" for i j
      using that R(4) by (auto simp: S apart_def)
    have 6: "apart (q, 4) (sqe_slot r i, 64)" if "q \<in> set (ring_words r)" for q i
      using that d by (auto simp: S apart_def)
    have 7: "apart (array_slot r i, 4) (sqe_slot r j, 64)" "apart (sqe_slot r j, 64) (cqe_slot r i, 16)" for i j
      using d by (auto simp: S apart_def)
    show ?thesis
      using 1 2 3 5 6 7 by (auto simp: ring_objects_def sorted_wrt_append)
  qed
  ultimately show ?thesis by (simp add: ring_layout_def)
qed

text \<open>What \<open>iou_mmap_rings\<close> records is what was mapped.\<close>

definition maps_recorded :: "iou \<Rightarrow> (nat \<Rightarrow> nat option) \<Rightarrow> (nat \<Rightarrow> nat option) \<Rightarrow> bool" where
  "maps_recorded r before after \<longleftrightarrow>
     (let m = before(sq_ptr_mapped r := Some (unat (sq_mapped_size r)));
          m' = (if cq_ptr_mapped r = 0 then m else m(cq_ptr_mapped r := Some (unat (cq_mapped_size r))))
      in after = m'(sqe_ptr_mapped r := Some (unat (sqe_mapped_size r)))
         \<and> before (sq_ptr_mapped r) = None \<and> m' (sqe_ptr_mapped r) = None
         \<and> (cq_ptr_mapped r \<noteq> 0 \<longrightarrow> m (cq_ptr_mapped r) = None))"

text \<open>The structure \<open>iou_mmap_rings\<close> builds from the three mappings.\<close>

definition mapped_iou ::
    "int \<Rightarrow> io_uring_params \<Rightarrow> 32 word \<Rightarrow> nat \<Rightarrow> 32 word \<Rightarrow> nat \<Rightarrow> nat \<Rightarrow> 32 word \<Rightarrow> nat \<Rightarrow> iou" where
  "mapped_iou fd p k a ss b cm cs d = \<lparr>iou_ring_fd = fd, iou_ring_size = k, iou_configuration = p,
     sq_ring = \<lparr>sq_head = (a, unat (so_head (sq_off p))), sq_tail = (a, unat (so_tail (sq_off p))),
       sq_ring_mask = (a, unat (so_ring_mask (sq_off p))), sq_ring_entries = (a, unat (so_ring_entries (sq_off p))),
       sq_flags = (a, unat (so_flags (sq_off p))), sq_array = (a, unat (so_array (sq_off p)))\<rparr>,
     iou_sqes = (d, 0),
     cq_ring = \<lparr>cq_head = (b, unat (co_head (cq_off p))), cq_tail = (b, unat (co_tail (cq_off p))),
       cq_ring_mask = (b, unat (co_ring_mask (cq_off p))), cq_ring_entries = (b, unat (co_ring_entries (cq_off p))),
       cq_cqes = (b, unat (co_cqes (cq_off p)))\<rparr>,
     sq_ptr_mapped = a, sq_mapped_size = ss, cq_ptr_mapped = cm, cq_mapped_size = cs,
     sqe_ptr_mapped = d, sqe_mapped_size = sq_entries p * 64\<rparr>"

lemma mapped_placed: "ring_placed p a b d (mapped_iou fd p k a ss b cm cs d)"
  by (simp add: ring_placed_def mapped_iou_def)

lemma mapped_recorded:
  "maps_recorded (mapped_iou fd p k a ss b cm cs d) = maps_recorded (mapped_iou 0 p 0 a ss b cm cs d)"
  by (simp add: fun_eq_iff maps_recorded_def mapped_iou_def)

text \<open>Whether one mapping serves both rings, and what each of them needs.\<close>

definition single_map :: "io_uring_params \<Rightarrow> bool" where
  "single_map p \<longleftrightarrow> features p AND IORING_FEAT_SINGLE_MMAP \<noteq> 0"

definition sq_need :: "io_uring_params \<Rightarrow> 32 word" where
  "sq_need p = so_array (sq_off p) + sq_entries p * 4"

definition cq_need :: "io_uring_params \<Rightarrow> 32 word" where
  "cq_need p = co_cqes (cq_off p) + cq_entries p * 16"

text \<open>The three areas, as shown by the mappings.\<close>

definition regions_at :: "('w, 'x) uring_env_scheme \<Rightarrow> io_uring_params \<Rightarrow> nat \<Rightarrow> nat \<Rightarrow> nat \<Rightarrow> 'w ushared \<Rightarrow> bool" where
  "regions_at env p a b d sh \<longleftrightarrow> (\<forall>reg. region_spec env reg \<longrightarrow> reg sh a = Some IORING_OFF_SQ_RING
     \<and> reg sh b = Some (if single_map p then IORING_OFF_SQ_RING else IORING_OFF_CQ_RING) \<and> reg sh d = Some IORING_OFF_SQES)"

text \<open>What the calls of mmap leave: mappings of \<open>ss\<close> bytes at \<open>a\<close>, of \<open>cs\<close> at \<open>cm\<close> unless that is 0, and
  of the request slots at \<open>d\<close>.\<close>

definition mapped_at ::
    "('w, 'x) uring_env_scheme \<Rightarrow> 'w kview \<Rightarrow> io_uring_params \<Rightarrow> nat \<Rightarrow> 32 word \<Rightarrow> nat \<Rightarrow> nat \<Rightarrow> 32 word \<Rightarrow> nat
     \<Rightarrow> 'w ushared \<Rightarrow> 'w ushared \<Rightarrow> bool" where
  "mapped_at env v p a ss b cm cs d sh sh' \<longleftrightarrow>
     (if single_map p then b = a \<and> cm = 0 \<and> cq_need p \<le> ss else b = cm \<and> cm \<noteq> 0 \<and> cs = cq_need p) \<and> sq_need p \<le> ss
     \<and> maps_recorded (mapped_iou 0 p 0 a ss b cm cs d) (rm_maps (sh_mem sh)) (rm_maps (sh_mem sh'))
     \<and> same_view v (sh_world sh) (sh_world sh') \<and> regions_at env p a b d sh'"

lemma mmap_rings_cases:
  assumes M: "mmap_spec env v"
  shows "safeE (\<lambda>(r, sh'). \<exists>a ss b cm cs d. r = mapped_iou fd p k a ss b cm cs d \<and> mapped_at env v p a ss b cm cs d sh sh')
     (iou_mmap_rings env fd p k sh)"
proof -
  define ss where "ss = (if single_map p \<and> cq_need p > sq_need p then cq_need p else sq_need p)"
  have le: "sq_need p \<le> ss" "single_map p \<Longrightarrow> cq_need p \<le> ss" by (auto simp: ss_def)
  note unf = iou_mmap_rings_def sq_need_def [symmetric] cq_need_def [symmetric] single_map_def [symmetric] ss_def [symmetric] Let_def
  have spec: "same_view v (sh_world s1) (sh_world s2) \<and> x \<noteq> 0 \<and> rm_maps (sh_mem s1) x = None
      \<and> rm_maps (sh_mem s2) = (rm_maps (sh_mem s1))(x := Some len) \<and> (\<forall>reg. region_spec env reg \<longrightarrow> reg s2 = (reg s1)(x := Some off))"
    if "e_mmap env len fd off s1 = (Some x, s2)" for len off x s1 s2
    using M that unfolding mmap_spec_def region_spec_def by blast
  obtain q1 sh1 where 1: "e_mmap env (unat ss) fd IORING_OFF_SQ_RING sh = (q1, sh1)" by force
  obtain q2 sh2 where 2: "(if single_map p then (Some 0, sh1) else e_mmap env (unat (cq_need p)) fd IORING_OFF_CQ_RING sh1) = (q2, sh2)" by force
  obtain q3 sh3 where 3: "e_mmap env (unat (sq_entries p * 64)) fd IORING_OFF_SQES sh2 = (q3, sh3)" by force
  show ?thesis
  proof (cases "q1 = None \<or> q2 = None \<or> q3 = None")
    case True
    then show ?thesis using 1 2 3 by (auto simp: unf split: if_splits)
  next
    case False
    then obtain a cm d where q: "q1 = Some a" "q2 = Some cm" "q3 = Some d" by auto
    define b cs where "b = (if single_map p then a else cm)" and "cs = (if single_map p then 0 else cq_need p)"
    have eq: "iou_mmap_rings env fd p k sh = Inr (mapped_iou fd p k a ss b cm cs d, sh3)"
      using 1 2 3 q by (auto simp: unf mapped_iou_def b_def cs_def split: if_splits)
    note A = spec [OF 1 [unfolded q]] and D = spec [OF 3 [unfolded q]]
    have "mapped_at env v p a ss b cm cs d sh sh3"
    proof (cases "single_map p")
      case True
      then show ?thesis using A D 2 q le same_view_trans
        by (auto simp: mapped_at_def maps_recorded_def mapped_iou_def regions_at_def b_def cs_def Let_def)
    next
      case False
      then have "e_mmap env (unat (cq_need p)) fd IORING_OFF_CQ_RING sh1 = (Some cm, sh2)" using 2 q by simp
      note C = spec [OF this]
      have "same_view v (sh_world sh) (sh_world sh3)"
        by (rule same_view_trans [OF same_view_trans [OF conjunct1 [OF A] conjunct1 [OF C]] conjunct1 [OF D]])
      then show ?thesis using False A C D le
        by (auto simp: mapped_at_def maps_recorded_def mapped_iou_def regions_at_def b_def cs_def Let_def)
    qed
    then show ?thesis unfolding eq safeE_simps case_prod_conv by blast
  qed
qed

definition rings_mapped ::
    "('w, 'x) uring_env_scheme \<Rightarrow> 'w kview \<Rightarrow> int \<Rightarrow> io_uring_params \<Rightarrow> 32 word \<Rightarrow> 'w ushared \<Rightarrow> iou \<Rightarrow> 'w ushared \<Rightarrow> bool" where
  "rings_mapped env v fd p k sh r sh' \<longleftrightarrow> iou_ring_fd r = fd \<and> iou_configuration r = p \<and> iou_ring_size r = k
     \<and> ring_layout r (unat (sq_entries p)) (unat (cq_entries p)) (rm_maps (sh_mem sh'))
     \<and> (\<exists>a b d. ring_placed p a b d r \<and> regions_at env p a b d sh')
     \<and> maps_recorded r (rm_maps (sh_mem sh)) (rm_maps (sh_mem sh'))
     \<and> same_view v (sh_world sh) (sh_world sh')"

lemma mapped_at_layout:
  assumes P: "params_ok p" and M: "mapped_at env v p a ss b cm cs d sh sh'"
  shows "ring_layout (mapped_iou fd p k a ss b cm cs d) (unat (sq_entries p)) (unat (cq_entries p)) (rm_maps (sh_mem sh'))"
proof -
  note E = ring_sizes_exact [OF P] and S = sq_need_def [of p] and C = cq_need_def [of p]
  have le: "unat (sq_need p) \<le> unat ss" "single_map p \<Longrightarrow> unat (cq_need p) \<le> unat ss"
    using M by (auto simp: mapped_at_def word_le_nat_alt)
  show ?thesis
  proof (cases "single_map p")
    case True
    then show ?thesis using M le E S C
      by (intro layout_over_maps [OF P mapped_placed, where la = "unat ss" and lb = "unat ss"])
        (auto simp: mapped_at_def maps_recorded_def mapped_iou_def Let_def split: if_splits)
  next
    case False
    then show ?thesis using M le E S C
      by (intro layout_over_maps [OF P mapped_placed, where la = "unat ss" and lb = "unat (cq_need p)"])
        (auto simp: mapped_at_def maps_recorded_def mapped_iou_def Let_def split: if_splits)
  qed
qed

lemma mmap_rings_safe:
  assumes M: "mmap_spec env v" and P: "params_ok p"
  shows "safeE (\<lambda>(r, sh'). rings_mapped env v fd p k sh r sh') (iou_mmap_rings env fd p k sh)"
proof (rule safeE_mono [OF mmap_rings_cases [OF M]], clarify)
  fix a ss b cm cs d sh'
  assume A: "mapped_at env v p a ss b cm cs d sh sh'"
  let ?r = "mapped_iou fd p k a ss b cm cs d"
  have "maps_recorded ?r (rm_maps (sh_mem sh)) (rm_maps (sh_mem sh'))"
    using A mapped_recorded [of fd p k] by (simp add: mapped_at_def)
  moreover have "\<exists>a b d. ring_placed p a b d ?r \<and> regions_at env p a b d sh'"
    using A mapped_placed unfolding mapped_at_def by blast
  moreover have "same_view v (sh_world sh) (sh_world sh')" using A by (simp add: mapped_at_def)
  moreover have "iou_ring_fd ?r = fd" "iou_configuration ?r = p" "iou_ring_size ?r = k" by (simp_all add: mapped_iou_def)
  ultimately show "rings_mapped env v fd p k sh ?r sh'"
    unfolding rings_mapped_def using mapped_at_layout [OF P A] by blast
qed

lemma create_safe:
  assumes U: "setup_ring_spec env v" and M: "mmap_spec env v"
  shows "safeE (\<lambda>(r, sh'). \<exists>er p sh1. e_uring_setup env k (iou_config_params poll) sh = ((iou_ring_fd r, er, p), sh1)
     \<and> params_ok p \<and> opened v (sh_world sh) (iou_ring_fd r) (sh_world sh1)
     \<and> rm_maps (sh_mem sh1) = rm_maps (sh_mem sh) \<and> rings_mapped env v (iou_ring_fd r) p k sh1 r sh')
     (iou_create env k poll sh)"
    (is "safeE ?P _")
proof -
  obtain ret er p sh1 where 1: "e_uring_setup env k (iou_config_params poll) sh = ((ret, er, p), sh1)"
    by (cases "e_uring_setup env k (iou_config_params poll) sh") auto
  note S = U [unfolded setup_ring_spec_def, rule_format, OF 1]
  show ?thesis
  proof (cases "ret < 0")
    case True
    then show ?thesis using S by (simp add: iou_create_def io_uring_setup_def 1)
  next
    case False
    then have P: "params_ok p" and O: "opened v (sh_world sh) ret (sh_world sh1)" using S by auto
    have "safeE ?P (iou_mmap_rings env ret p k sh1)"
      by (rule safeE_mono [OF mmap_rings_safe [OF M P]]) (use P O S 1 in \<open>auto simp: rings_mapped_def\<close>)
    moreover have "iou_check_features p poll = Inr () \<or> (\<exists>m. iou_check_features p poll = Inl (ExitFailure m))"
      by (simp add: iou_check_features_def)
    ultimately show ?thesis
      using False by (auto simp: iou_create_def io_uring_setup_def 1)
  qed
qed

text \<open>Freeing undoes the mappings in the order they are recorded and closes the ring.\<close>

definition ring_released :: "'w kview \<Rightarrow> int \<Rightarrow> (nat \<Rightarrow> nat option) \<Rightarrow> 'w ushared \<Rightarrow> iou \<times> 'w ushared \<Rightarrow> bool" where
  "ring_released v fd before sh = (\<lambda>(r', sh'). r' = zero_iou\<lparr>iou_ring_fd := - 1\<rparr>
     \<and> rm_maps (sh_mem sh') = before \<and> sh_ops sh' = sh_ops sh
     \<and> kv_open v (sh_world sh') = kv_open v (sh_world sh) - {fd}
     \<and> kv_in v (sh_world sh') = kv_in v (sh_world sh) \<and> kv_out v (sh_world sh') = kv_out v (sh_world sh))"

lemma munmap_ok:
  assumes "munmap_spec env v" "rm_maps (sh_mem sh) a = Some (unat len)"
  shows "\<exists>sh'. munmap_asserted env a len msg sh = Inr sh' \<and> rm_maps (sh_mem sh') = (rm_maps (sh_mem sh))(a := None)
     \<and> sh_ops sh' = sh_ops sh \<and> same_view v (sh_world sh) (sh_world sh')"
  using assms(1) [unfolded munmap_spec_def, rule_format, OF assms(2)]
  by (auto simp: munmap_asserted_def)

lemma free_ok:
  assumes M: "munmap_spec env v" and C: "close_spec env v" "close_reliable env v"
    and rec: "maps_recorded r before (rm_maps (sh_mem sh))" and fd: "iou_ring_fd r \<in> kv_open v (sh_world sh)"
  shows "okE (ring_released v (iou_ring_fd r) before sh) (iou_free env r sh)"
proof -
  define m where "m = before(sq_ptr_mapped r := Some (unat (sq_mapped_size r)))"
  define m' where "m' = (if cq_ptr_mapped r = 0 then m else m(cq_ptr_mapped r := Some (unat (cq_mapped_size r))))"
  have R: "rm_maps (sh_mem sh) = m'(sqe_ptr_mapped r := Some (unat (sqe_mapped_size r)))"
    "before (sq_ptr_mapped r) = None" "m' (sqe_ptr_mapped r) = None"
    "cq_ptr_mapped r \<noteq> 0 \<longrightarrow> m (cq_ptr_mapped r) = None"
    using rec unfolding maps_recorded_def Let_def m_def m'_def by blast+
  have ds: "sqe_ptr_mapped r \<noteq> sq_ptr_mapped r"
    "cq_ptr_mapped r \<noteq> 0 \<Longrightarrow> cq_ptr_mapped r \<noteq> sq_ptr_mapped r \<and> sqe_ptr_mapped r \<noteq> cq_ptr_mapped r"
    using R(3,4) by (auto simp: m_def m'_def split: if_splits)
  have "rm_maps (sh_mem sh) (sq_ptr_mapped r) = Some (unat (sq_mapped_size r))"
    using ds R(1) by (auto simp: m_def m'_def)
  from munmap_ok [OF M this, of "''munmap(sq_ring)''"] obtain sh1 where
    1: "munmap_asserted env (sq_ptr_mapped r) (sq_mapped_size r) ''munmap(sq_ring)'' sh = Inr sh1"
      "rm_maps (sh_mem sh1) = (rm_maps (sh_mem sh))(sq_ptr_mapped r := None)" "sh_ops sh1 = sh_ops sh"
      "same_view v (sh_world sh) (sh_world sh1)" by blast
  have "\<exists>sh2. (if cq_ptr_mapped r \<noteq> 0 then munmap_asserted env (cq_ptr_mapped r) (cq_mapped_size r) ''munmap(cq_ring)'' sh1
        else Inr sh1) = Inr sh2 \<and> rm_maps (sh_mem sh2) = before(sqe_ptr_mapped r := Some (unat (sqe_mapped_size r)))
      \<and> sh_ops sh2 = sh_ops sh \<and> same_view v (sh_world sh) (sh_world sh2)"
  proof (cases "cq_ptr_mapped r = 0")
    case True
    then show ?thesis using 1 R(1,2) ds by (auto simp: m_def m'_def fun_eq_iff)
  next
    case False
    have "rm_maps (sh_mem sh1) (cq_ptr_mapped r) = Some (unat (cq_mapped_size r))"
      using ds(2) [OF False] R(1) 1(2) False by (auto simp: m'_def)
    from munmap_ok [OF M this, of "''munmap(cq_ring)''"] obtain sh2 where
      2: "munmap_asserted env (cq_ptr_mapped r) (cq_mapped_size r) ''munmap(cq_ring)'' sh1 = Inr sh2"
        "rm_maps (sh_mem sh2) = (rm_maps (sh_mem sh1))(cq_ptr_mapped r := None)" "sh_ops sh2 = sh_ops sh1"
        "same_view v (sh_world sh1) (sh_world sh2)" by blast
    have "before (cq_ptr_mapped r) = None" using R(4) False ds(2) [OF False] by (simp add: m_def)
    then have "rm_maps (sh_mem sh2) = before(sqe_ptr_mapped r := Some (unat (sqe_mapped_size r)))"
      using 1(2) 2(2) R(1,2) False ds(2) [OF False] ds(1) by (auto simp: m_def m'_def fun_eq_iff)
    then show ?thesis using 1 2 False same_view_trans by force
  qed
  then obtain sh2 where 2: "(if cq_ptr_mapped r \<noteq> 0 then munmap_asserted env (cq_ptr_mapped r) (cq_mapped_size r) ''munmap(cq_ring)'' sh1
        else Inr sh1) = Inr sh2" "rm_maps (sh_mem sh2) = before(sqe_ptr_mapped r := Some (unat (sqe_mapped_size r)))"
      "sh_ops sh2 = sh_ops sh" "same_view v (sh_world sh) (sh_world sh2)" by blast
  have "rm_maps (sh_mem sh2) (sqe_ptr_mapped r) = Some (unat (sqe_mapped_size r))" using 2(2) by simp
  from munmap_ok [OF M this, of "''munmap(sqe_array)''"] obtain sh3 where
    3: "munmap_asserted env (sqe_ptr_mapped r) (sqe_mapped_size r) ''munmap(sqe_array)'' sh2 = Inr sh3"
      "rm_maps (sh_mem sh3) = (rm_maps (sh_mem sh2))(sqe_ptr_mapped r := None)" "sh_ops sh3 = sh_ops sh2"
      "same_view v (sh_world sh2) (sh_world sh3)" by blast
  have b: "rm_maps (sh_mem sh3) = before"
    using 2(2) 3(2) R(3) by (auto simp: m_def m'_def fun_eq_iff split: if_splits)
  have sv: "same_view v (sh_world sh) (sh_world sh3)" using 2(4) 3(4) by (rule same_view_trans)
  obtain rc w where c: "e_close env (iou_ring_fd r) (sh_world sh3) = (rc, w)" by force
  have "rc = 0" using C(2) fd sv c unfolding close_reliable_def same_view_def by (metis fst_conv)
  then have "iou_free env r sh = Inr (zero_iou\<lparr>iou_ring_fd := - 1\<rparr>, sh3\<lparr>sh_world := w\<rparr>)"
    unfolding iou_free_def 1(1) bindE_Inr 2(1) 3(1) c by simp
  then show ?thesis
    using \<open>rc = 0\<close> C(1) [unfolded close_spec_def, rule_format, OF c] sv b 2(3) 3(3)
    by (simp add: ring_released_def same_view_def)
qed

subsection \<open>Claims\<close>

text \<open>C39: Whatever parameters the kernel returns, \<open>iou_create\<close> exits or yields a ring all of whose
  words and slots, for every index below the kernel's entry counts, lie inside the mappings it
  made, no two sharing a byte, and each at the offset the kernel gave, over a mapping of the right
  area, whether one mapping serves both rings or two do. The sizes computed in 32 bits do not
  wrap, and the descriptor of the ring is fresh.\<close>

theorem create_maps_whole_ring:
  assumes "setup_ring_spec env v" "mmap_spec env v" "region_spec env reg"
  shows "safeE (\<lambda>(r, sh'). let p = snd (snd (fst (e_uring_setup env k (iou_config_params poll) sh))) in
       iou_configuration r = p
     \<and> ring_layout r (unat (sq_entries p)) (unat (cq_entries p)) (rm_maps (sh_mem sh'))
     \<and> (\<exists>a b d. ring_placed p a b d r \<and> reg sh' a = Some IORING_OFF_SQ_RING
          \<and> reg sh' b = Some (if features p AND IORING_FEAT_SINGLE_MMAP \<noteq> 0 then IORING_OFF_SQ_RING else IORING_OFF_CQ_RING)
          \<and> reg sh' d = Some IORING_OFF_SQES)
     \<and> iou_ring_size r = k \<and> iou_ring_fd r \<notin> kv_open v (sh_world sh)
     \<and> kv_open v (sh_world sh') = insert (iou_ring_fd r) (kv_open v (sh_world sh)))
     (iou_create env k poll sh)"
proof (rule safeE_mono [OF create_safe [OF assms(1,2), where sh = sh and k = k and poll = poll]], clarify)
  fix r sh' er p sh1
  assume 1: "e_uring_setup env k (iou_config_params poll) sh = ((iou_ring_fd r, er, p), sh1)"
    and o: "opened v (sh_world sh) (iou_ring_fd r) (sh_world sh1)" and R: "rings_mapped env v (iou_ring_fd r) p k sh1 r sh'"
  obtain a b d where P: "ring_placed p a b d r" "regions_at env p a b d sh'" using R by (auto simp: rings_mapped_def)
  note G = P(2) [unfolded regions_at_def single_map_def, rule_format, OF assms(3)]
  show "let p = snd (snd (fst (e_uring_setup env k (iou_config_params poll) sh))) in
       iou_configuration r = p
     \<and> ring_layout r (unat (sq_entries p)) (unat (cq_entries p)) (rm_maps (sh_mem sh'))
     \<and> (\<exists>a b d. ring_placed p a b d r \<and> reg sh' a = Some IORING_OFF_SQ_RING
          \<and> reg sh' b = Some (if features p AND IORING_FEAT_SINGLE_MMAP \<noteq> 0 then IORING_OFF_SQ_RING else IORING_OFF_CQ_RING)
          \<and> reg sh' d = Some IORING_OFF_SQES)
     \<and> iou_ring_size r = k \<and> iou_ring_fd r \<notin> kv_open v (sh_world sh)
     \<and> kv_open v (sh_world sh') = insert (iou_ring_fd r) (kv_open v (sh_world sh))"
    unfolding Let_def 1 fst_conv snd_conv
  proof (intro conjI exI)
    show "ring_placed p a b d r" by (rule P(1))
    show "reg sh' a = Some IORING_OFF_SQ_RING" "reg sh' d = Some IORING_OFF_SQES"
      "reg sh' b = Some (if features p AND IORING_FEAT_SINGLE_MMAP \<noteq> 0 then IORING_OFF_SQ_RING else IORING_OFF_CQ_RING)"
      using G by blast+
  qed (use R o in \<open>simp_all add: rings_mapped_def opened_def same_view_def\<close>)
qed

text \<open>C40: Freeing a ring gives back what creating it took: with the sizes the structure recorded
  every munmap and the close succeed, no mapping and no descriptor remains, and the structure
  is invalidated.\<close>

theorem create_free_roundtrip:
  assumes "setup_ring_spec env v" "mmap_spec env v" "munmap_spec env v" "close_spec env v" "close_reliable env v"
  shows "safeE (\<lambda>(r, sh1). okE (\<lambda>(r', sh2). iou_ring_fd r' = - 1 \<and> sq_ptr_mapped r' = 0
       \<and> rm_maps (sh_mem sh2) = rm_maps (sh_mem sh) \<and> kv_open v (sh_world sh2) = kv_open v (sh_world sh))
     (iou_free env r sh1)) (iou_create env k poll sh)"
proof (rule safeE_mono [OF create_safe [OF assms(1,2), where sh = sh and k = k and poll = poll]], clarify)
  fix r sh1 p sh0
  assume o: "opened v (sh_world sh) (iou_ring_fd r) (sh_world sh0)" and m: "rm_maps (sh_mem sh0) = rm_maps (sh_mem sh)"
    and R: "rings_mapped env v (iou_ring_fd r) p k sh0 r sh1"
  have fd: "iou_ring_fd r \<in> kv_open v (sh_world sh1)" using o R by (auto simp: opened_def rings_mapped_def same_view_def)
  have rec: "maps_recorded r (rm_maps (sh_mem sh0)) (rm_maps (sh_mem sh1))" using R by (simp add: rings_mapped_def)
  show "okE (\<lambda>(r', sh2). iou_ring_fd r' = - 1 \<and> sq_ptr_mapped r' = 0
       \<and> rm_maps (sh_mem sh2) = rm_maps (sh_mem sh) \<and> kv_open v (sh_world sh2) = kv_open v (sh_world sh)) (iou_free env r sh1)"
    by (rule okE_mono [OF free_ok [OF assms(3-5) rec fd]])
      (use o R m in \<open>auto simp: ring_released_def opened_def rings_mapped_def same_view_def zero_iou_def\<close>)
qed

end
