(* ===== verification/MemTracker.thy ===== *)
theory MemTracker
  imports DList
begin

text \<open>
  The memory tracker of code/c/server/io_uring/io_uring_server_utils.c: a doubly linked list of
  nodes, one for each operation object allocated for a client, and its interpretation as a list
  that grows at the back and from which any node can be taken.
\<close>

record mt_node =
  mt_allocated_op :: ptr
  mt_next :: ptr
  mt_prev :: ptr

text \<open>The tracker and the heap its nodes live on.\<close>

record mem_tracker =
  mt_head :: ptr
  mt_tail :: ptr
  mt_nodes :: "mt_node heap"

definition mem_t_create :: "mt_node heap \<Rightarrow> mem_tracker" where
  "mem_t_create h = \<lparr>mt_head = None, mt_tail = None, mt_nodes = h\<rparr>"

definition mem_t_push_back :: "nat \<Rightarrow> mem_tracker \<Rightarrow> mem_tracker res" where
  "mem_t_push_back node t =
     (if mt_head t = None
      then bindE (hupd (Some node) (\<lambda>n. n\<lparr>mt_next := None, mt_prev := None\<rparr>) (mt_nodes t)) (\<lambda>h.
           Inr (t\<lparr>mt_head := Some node, mt_tail := Some node, mt_nodes := h\<rparr>))
      else bindE (hupd (Some node) (\<lambda>n. n\<lparr>mt_prev := mt_tail t\<rparr>) (mt_nodes t)) (\<lambda>h.
           bindE (hupd (Some node) (\<lambda>n. n\<lparr>mt_next := None\<rparr>) h) (\<lambda>h.
           bindE (hupd (mt_tail t) (\<lambda>n. n\<lparr>mt_next := Some node\<rparr>) h) (\<lambda>h.
           Inr (t\<lparr>mt_tail := Some node, mt_nodes := h\<rparr>)))))"

definition mem_t_remove_node :: "nat \<Rightarrow> mem_tracker \<Rightarrow> mem_tracker res" where
  "mem_t_remove_node node t =
     bindE (hget (Some node) (mt_nodes t)) (\<lambda>n.
     bindE (if mt_next n \<noteq> None
            then hupd (mt_next n) (\<lambda>m. m\<lparr>mt_prev := mt_prev n\<rparr>) (mt_nodes t)
            else Inr (mt_nodes t)) (\<lambda>h.
     bindE (hget (Some node) h) (\<lambda>n.
     bindE (if mt_prev n \<noteq> None
            then hupd (mt_prev n) (\<lambda>m. m\<lparr>mt_next := mt_next n\<rparr>) h
            else Inr h) (\<lambda>h.
     bindE (hget (Some node) h) (\<lambda>n.
     let hd' = (if Some node = mt_head t then mt_next n else mt_head t);
         tl' = (if Some node = mt_tail t then mt_prev n else mt_tail t)
     in bindE (hupd (Some node) (\<lambda>n. n\<lparr>mt_next := None, mt_prev := None\<rparr>) h) (\<lambda>h.
        Inr (t\<lparr>mt_head := hd', mt_tail := tl', mt_nodes := h\<rparr>)))))))"

subsection \<open>The list a tracker spells\<close>

definition mn :: "mem_tracker \<Rightarrow> nat \<Rightarrow> ptr" where
  "mn t a = (case cells (mt_nodes t) a of None \<Rightarrow> None | Some n \<Rightarrow> mt_next n)"

definition mp :: "mem_tracker \<Rightarrow> nat \<Rightarrow> ptr" where
  "mp t a = (case cells (mt_nodes t) a of None \<Rightarrow> None | Some n \<Rightarrow> mt_prev n)"

text \<open>\<open>f\<close>: which nodes are allocated, and the operation object of each.\<close>

definition node_ops :: "mem_tracker \<Rightarrow> nat \<Rightarrow> ptr option" where
  "node_ops t a = map_option mt_allocated_op (cells (mt_nodes t) a)"

definition tracks :: "(nat \<Rightarrow> ptr option) \<Rightarrow> mem_tracker \<Rightarrow> nat list \<Rightarrow> bool" where
  "tracks f t xs \<longleftrightarrow> dlist (mn t) (mp t) (mt_head t) (mt_tail t) xs \<and> node_ops t = f
     \<and> (\<forall>a \<in> set xs. f a \<noteq> None)"

definition node_allocated :: "nat \<Rightarrow> mem_tracker \<Rightarrow> bool" where
  "node_allocated a t \<longleftrightarrow> cells (mt_nodes t) a \<noteq> None"

lemma node_ops_alloc: "node_ops t = f \<Longrightarrow> node_allocated a t \<longleftrightarrow> f a \<noteq> None"
  by (auto simp: node_ops_def node_allocated_def)

lemma first_or_mem: "first_or xs None = Some a \<Longrightarrow> a \<in> set xs"
  by (cases xs) auto

lemma last_or_mem: "last_or None xs = Some a \<Longrightarrow> a \<in> set xs"
  by (auto simp: last_or_def split: if_splits)

lemma tracks_node: "tracks f t xs \<Longrightarrow> a \<in> set xs \<Longrightarrow> \<exists>n. cells (mt_nodes t) a = Some n"
  unfolding tracks_def node_ops_def by fastforce

lemma push_back_tracks:
  assumes T: "tracks f t xs" and a: "a \<notin> set xs" "node_allocated a t"
  shows "okE (\<lambda>t'. tracks f t' (xs @ [a])) (mem_t_push_back a t)"
proof -
  have D: "dlist (mn t) (mp t) (mt_head t) (mt_tail t) xs" and f: "node_ops t = f"
    and al: "\<forall>a \<in> set xs. f a \<noteq> None" using T by (auto simp: tracks_def)
  note A = dlist_append [OF D a(1)]
  have fa: "f a \<noteq> None" using a(2) node_ops_alloc [OF f] by simp
  obtain n where n: "cells (mt_nodes t) a = Some n" using a(2) by (auto simp: node_allocated_def)
  show ?thesis
  proof (cases xs)
    case Nil
    then have h: "mt_head t = None" "mt_tail t = None" using D by (simp_all add: dlist_def)
    let ?t = "t\<lparr>mt_head := Some a, mt_tail := Some a,
        mt_nodes := (mt_nodes t)\<lparr>cells := (cells (mt_nodes t))(a := Some (n\<lparr>mt_next := None, mt_prev := None\<rparr>))\<rparr>\<rparr>"
    have "dlist (mn ?t) (mp ?t) (Some a) (Some a) [a]"
      by (simp add: dlist_def mn_def mp_def)
    moreover have "node_ops ?t = f" unfolding f [symmetric] using n by (simp add: node_ops_def fun_eq_iff)
    ultimately show ?thesis using h n fa by (simp add: mem_t_push_back_def tracks_def Nil)
  next
    case (Cons x ys)
    then have h: "mt_head t = Some x" and tl: "mt_tail t = Some (last xs)"
      using D by (simp_all add: dlist_def last_or_def)
    obtain l where l: "cells (mt_nodes t) (last xs) = Some l"
      using tracks_node [OF T] Cons by (metis last_in_set list.distinct(1))
    have ne: "last xs \<noteq> a" using a(1) Cons last_in_set by (metis list.distinct(1))
    let ?h = "(mt_nodes t)\<lparr>cells := (cells (mt_nodes t))(a := Some (n\<lparr>mt_prev := Some (last xs), mt_next := None\<rparr>),
        last xs := Some (l\<lparr>mt_next := Some a\<rparr>))\<rparr>"
    let ?t = "t\<lparr>mt_tail := Some a, mt_nodes := ?h\<rparr>"
    have "mem_t_push_back a t = Inr ?t"
      using h tl n l ne by (simp add: mem_t_push_back_def)
    moreover have "dlist (mn ?t) (mp ?t) (mt_head ?t) (mt_tail ?t) (xs @ [a])"
    proof -
      have "mn ?t = (upd (mn t) (mt_tail t) (Some a))(a := None)" "mp ?t = (mp t)(a := mt_tail t)"
        using tl n l ne by (auto simp: mn_def mp_def fun_eq_iff)
      then show ?thesis using A h by simp
    qed
    moreover have "node_ops ?t = f"
      unfolding f [symmetric] using n l by (simp add: node_ops_def fun_eq_iff)
    ultimately show ?thesis using al fa by (simp add: tracks_def)
  qed
qed

lemma remove_node_tracks:
  assumes T: "tracks f t xs" and a: "a \<in> set xs"
  shows "okE (\<lambda>t'. tracks f t' (remove1 a xs)) (mem_t_remove_node a t)"
proof -
  obtain as bs where xs: "xs = as @ a # bs" using a by (meson split_list)
  have D: "dlist (mn t) (mp t) (mt_head t) (mt_tail t) (as @ a # bs)" and f: "node_ops t = f"
    and al: "\<forall>a \<in> set xs. f a \<noteq> None" using T xs by (auto simp: tracks_def)
  note U = dlist_unlink [OF D]
  have dist: "distinct (as @ a # bs)" using D by (simp add: dlist_def)
  obtain n where n: "cells (mt_nodes t) a = Some n" using tracks_node [OF T a] by blast
  have ln: "mn t a = mt_next n" "mp t a = mt_prev n" using n by (simp_all add: mn_def mp_def)
  let ?h1 = "case mt_next n of None \<Rightarrow> mt_nodes t | Some b \<Rightarrow>
      (mt_nodes t)\<lparr>cells := (cells (mt_nodes t))(b := map_option (\<lambda>m. m\<lparr>mt_prev := mt_prev n\<rparr>) (cells (mt_nodes t) b))\<rparr>"
  let ?h2 = "case mt_prev n of None \<Rightarrow> ?h1 | Some b \<Rightarrow>
      ?h1\<lparr>cells := (cells ?h1)(b := map_option (\<lambda>m. m\<lparr>mt_next := mt_next n\<rparr>) (cells ?h1 b))\<rparr>"
  let ?h3 = "?h2\<lparr>cells := (cells ?h2)(a := Some (n\<lparr>mt_next := None, mt_prev := None\<rparr>))\<rparr>"
  have nin: "mt_next n = Some b \<Longrightarrow> b \<in> set bs" for b using U(1) ln first_or_mem [of bs b] by simp
  have pin: "mt_prev n = Some b \<Longrightarrow> b \<in> set as" for b using U(2) ln last_or_mem [of as b] by simp
  have na: "mt_next n \<noteq> Some a" "mt_prev n \<noteq> Some a" using nin pin dist by auto
  have np: "mt_next n = Some b \<Longrightarrow> mt_prev n = Some d \<Longrightarrow> b \<noteq> d" for b d
    using nin pin dist by auto
  have nal: "mt_next n = Some b \<Longrightarrow> \<exists>d. cells (mt_nodes t) b = Some d" for b
    using nin tracks_node [OF T] xs by simp
  have pal: "mt_prev n = Some b \<Longrightarrow> \<exists>d. cells (mt_nodes t) b = Some d" for b
    using pin tracks_node [OF T] xs by simp
  let ?t = "t\<lparr>mt_head := (if Some a = mt_head t then mt_next n else mt_head t),
      mt_tail := (if Some a = mt_tail t then mt_prev n else mt_tail t), mt_nodes := ?h3\<rparr>"
  have r: "mem_t_remove_node a t = Inr ?t"
    using n na nal pal np
    by (cases "mt_next n"; cases "mt_prev n") (fastforce simp: mem_t_remove_node_def hupd_def Let_def)+
  have nx: "mn ?t b = upd (mn t) (mp t a) (mn t a) b" and pv: "mp ?t b = upd (mp t) (mn t a) (mp t a) b"
    if "b \<noteq> a" for b
    using that na nal pal np unfolding ln
    by (cases "mt_next n"; cases "mt_prev n"; fastforce simp: mn_def mp_def)+
  have rem: "remove1 a xs = as @ bs" using dist xs by (simp add: remove1_append)
  have ops: "node_ops ?t = f"
    unfolding f [symmetric] using n nal pal
    by (cases "mt_next n"; cases "mt_prev n") (fastforce simp: node_ops_def fun_eq_iff)+
  have ends: "mt_head ?t = (if mt_head t = Some a then mn t a else mt_head t)"
    "mt_tail ?t = (if mt_tail t = Some a then mp t a else mt_tail t)"
    by (simp_all add: ln eq_commute)
  define t' where "t' = ?t"
  have "dlist (mn t') (mp t') (mt_head t') (mt_tail t') (as @ bs)
      = dlist (upd (mn t) (mp t a) (mn t a)) (upd (mp t) (mn t a) (mp t a)) (mt_head t') (mt_tail t') (as @ bs)"
  proof (rule dlist_cong)
    fix x assume "x \<in> set (as @ bs)"
    then have "x \<noteq> a" using dist by auto
    then show "mn t' x = upd (mn t) (mp t a) (mn t a) x \<and> mp t' x = upd (mp t) (mn t a) (mp t a) x"
      using nx pv unfolding t'_def [symmetric] by blast
  qed
  then have "dlist (mn t') (mp t') (mt_head t') (mt_tail t') (as @ bs)"
    using U(3) ends unfolding t'_def [symmetric] by simp
  then have "tracks f t' (remove1 a xs)"
    using ops al xs unfolding tracks_def rem t'_def [symmetric] by auto
  then have "tracks f ?t (remove1 a xs)" unfolding t'_def .
  with r show ?thesis by simp
qed

lemma hupd_next: "hupd p f h = Inr h' \<Longrightarrow> next_addr h' = next_addr h"
  by (cases p) (auto simp: hupd_def bindE_eq_Inr split: option.splits)

lemma remove_node_next: "mem_t_remove_node a t = Inr t' \<Longrightarrow> next_addr (mt_nodes t') = next_addr (mt_nodes t)"
  unfolding mem_t_remove_node_def Let_def bindE_eq_Inr
  by (elim exE conjE) (auto dest!: hupd_next split: if_splits)

lemma push_back_next: "mem_t_push_back a t = Inr t' \<Longrightarrow> next_addr (mt_nodes t') = next_addr (mt_nodes t)"
  unfolding mem_t_push_back_def
  by (cases "mt_head t = None") (auto simp: bindE_eq_Inr dest!: hupd_next)

interpretation tracker: growing_list "tracks f" mem_t_remove_node node_allocated mem_t_push_back for f
proof (unfold_locales, goal_cases)
  case (1 t xs a)
  then show ?case by (rule remove_node_tracks)
next
  case (2 t xs)
  then show ?case by (simp add: tracks_def dlist_def)
next
  case (3 t xs a)
  have "node_ops t = f" using 3(1) by (simp add: tracks_def)
  then show ?case
    by (intro okE_mono [OF push_back_tracks [OF 3]]) (auto simp: tracks_def node_ops_alloc)
next
  case (4 t xs a)
  have "node_ops t = f" using 4(1) by (simp add: tracks_def)
  then show ?case
    by (intro okE_mono [OF remove_node_tracks [OF 4]]) (auto simp: tracks_def node_ops_alloc)
qed

end
