(* ===== verification/UringServer.thy ===== *)
theory UringServer
  imports IoUring MemTracker ServerUtils ServerBench
begin

text \<open>
  code/c/server/io_uring/main.c: the echo server over io_uring. The state is the file's global
  variables (the benchmark and the tracker with its nodes), the global \<open>server_running\<close> and
  what is shared with the kernel: the rings, the operation objects and the world. The two
  operation objects on the stack of \<open>service_loop\<close> live on the heap of operation objects too.
\<close>

unbundle bit_operations_syntax

record 'w iou_state =
  ibench :: server_bench
  itracker :: mem_tracker
  irunning :: int
  ishared :: "'w ushared"

text \<open>\<open>IO_URING_RING_SIZE\<close> and \<open>IO_URING_RUN_IN_KERNEL_POLL_MODE\<close>.\<close>

record iou_build =
  IO_URING_RING_SIZE :: "32 word"
  IO_URING_RUN_IN_KERNEL_POLL_MODE :: bool

definition set_world :: "'w \<Rightarrow> 'w iou_state \<Rightarrow> 'w iou_state" where
  "set_world w s = s\<lparr>ishared := (ishared s)\<lparr>sh_world := w\<rparr>\<rparr>"

definition set_ops :: "iou_op heap \<Rightarrow> 'w iou_state \<Rightarrow> 'w iou_state" where
  "set_ops h s = s\<lparr>ishared := (ishared s)\<lparr>sh_ops := h\<rparr>\<rparr>"

abbreviation iworld :: "'w iou_state \<Rightarrow> 'w" where "iworld s \<equiv> sh_world (ishared s)"
abbreviation iops :: "'w iou_state \<Rightarrow> iou_op heap" where "iops s \<equiv> sh_ops (ishared s)"

definition with_ibench :: "config \<Rightarrow> (server_bench \<times> 'w \<Rightarrow> server_bench \<times> 'w) \<Rightarrow> 'w iou_state \<Rightarrow> 'w iou_state" where
  "with_ibench cfg f s =
     (if DO_BENCH cfg
      then (case f (ibench s, iworld s) of (b, w) \<Rightarrow> set_world w (s\<lparr>ibench := b\<rparr>))
      else s)"

text \<open>\<open>sizeof\<close> of a tracker node and of an operation object: the tag, the union in whole words, a pointer.\<close>

definition sizeof_node :: nat where "sizeof_node = 24"

definition sizeof_iou_op :: "config \<Rightarrow> nat" where
  "sizeof_iou_op cfg = 16 + (max 24 (if latency_on cfg
     then (12 + DEFAULT_SERVER_BUFFER_SIZE cfg + 7) div 8 * 8 + 16
     else 12 + DEFAULT_SERVER_BUFFER_SIZE cfg) + 7) div 8 * 8"

text \<open>An assignment to a member of \<open>info_con\<close>, and one to the tag.\<close>

definition con_upd :: "nat \<Rightarrow> (client_con \<Rightarrow> client_con) \<Rightarrow> 'w iou_state \<Rightarrow> 'w iou_state res" where
  "con_upd a f s = bindE (hget (Some a) (iops s)) (\<lambda>o'. bindE (info_con o') (\<lambda>c.
     bindE (hset (Some a) (o'\<lparr>op_info := InfoCon (f c)\<rparr>) (iops s)) (\<lambda>h. Inr (set_ops h s))))"

definition type_upd :: "nat \<Rightarrow> io_operation_types \<Rightarrow> 'w iou_state \<Rightarrow> 'w iou_state res" where
  "type_upd a t s = bindE (hupd (Some a) (\<lambda>o'. o'\<lparr>op_type := t\<rparr>) (iops s)) (\<lambda>h. Inr (set_ops h s))"

text \<open>\<open>iou_config_and_submit\<close> and the assertion each caller makes on its result.\<close>

definition submit_asserted ::
    "('w, 'x) uring_env_scheme \<Rightarrow> iou \<Rightarrow> nat \<Rightarrow> string \<Rightarrow> 'w iou_state \<Rightarrow> 'w iou_state res" where
  "submit_asserted env r a msg s =
     bindE (iou_config_and_submit env r a (ishared s)) (\<lambda>(rc, sh).
     bindE (io_uring_assert_zero rc msg) (\<lambda>_. Inr (s\<lparr>ishared := sh\<rparr>)))"

subsection \<open>Helpers of the handlers\<close>

definition handle_new_client ::
    "config \<Rightarrow> ('w, 'x) uring_env_scheme \<Rightarrow> iou \<Rightarrow> int \<Rightarrow> 'w iou_state \<Rightarrow> 'w iou_state res" where
  "handle_new_client cfg env r socket s =
     (case e_malloc env sizeof_node (iworld s) of (mem, w) \<Rightarrow>
     bindE (assert_nnull mem ''calloc tracker'') (\<lambda>_.
     case halloc \<lparr>mt_allocated_op = None, mt_next = None, mt_prev = None\<rparr> (mt_nodes (itracker s)) of (tracker, nodes) \<Rightarrow>
     case e_malloc env (sizeof_iou_op cfg) w of (mem, w) \<Rightarrow>
     bindE (assert_nnull mem ''calloc client_op'') (\<lambda>_.
     case halloc \<lparr>op_type = ACCEPTED_CONNECTION,
           op_info = InfoCon \<lparr>con_fd = socket, con_busy = 0, con_buf_send_len = 0,
             con_buf = replicate (DEFAULT_SERVER_BUFFER_SIZE cfg) 0, con_bench_start_send = zero_ts\<rparr>,
           op_mem_tracker = Some tracker\<rparr> (iops s) of (client_op, ops) \<Rightarrow>
     bindE (hupd (Some tracker) (\<lambda>n. n\<lparr>mt_allocated_op := Some client_op\<rparr>) nodes) (\<lambda>nodes.
     bindE (mem_t_push_back tracker ((itracker s)\<lparr>mt_nodes := nodes\<rparr>)) (\<lambda>t.
     bindE (type_upd client_op RECV_FROM_CLIENT (set_ops ops (set_world w (s\<lparr>itracker := t\<rparr>)))) (\<lambda>s.
     bindE (con_upd client_op (\<lambda>c. c\<lparr>con_busy := 1\<rparr>) s) (\<lambda>s.
     bindE (submit_asserted env r client_op ''iou_config_and_submit(recv_req)'' s) (\<lambda>s.
     if DO_BENCH cfg
     then bindE (sb_client_connected (ibench s)) (\<lambda>b. Inr (s\<lparr>ibench := b\<rparr>))
     else Inr s))))))))"

definition prep_close_client_req ::
    "('w, 'x) uring_env_scheme \<Rightarrow> iou \<Rightarrow> nat \<Rightarrow> 'w iou_state \<Rightarrow> (int \<times> 'w iou_state) res" where
  "prep_close_client_req env r op s =
     bindE (type_upd op CLOSE_CONNECTION s) (\<lambda>s.
     bindE (submit_asserted env r op ''iou_config_and_submit(close_req)'' s) (\<lambda>s. Inr (1, s)))"

definition handle_closing_client :: "nat \<Rightarrow> 'w iou_state \<Rightarrow> 'w iou_state res" where
  "handle_closing_client op s =
     bindE (hget (Some op) (iops s)) (\<lambda>o'.
     case op_mem_tracker o' of
       None \<Rightarrow> Inl (UB NullDeref)
     | Some tracker \<Rightarrow>
         bindE (mem_t_remove_node tracker (itracker s)) (\<lambda>t.
         bindE (hfree (Some tracker) (mt_nodes t)) (\<lambda>nodes.
         bindE (hfree (Some op) (iops s)) (\<lambda>ops.
         Inr (set_ops ops (s\<lparr>itracker := t\<lparr>mt_nodes := nodes\<rparr>\<rparr>))))))"

subsection \<open>The handlers of completions\<close>

definition handle_cqe_accept ::
    "config \<Rightarrow> ('w, 'x) uring_env_scheme \<Rightarrow> iou \<Rightarrow> nat \<Rightarrow> int \<Rightarrow> 'w iou_state \<Rightarrow> (int \<times> 'w iou_state) res" where
  "handle_cqe_accept cfg env r accept_req result s =
     bindE (io_uring_assert_nonn result ''CQE accept'') (\<lambda>_.
     bindE (handle_new_client cfg env r result s) (\<lambda>s.
     bindE (submit_asserted env r accept_req ''iou_config_and_submit(accept_req)'' s) (\<lambda>s. Inr (2, s))))"

definition handle_cqe_close :: "nat \<Rightarrow> int \<Rightarrow> 'w iou_state \<Rightarrow> (int \<times> 'w iou_state) res" where
  "handle_cqe_close close_req result s =
     bindE (io_uring_assert_zero result ''CQE close'') (\<lambda>_.
     bindE (con_upd close_req (\<lambda>c. c\<lparr>con_fd := - 1\<rparr>) s) (\<lambda>s.
     bindE (handle_closing_client close_req s) (\<lambda>s. Inr (0, s))))"

definition handle_cqe_recv ::
    "config \<Rightarrow> ('w, 'x) uring_env_scheme \<Rightarrow> iou \<Rightarrow> nat \<Rightarrow> int \<Rightarrow> 'w iou_state \<Rightarrow> (int \<times> 'w iou_state) res" where
  "handle_cqe_recv cfg env r recv_req result s =
     bindE (con_upd recv_req (\<lambda>c. c\<lparr>con_busy := 0\<rparr>) s) (\<lambda>s.
     bindE (io_uring_assert_nonn result ''CQE recv'') (\<lambda>_.
     let read_bytes = (word_of_int result :: 32 word) in
     if read_bytes = 0 then prep_close_client_req env r recv_req s
     else if DEFAULT_BUFFER_SIZE cfg < unat read_bytes then Inl (ExitFailure ''recv: got more than expected'')
     else if unat read_bytes < DEFAULT_BUFFER_SIZE cfg then Inl (ExitFailure ''recv: got less than expected'')
     else bindE (if latency_on cfg
                 then (case now_monotonic (e_clock env) (iworld s) of (t, w) \<Rightarrow>
                   con_upd recv_req (\<lambda>c. c\<lparr>con_bench_start_send := t\<rparr>) (set_world w s))
                 else Inr s) (\<lambda>s.
          bindE (type_upd recv_req SEND_TO_CLIENT s) (\<lambda>s.
          bindE (con_upd recv_req (\<lambda>c. c\<lparr>con_buf_send_len := read_bytes, con_busy := 1\<rparr>) s) (\<lambda>s.
          bindE (submit_asserted env r recv_req ''iou_config_and_submit(send_req)'' s) (\<lambda>s. Inr (1, s)))))))"

definition handle_cqe_send ::
    "config \<Rightarrow> ('w, 'x) uring_env_scheme \<Rightarrow> iou \<Rightarrow> nat \<Rightarrow> int \<Rightarrow> 'w iou_state \<Rightarrow> (int \<times> 'w iou_state) res" where
  "handle_cqe_send cfg env r send_req result s =
     bindE (con_upd send_req (\<lambda>c. c\<lparr>con_busy := 0\<rparr>) s) (\<lambda>s.
     bindE (io_uring_assert_nonn result ''CQE send'') (\<lambda>_.
     let sent_bytes = (word_of_int result :: 32 word) in
     if unat sent_bytes < DEFAULT_BUFFER_SIZE cfg then Inl (ExitFailure ''send: less than expected'')
     else bindE (if latency_on cfg
                 then (case now_monotonic (e_clock env) (iworld s) of (t, w) \<Rightarrow>
                   bindE (hget (Some send_req) (iops s)) (\<lambda>o'. bindE (info_con o') (\<lambda>c.
                   bindE (sb_record_event (e_clock env) (con_bench_start_send c) t (ibench s, w)) (\<lambda>(b, w).
                   Inr (set_world w (s\<lparr>ibench := b\<rparr>))))))
                 else Inr s) (\<lambda>s.
          bindE (type_upd send_req RECV_FROM_CLIENT s) (\<lambda>s.
          bindE (con_upd send_req (\<lambda>c. c\<lparr>con_busy := 1\<rparr>) s) (\<lambda>s.
          bindE (submit_asserted env r send_req ''iou_config_and_submit(recv_req)'' s) (\<lambda>s. Inr (1, s)))))))"

definition handle_cqe_timer ::
    "config \<Rightarrow> ('w, 'x) env_scheme \<Rightarrow> int \<Rightarrow> 'w iou_state \<Rightarrow> (int \<times> 'w iou_state) res" where
  "handle_cqe_timer cfg env result s =
     bindE (io_uring_assert (result = - ETIME) ''CQE timer'') (\<lambda>_.
     Inr (0, with_ibench cfg (sb_start (e_clock env)) s))"

definition service_cqe_events ::
    "config \<Rightarrow> ('w, 'x) uring_env_scheme \<Rightarrow> iou \<Rightarrow> io_uring_cqe \<Rightarrow> 'w iou_state \<Rightarrow> (int \<times> 'w iou_state) res" where
  "service_cqe_events cfg env r cqe s =
     (let s = (if DO_BENCH cfg then s\<lparr>ibench := sb_requests_performed (ibench s) 1\<rparr> else s)
      in bindE (hget (cqe_user_data cqe) (iops s)) (\<lambda>o'.
         let op = the (cqe_user_data cqe) in
         case op_type o' of
           ACCEPTED_CONNECTION \<Rightarrow> handle_cqe_accept cfg env r op (cqe_res cqe) s
         | CLOSE_CONNECTION \<Rightarrow> handle_cqe_close op (cqe_res cqe) s
         | RECV_FROM_CLIENT \<Rightarrow> handle_cqe_recv cfg env r op (cqe_res cqe) s
         | SEND_TO_CLIENT \<Rightarrow> handle_cqe_send cfg env r op (cqe_res cqe) s
         | TIMER_EXPIRED \<Rightarrow> handle_cqe_timer cfg env (cqe_res cqe) s))"

subsection \<open>The service loop\<close>

definition create_signal_masks :: "('w, 'x) env_scheme \<Rightarrow> 'w \<Rightarrow> 'w res" where
  "create_signal_masks env w =
     (case e_sigprocmask env False w of (rc, w) \<Rightarrow>
      bindE (assert_zero rc ''sigprocmask get orig_mask'') (\<lambda>_.
      case e_sigemptyset env w of (rc, w) \<Rightarrow>
      bindE (assert_zero rc ''sigemptyset'') (\<lambda>_.
      case e_sigaddset_usr1 env w of (rc, w) \<Rightarrow>
      bindE (assert_zero rc ''sigaddset'') (\<lambda>_. Inr w))))"

text \<open>Assigning to \<open>info_accept\<close> or \<open>info_timer\<close> makes it the member the union holds.\<close>

definition create_accept_sqe ::
    "('w, 'x) uring_env_scheme \<Rightarrow> iou \<Rightarrow> nat \<Rightarrow> int \<Rightarrow> 'w iou_state \<Rightarrow> (int \<times> 'w iou_state) res" where
  "create_accept_sqe env r accept_req listening_socket s =
     bindE (hget (Some accept_req) (iops s)) (\<lambda>o'.
     bindE (info_accept o') (\<lambda>i.
     bindE (hset (Some accept_req) (o'\<lparr>op_type := ACCEPTED_CONNECTION,
        op_info := InfoAccept (i\<lparr>acc_fd := listening_socket, acc_addrlen := 16\<rparr>)\<rparr>) (iops s)) (\<lambda>h.
     bindE (submit_asserted env r accept_req ''iou_config_and_submit(accept_req)'' (set_ops h s)) (\<lambda>s.
     Inr (1, s)))))"

definition create_timer_sqe ::
    "('w, 'x) uring_env_scheme \<Rightarrow> iou \<Rightarrow> nat \<Rightarrow> 'w iou_state \<Rightarrow> (int \<times> 'w iou_state) res" where
  "create_timer_sqe env r timer_req s =
     bindE (hupd (Some timer_req) (\<lambda>o'. o'\<lparr>op_type := TIMER_EXPIRED,
        op_info := InfoTimer \<lparr>tv_sec = 10, tv_nsec = 0\<rparr>\<rparr>) (iops s)) (\<lambda>h.
     bindE (submit_asserted env r timer_req ''iou_config_and_submit(timer_req)'' (set_ops h s)) (\<lambda>s.
     Inr (1, s)))"

text \<open>An operation object on the stack, \<open>{ .mem_tracker = NULL }\<close>.\<close>

definition stack_op :: "'w iou_state \<Rightarrow> nat \<times> 'w iou_state" where
  "stack_op s = (case halloc \<lparr>op_type = ACCEPTED_CONNECTION,
     op_info = InfoAccept \<lparr>acc_fd = 0, acc_addr = replicate 16 0, acc_addrlen = 0\<rparr>,
     op_mem_tracker = None\<rparr> (iops s) of (a, h) \<Rightarrow> (a, set_ops h s))"

text \<open>\<open>service_loop\<close> up to its loop: the ring, the operation objects on the stack and \<open>io_events_to_submit\<close>.\<close>

definition iservice_loop_init ::
    "config \<Rightarrow> iou_build \<Rightarrow> ('w, 'x) uring_env_scheme \<Rightarrow> int \<Rightarrow> 'w iou_state
     \<Rightarrow> (iou \<times> nat list \<times> int \<times> 'w iou_state) res" where
  "iservice_loop_init cfg bld env ls s =
     bindE (iou_create env (IO_URING_RING_SIZE bld) (IO_URING_RUN_IN_KERNEL_POLL_MODE bld) (ishared s)) (\<lambda>(r, sh).
     case stack_op (s\<lparr>ishared := sh\<rparr>) of (accept_req, s) \<Rightarrow>
     bindE (create_accept_sqe env r accept_req ls s) (\<lambda>(k, s).
     bindE (if DO_BENCH cfg
            then (case stack_op s of (timer_req, s) \<Rightarrow>
              bindE (create_timer_sqe env r timer_req s) (\<lambda>(l, s). Inr ([accept_req, timer_req], k + l, s)))
            else Inr ([accept_req], k, s)) (\<lambda>(stack, io_events_to_submit, s).
     bindE (create_signal_masks env (iworld s)) (\<lambda>w.
     bindE (if \<not> IO_URING_RUN_IN_KERNEL_POLL_MODE bld
            then (case e_sigprocmask env True w of (rc, w) \<Rightarrow> bindE (assert_zero rc ''sigprocmask'') (\<lambda>_. Inr w))
            else Inr w) (\<lambda>w. Inr (r, stack, io_events_to_submit, set_world w s))))))"

definition got_signal :: "bool \<Rightarrow> 'w iou_state \<Rightarrow> 'w iou_state" where
  "got_signal sig s = (if sig then s\<lparr>irunning := stop_server_signal_handler (irunning s)\<rparr> else s)"

text \<open>One iteration of \<open>while (server_running)\<close>.\<close>

definition iou_round ::
    "config \<Rightarrow> ('w, 'x) uring_env_scheme \<Rightarrow> iou \<Rightarrow> int \<times> 'w iou_state \<Rightarrow> (int \<times> 'w iou_state) res" where
  "iou_round cfg env r = (\<lambda>(io_events_to_submit, s).
     bindE (iou_get_cqe env r (ishared s)) (\<lambda>(cqe, sh).
     let s = s\<lparr>ishared := sh\<rparr> in
     case cqe of
       None \<Rightarrow> bindE (iou_enter_or_wake env r (word_of_int io_events_to_submit) (ishared s)) (\<lambda>(sig, sh).
         Inr (0, got_signal sig (s\<lparr>ishared := sh\<rparr>)))
     | Some cqe \<Rightarrow> bindE (service_cqe_events cfg env r cqe s) (\<lambda>(k, s).
         bindE (c_int (io_events_to_submit + k)) (\<lambda>n. Inr (n, s)))))"

text \<open>In kernel poll mode the signal is not blocked; it takes effect where the loop tests
  \<open>server_running\<close>.\<close>

definition signal_point ::
    "iou_build \<Rightarrow> ('w, 'x) uring_env_scheme \<Rightarrow> 'w iou_state \<Rightarrow> 'w iou_state" where
  "signal_point bld env s =
     (if IO_URING_RUN_IN_KERNEL_POLL_MODE bld
      then (case e_signal env (iworld s) of (sig, w) \<Rightarrow> got_signal sig (set_world w s))
      else s)"

fun iou_loop ::
    "nat \<Rightarrow> config \<Rightarrow> iou_build \<Rightarrow> ('w, 'x) uring_env_scheme \<Rightarrow> iou \<Rightarrow> int \<times> 'w iou_state
     \<Rightarrow> (int \<times> 'w iou_state) res option" where
  "iou_loop n cfg bld env r ks =
     (let s = signal_point bld env (snd ks)
      in if irunning s = 0 then Some (Inr (fst ks, s))
         else case n of 0 \<Rightarrow> None | Suc n \<Rightarrow>
           (case iou_round cfg env r (fst ks, s) of
              Inl e \<Rightarrow> Some (Inl e)
            | Inr ks \<Rightarrow> iou_loop n cfg bld env r ks))"

declare iou_loop.simps [simp del]

subsection \<open>Cleanup and main\<close>

text \<open>The \<open>while (tracker)\<close> of the cleanup, at most \<open>n\<close> times around.\<close>

primrec close_tracked ::
    "nat \<Rightarrow> ('w, 'x) env_scheme \<Rightarrow> ptr \<Rightarrow> 'w iou_state \<Rightarrow> 'w iou_state res option" where
  "close_tracked 0 env p s = (if p = None then Some (Inr s) else None)"
| "close_tracked (Suc n) env p s =
     (case p of None \<Rightarrow> Some (Inr s)
      | Some t \<Rightarrow> (case bindE (hget (Some t) (mt_nodes (itracker s))) (\<lambda>node.
            bindE (hget (mt_allocated_op node) (iops s)) (\<lambda>o'.
            bindE (info_con o') (\<lambda>c.
            case e_close env (con_fd c) (iworld s) of (rc, w) \<Rightarrow>
            bindE (assert_zero rc ''close(client_socket)'') (\<lambda>_.
            bindE (hfree (mt_allocated_op node) (iops s)) (\<lambda>ops.
            bindE (hfree (Some t) (mt_nodes (itracker s))) (\<lambda>nodes.
            Inr (mt_next node, set_ops ops (set_world w (s\<lparr>itracker := (itracker s)\<lparr>mt_nodes := nodes\<rparr>\<rparr>)))))))))
          of Inl e \<Rightarrow> Some (Inl e)
           | Inr (next, s) \<Rightarrow> close_tracked n env next s))"

definition ido_service_loop_cleanup ::
    "nat \<Rightarrow> ('w, 'x) uring_env_scheme \<Rightarrow> iou \<Rightarrow> 'w iou_state \<Rightarrow> 'w iou_state res option" where
  "ido_service_loop_cleanup n env r s =
     (let tracker = mt_head (itracker s)
      in case iou_free env r (ishared s) of
           Inl e \<Rightarrow> Some (Inl e)
         | Inr (_, sh) \<Rightarrow> map_option (\<lambda>res. bindE res (\<lambda>s.
             Inr (s\<lparr>itracker := (itracker s)\<lparr>mt_head := None, mt_tail := None\<rparr>\<rparr>)))
             (close_tracked n env tracker (s\<lparr>ishared := sh\<rparr>)))"

definition ido_exit_cleanup :: "config \<Rightarrow> ('w, 'x) env_scheme \<Rightarrow> int \<Rightarrow> 'w iou_state \<Rightarrow> 'w iou_state res" where
  "ido_exit_cleanup cfg env ls s =
     (case e_close env ls (iworld s) of (rc, w) \<Rightarrow>
      bindE (assert_zero rc ''close'') (\<lambda>_.
      let s = set_world w s in
      Inr (if DO_BENCH cfg then s\<lparr>ibench := sb_free (ibench s)\<rparr> else s)))"

text \<open>The end of the lifetime of the operation objects on the stack.\<close>

primrec end_stack_ops :: "nat list \<Rightarrow> 'w iou_state \<Rightarrow> 'w iou_state res" where
  "end_stack_ops [] s = Inr s"
| "end_stack_ops (a # as) s = bindE (hfree (Some a) (iops s)) (\<lambda>h. end_stack_ops as (set_ops h s))"

definition iservice_loop ::
    "nat \<Rightarrow> config \<Rightarrow> iou_build \<Rightarrow> ('w, 'x) uring_env_scheme \<Rightarrow> 'f option \<Rightarrow> int \<Rightarrow> 'w iou_state
     \<Rightarrow> (string option \<times> 'w iou_state) res option" where
  "iservice_loop n cfg bld env fopen ls s =
     (case iservice_loop_init cfg bld env ls s of
        Inl e \<Rightarrow> Some (Inl e)
      | Inr (r, stack, k, s) \<Rightarrow> (case iou_loop n cfg bld env r (k, s) of
          None \<Rightarrow> None
        | Some (Inl e) \<Rightarrow> Some (Inl e)
        | Some (Inr (_, s)) \<Rightarrow>
            (let s = with_ibench cfg (sb_stop (e_clock env)) s
             in case (if DO_BENCH cfg then sb_save_bench fopen (ibench s) else Inr None) of
                  Inl e \<Rightarrow> Some (Inl e)
                | Inr file \<Rightarrow> map_option (\<lambda>res. bindE res (\<lambda>s. bindE (end_stack_ops stack s) (\<lambda>s. Inr (file, s))))
                    (ido_service_loop_cleanup n env r s))))"

definition iou_server_setup ::
    "config \<Rightarrow> ('w, 'x) uring_env_scheme \<Rightarrow> (nat \<Rightarrow> byte list option) \<Rightarrow> 16 word \<Rightarrow> ring_mem \<Rightarrow> 'w
     \<Rightarrow> (int \<times> 'w iou_state) res" where
  "iou_server_setup cfg env malloc port m w =
     bindE (if DO_BENCH cfg then sb_create malloc BENCH_EXPECTED_MESSAGES
            else Inr \<lparr>do_measure = 0, client_no = 0, request_no = 0, meas_start_time = zero_ts,
              meas_end_time = zero_ts, event_latency = \<lparr>mc_entry_size = 0, mc_capacity = 0,
              mc_size = 0, mc_ptr = None\<rparr>\<rparr>) (\<lambda>b.
     bindE (register_signal_handler env w) (\<lambda>w.
     bindE (create_ipv4_listening_socket env port w) (\<lambda>(ls, w).
     Inr (ls, \<lparr>ibench = b, itracker = mem_t_create empty_heap, irunning = 1,
       ishared = \<lparr>sh_mem = m, sh_ops = empty_heap, sh_world = w\<rparr>\<rparr>))))"

definition iou_main ::
    "nat \<Rightarrow> config \<Rightarrow> iou_build \<Rightarrow> ('w, 'x) uring_env_scheme \<Rightarrow> (nat \<Rightarrow> byte list option) \<Rightarrow> 'f option
     \<Rightarrow> 16 word \<Rightarrow> ring_mem \<Rightarrow> 'w \<Rightarrow> (string option \<times> 'w iou_state) res option" where
  "iou_main n cfg bld env malloc fopen port m w =
     (case iou_server_setup cfg env malloc port m w of
        Inl e \<Rightarrow> Some (Inl e)
      | Inr (ls, s) \<Rightarrow> (case iservice_loop n cfg bld env fopen ls s of
          None \<Rightarrow> None
        | Some res \<Rightarrow> Some (bindE res (\<lambda>(file, s).
            bindE (ido_exit_cleanup cfg env ls s) (\<lambda>s. Inr (file, s))))))"

end
