(* ===== verification/UringOwnership.thy ===== *)
theory UringOwnership
  imports UringKernel "HOL-Library.Multiset"
begin

text \<open>
  Who owns what while requests travel: the invariant \<open>kinv\<close> of the requests in the submission
  ring, in the kernel and in the completion ring, relative to the set of operation objects that
  are outstanding and to the descriptors owned outside; every kernel step keeps it, submitting
  hands an object over and taking a completion hands it back.
\<close>

subsection \<open>Operations waiting and completed\<close>

text \<open>What holds of an operation whose request the kernel has not completed: its descriptor is open
  and the bytes read from it have been written back, but for those in the buffer to send (a
  message, which is a pointer shorter than the buffer of \<open>d\<close> bytes).\<close>

definition op_waiting :: "'w kview \<Rightarrow> nat \<Rightarrow> 'w \<Rightarrow> iou_op \<Rightarrow> bool" where
  "op_waiting v d w o' \<longleftrightarrow> tag_fits o' \<and> (case op_info o' of
     InfoCon c \<Rightarrow> length (con_buf c) = d \<and> clock_ts (con_bench_start_send c) \<and> con_fd c \<in> kv_open v w
       \<and> (if op_type o' = SEND_TO_CLIENT
          then unat (con_buf_send_len c) + 8 \<le> d
            \<and> kv_in v w (con_fd c) = kv_out v w (con_fd c) @ take (unat (con_buf_send_len c)) (con_buf c)
          else kv_in v w (con_fd c) = kv_out v w (con_fd c))
   | _ \<Rightarrow> True)"

text \<open>What holds of an operation completed with \<open>rc\<close>.\<close>

definition op_done :: "'w kview \<Rightarrow> nat \<Rightarrow> 'w \<Rightarrow> iou_op \<Rightarrow> int \<Rightarrow> bool" where
  "op_done v d w o' rc \<longleftrightarrow> tag_fits o' \<and> (case op_info o' of
     InfoCon c \<Rightarrow> length (con_buf c) = d \<and> clock_ts (con_bench_start_send c) \<and> (case op_type o' of
         CLOSE_CONNECTION \<Rightarrow> rc \<noteq> 0 \<longrightarrow> con_fd c \<in> kv_open v w
       | SEND_TO_CLIENT \<Rightarrow> con_fd c \<in> kv_open v w \<and> unat (con_buf_send_len c) + 8 \<le> d
           \<and> nat rc \<le> unat (con_buf_send_len c)
           \<and> kv_in v w (con_fd c) = kv_out v w (con_fd c) @ drop (nat rc) (take (unat (con_buf_send_len c)) (con_buf c))
       | _ \<Rightarrow> con_fd c \<in> kv_open v w \<and> nat rc \<le> d
           \<and> kv_in v w (con_fd c) = kv_out v w (con_fd c) @ take (nat rc) (con_buf c))
   | InfoAccept _ \<Rightarrow> 0 \<le> rc \<longrightarrow> rc \<in> kv_open v w \<and> kv_in v w rc = [] \<and> kv_out v w rc = []
   | InfoTimer _ \<Rightarrow> True)"

text \<open>The descriptors that belong to a request, and to a completed operation.\<close>

definition own_w :: "io_uring_sqe \<Rightarrow> int list" where
  "own_w e = (if sqe_opcode e \<in> {IORING_OP_CLOSE, IORING_OP_SEND, IORING_OP_RECV} then [sqe_fd e] else [])"

definition own_d :: "iou_op \<Rightarrow> int \<Rightarrow> int list" where
  "own_d o' rc = (case op_info o' of
     InfoCon c \<Rightarrow> if op_type o' = CLOSE_CONNECTION \<and> rc = 0 then [] else [con_fd c]
   | InfoAccept _ \<Rightarrow> if 0 \<le> rc then [rc] else []
   | InfoTimer _ \<Rightarrow> [])"

definition own_c :: "iou_op heap \<Rightarrow> io_uring_cqe \<Rightarrow> int list" where
  "own_c ops c = (case cqe_user_data c of None \<Rightarrow> [] | Some a \<Rightarrow>
     (case cells ops a of None \<Rightarrow> [] | Some o' \<Rightarrow> own_d o' (cqe_res c)))"

text \<open>What the kernel never changes of an object.\<close>

definition op_shape :: "iou_op \<Rightarrow> io_operation_types \<times> ptr \<times> int option" where
  "op_shape o' = (op_type o', op_mem_tracker o', case op_info o' of InfoCon c \<Rightarrow> Some (con_fd c) | _ \<Rightarrow> None)"

lemmas request_simps = request_def iou_prep_sqe_def info_accept_def info_con_def info_timer_def
  iou_prep_accept_sqe_def iou_prep_close_sqe_def iou_prep_recv_sqe_def iou_prep_send_sqe_def
  iou_prep_timer_sqe_def zero_sqe_def

text \<open>Requests of the five kinds.\<close>

lemma tag_fits_cases:
  assumes "tag_fits o'"
  obtains (accept) i where "op_type o' = ACCEPTED_CONNECTION" "op_info o' = InfoAccept i"
  | (timer) t where "op_type o' = TIMER_EXPIRED" "op_info o' = InfoTimer t"
  | (recv) c where "op_type o' = RECV_FROM_CLIENT" "op_info o' = InfoCon c"
  | (send) c where "op_type o' = SEND_TO_CLIENT" "op_info o' = InfoCon c"
  | (close) c where "op_type o' = CLOSE_CONNECTION" "op_info o' = InfoCon c"
  using assms by (cases "op_info o'") (auto simp: tag_fits_def)

lemma own_w_request: "tag_fits o' \<Longrightarrow>
    own_w (request a o') = (case op_info o' of InfoCon c \<Rightarrow> [con_fd c] | _ \<Rightarrow> [])"
  by (erule tag_fits_cases) (auto simp: own_w_def request_simps)

lemma own_d_le1: "length (own_d o' rc) \<le> 1"
  by (simp add: own_d_def split: op_info.splits)

lemma own_w_open: "op_waiting v d w o' \<Longrightarrow> set (own_w (request a o')) \<subseteq> kv_open v w"
  by (auto simp: op_waiting_def own_w_request split: op_info.splits)

lemma own_d_open: "op_done v d w o' rc \<Longrightarrow> set (own_d o' rc) \<subseteq> kv_open v w"
  by (auto simp: op_done_def own_d_def split: op_info.splits io_operation_types.splits)

text \<open>Only the owned descriptors matter.\<close>

definition same_fds :: "'w kview \<Rightarrow> int set \<Rightarrow> 'w \<Rightarrow> 'w \<Rightarrow> bool" where
  "same_fds v F w w' \<longleftrightarrow> (\<forall>fd \<in> F. fd \<in> kv_open v w \<longrightarrow> fd \<in> kv_open v w' \<and> kv_in v w' fd = kv_in v w fd
     \<and> kv_out v w' fd = kv_out v w fd)"

lemma same_fds_mono: "same_fds v F w w' \<Longrightarrow> G \<subseteq> F \<Longrightarrow> same_fds v G w w'"
  by (auto simp: same_fds_def)

lemma same_fds_trans: "same_fds v F w w1 \<Longrightarrow> same_fds v F w1 w2 \<Longrightarrow> same_fds v F w w2"
  by (auto simp: same_fds_def)

lemma same_view_fds: "same_view v w w' \<Longrightarrow> same_fds v F w w'"
  by (simp add: same_view_def same_fds_def)

lemma op_waiting_frame:
  "op_waiting v d w o' \<Longrightarrow> same_fds v (set (own_w (request a o'))) w w' \<Longrightarrow> op_waiting v d w' o'"
  by (auto simp: op_waiting_def same_fds_def own_w_request split: op_info.splits if_splits)

lemma op_done_frame:
  assumes "op_done v d w o' rc" "same_fds v (set (own_d o' rc)) w w'"
  shows "op_done v d w' o' rc"
proof -
  have "tag_fits o'" using assms(1) by (simp add: op_done_def)
  then show ?thesis
    by (cases rule: tag_fits_cases) (use assms in \<open>auto simp: op_done_def same_fds_def own_d_def\<close>)
qed

subsection \<open>Completing a request\<close>

lemma k_write_buf_cells [simp]:
  "b \<noteq> a \<Longrightarrow> cells (k_write_buf a bs ops) b = cells ops b"
  "b \<noteq> a \<Longrightarrow> cells (k_write_addr a bs l ops) b = cells ops b"
  by (auto simp: k_write_buf_def k_write_addr_def split: option.splits op_info.splits)

lemma k_write_shape:
  "map_option op_shape (cells (k_write_buf a bs ops) b) = map_option op_shape (cells ops b)"
  "map_option op_shape (cells (k_write_addr a bs l ops) b) = map_option op_shape (cells ops b)"
  by (auto simp: k_write_buf_def k_write_addr_def op_shape_def split: option.splits op_info.splits)

lemma k_write_heap_ok:
  "heap_ok ops \<Longrightarrow> heap_ok (k_write_buf a bs ops)" "heap_ok ops \<Longrightarrow> heap_ok (k_write_addr a bs l ops)"
  by (auto simp: k_write_buf_def k_write_addr_def heap_ok_def split: option.splits op_info.splits)

text \<open>The effect of completing \<open>request a o'\<close>: the object may get data, and its descriptor passes
  from the request to the completion.\<close>

definition completed ::
    "'w kview \<Rightarrow> nat \<Rightarrow> nat \<Rightarrow> iou_op \<Rightarrow> int \<Rightarrow> iou_op heap \<times> 'w \<Rightarrow> iou_op heap \<times> 'w \<Rightarrow> bool" where
  "completed v d a o' rc = (\<lambda>(ops, w) (ops', w').
     heap_ok ops' \<and> (\<forall>b. b \<noteq> a \<longrightarrow> cells ops' b = cells ops b)
     \<and> (\<forall>b. map_option op_shape (cells ops' b) = map_option op_shape (cells ops b))
     \<and> (\<exists>o2. cells ops' a = Some o2 \<and> op_done v d w' o2 rc
         \<and> kv_open v w' = (kv_open v w - set (own_w (request a o'))) \<union> set (own_d o2 rc)
         \<and> set (own_d o2 rc) \<inter> (kv_open v w - set (own_w (request a o'))) = {})
     \<and> same_fds v (kv_open v w - set (own_w (request a o'))) w w')"

lemma completed_same:
  assumes "heap_ok ops" "cells ops a = Some o'" "op_done v d w o' rc" "same_view v w w'"
    and "set (own_d o' rc) = set (own_w (request a o'))"
  shows "completed v d a o' rc (ops, w) (ops, w')"
proof -
  have "op_done v d w' o' rc" using assms(3,4) by (intro op_done_frame [OF assms(3)] same_view_fds)
  moreover have "set (own_w (request a o')) \<subseteq> kv_open v w" using own_d_open [OF assms(3)] assms(5) by simp
  ultimately show ?thesis
    using assms by (auto simp: completed_def same_view_def same_fds_def)
qed

lemma k_effect_completed:
  assumes W: "op_waiting v d w o'" and ok: "heap_ok ops" and cell: "cells ops a = Some o'"
    and d: "d < 2 ^ 32" and E: "k_effect v (request a o') rc (ops, w) (ops', w')"
  shows "completed v d a o' rc (ops, w) (ops', w')"
proof -
  have T: "tag_fits o'" using W by (simp add: op_waiting_def)
  then show ?thesis
  proof (cases rule: tag_fits_cases)
    case (accept i)
    show ?thesis
    proof (cases "rc < 0")
      case True
      then show ?thesis using E accept ok cell T
        by (auto intro!: completed_same simp: k_effect_def request_simps own_d_def own_w_def op_done_def)
    next
      case False
      have "opened v w rc w'" and h: "ops' = ops \<or> (\<exists>bs l. ops' = k_write_addr a bs l ops)"
        using E accept False by (auto simp: k_effect_def request_simps)
      then have o: "rc \<notin> kv_open v w" "kv_open v w' = insert rc (kv_open v w)"
        "kv_in v w' = (kv_in v w)(rc := [])" "kv_out v w' = (kv_out v w)(rc := [])" by (auto simp: opened_def)
      have "\<exists>i2. cells ops' a = Some (o'\<lparr>op_info := InfoAccept i2\<rparr>)"
        using h
      proof
        assume "ops' = ops"
        moreover have "o'\<lparr>op_info := InfoAccept i\<rparr> = o'" using accept by simp
        ultimately show ?thesis using cell by metis
      qed (use cell accept in \<open>auto simp: k_write_addr_def\<close>)
      then obtain i2 where c: "cells ops' a = Some (o'\<lparr>op_info := InfoAccept i2\<rparr>)" by blast
      have "heap_ok ops'" "\<forall>b. b \<noteq> a \<longrightarrow> cells ops' b = cells ops b"
        "\<forall>b. map_option op_shape (cells ops' b) = map_option op_shape (cells ops b)"
        using h ok k_write_shape(2) k_write_heap_ok(2) by auto
      moreover have "own_w (request a o') = []" using accept T by (simp add: own_w_request)
      ultimately show ?thesis
        using c o False accept by (auto simp: completed_def op_done_def own_d_def tag_fits_def same_fds_def)
    qed
  next
    case (timer t)
    then show ?thesis using E ok cell T
      by (auto intro!: completed_same simp: k_effect_def request_simps own_d_def own_w_def op_done_def)
  next
    case (close c)
    then have fd: "own_w (request a o') = [con_fd c]" using T by (simp add: own_w_request)
    have "ops' = ops" "kv_in v w' = kv_in v w" "kv_out v w' = kv_out v w" "con_fd c \<in> kv_open v w"
      "kv_open v w' = (if rc = 0 then kv_open v w - {con_fd c} else kv_open v w)"
      using E close W by (auto simp: k_effect_def request_simps op_waiting_def)
    then show ?thesis
      using ok cell fd close W T by (auto simp: completed_def op_done_def own_d_def op_waiting_def same_fds_def)
  next
    case (recv c)
    then have fd: "own_w (request a o') = [con_fd c]" using T by (simp add: own_w_request)
    show ?thesis
    proof (cases "rc \<le> 0")
      case True
      then show ?thesis using E recv ok cell T W fd
        by (auto intro!: completed_same simp: k_effect_def request_simps own_d_def op_done_def op_waiting_def)
    next
      case False
      have len: "unat (sqe_len (request a o')) = d"
        using recv W d by (simp add: request_simps op_waiting_def unsigned_of_nat take_bit_nat_eq_self)
      obtain bs where b: "length bs = nat rc" "kv_in v w' = (kv_in v w)(con_fd c := kv_in v w (con_fd c) @ bs)"
          "ops' = k_write_buf a bs ops" "kv_open v w' = kv_open v w" "kv_out v w' = kv_out v w" "nat rc \<le> d"
        using E recv False len by (auto simp: k_effect_def request_simps)
      have w: "length (con_buf c) = d" "clock_ts (con_bench_start_send c)" "con_fd c \<in> kv_open v w"
        "kv_in v w (con_fd c) = kv_out v w (con_fd c)"
        using W recv by (auto simp: op_waiting_def)
      have c2: "cells ops' a = Some (o'\<lparr>op_info := InfoCon (c\<lparr>con_buf := bs @ drop (length bs) (con_buf c)\<rparr>)\<rparr>)"
        using b(3) cell recv by (simp add: k_write_buf_def)
      have "heap_ok ops'" "\<forall>b. b \<noteq> a \<longrightarrow> cells ops' b = cells ops b"
        "\<forall>b. map_option op_shape (cells ops' b) = map_option op_shape (cells ops b)"
        using b(3) ok k_write_shape(1) k_write_heap_ok(1) by auto
      then show ?thesis
        using b w c2 fd recv by (auto simp: completed_def op_done_def own_d_def tag_fits_def same_fds_def)
    qed
  next
    case (send c)
    then have fd: "own_w (request a o') = [con_fd c]" using T by (simp add: own_w_request)
    have w: "length (con_buf c) = d" "con_fd c \<in> kv_open v w" "unat (con_buf_send_len c) + 8 \<le> d"
      "kv_in v w (con_fd c) = kv_out v w (con_fd c) @ take (unat (con_buf_send_len c)) (con_buf c)"
      "clock_ts (con_bench_start_send c)"
      using W send by (auto simp: op_waiting_def)
    show ?thesis
    proof (cases "rc \<le> 0")
      case True
      then show ?thesis using E send ok cell T w fd
        by (auto intro!: completed_same simp: k_effect_def request_simps own_d_def op_done_def)
    next
      case False
      have n: "nat rc \<le> unat (con_buf_send_len c)" using E send False by (auto simp: k_effect_def request_simps)
      obtain bs where b: "length bs = nat rc" "kv_out v w' = (kv_out v w)(con_fd c := kv_out v w (con_fd c) @ bs)"
          "ops' = ops" "kv_open v w' = kv_open v w" "kv_in v w' = kv_in v w" "bs = take (nat rc) (con_buf c)"
        using E send False cell n w by (auto simp: k_effect_def request_simps)
      have sp: "take (unat (con_buf_send_len c)) (con_buf c)
          = take (nat rc) (con_buf c) @ drop (nat rc) (take (unat (con_buf_send_len c)) (con_buf c))"
      proof -
        have "take (nat rc) (take (unat (con_buf_send_len c)) (con_buf c)) = take (nat rc) (con_buf c)"
          using n by (simp add: min_def)
        then show ?thesis
          using append_take_drop_id [of "nat rc" "take (unat (con_buf_send_len c)) (con_buf c)"] by argo
      qed
      have "kv_in v w' (con_fd c) = kv_out v w' (con_fd c) @ drop (nat rc) (take (unat (con_buf_send_len c)) (con_buf c))"
        unfolding b(2,5,6) fun_upd_same append_assoc sp [symmetric] by (rule w(4))
      then have dn: "op_done v d w' o' rc"
        using w n b(4) T send by (simp add: op_done_def)
      have "own_d o' rc = [con_fd c]" using send by (simp add: own_d_def)
      moreover have "same_fds v (kv_open v w - {con_fd c}) w w'"
        using b(2,4,5) by (simp add: same_fds_def)
      ultimately show ?thesis
        using dn b(3,4) w(2) ok cell fd by (auto simp: completed_def)
    qed
  qed
qed

subsection \<open>The invariant of the travelling requests\<close>

definition waiting :: "'w uview \<Rightarrow> iou \<Rightarrow> 'w ushared \<Rightarrow> io_uring_sqe list" where
  "waiting u r sh = sq_list r (sh_mem sh) @ uv_flight u (sh_world sh)"

definition outstanding :: "'w uview \<Rightarrow> iou \<Rightarrow> 'w ushared \<Rightarrow> ptr list" where
  "outstanding u r sh = map sqe_user_data (waiting u r sh) @ map cqe_user_data (cq_list r (sh_mem sh))"

definition owned :: "'w uview \<Rightarrow> iou \<Rightarrow> 'w ushared \<Rightarrow> int list" where
  "owned u r sh = concat (map own_w (waiting u r sh)) @ concat (map (own_c (sh_ops sh)) (cq_list r (sh_mem sh)))"

definition waiting_ok :: "'w uview \<Rightarrow> nat \<Rightarrow> 'w ushared \<Rightarrow> io_uring_sqe \<Rightarrow> bool" where
  "waiting_ok u d sh e \<longleftrightarrow> (\<exists>a o'. cells (sh_ops sh) a = Some o' \<and> e = request a o' \<and> op_waiting (uv_view u) d (sh_world sh) o')"

definition done_ok :: "'w uview \<Rightarrow> nat \<Rightarrow> 'w ushared \<Rightarrow> io_uring_cqe \<Rightarrow> bool" where
  "done_ok u d sh c \<longleftrightarrow> (\<exists>a o'. cqe_user_data c = Some a \<and> cells (sh_ops sh) a = Some o'
     \<and> op_done (uv_view u) d (sh_world sh) o' (cqe_res c))"

text \<open>\<open>Os\<close>: the operation objects outstanding, each exactly once; \<open>B\<close>: the descriptors owned by
  nobody among them.\<close>

definition kinv :: "'w uview \<Rightarrow> iou \<Rightarrow> nat \<Rightarrow> nat \<Rightarrow> nat \<Rightarrow> nat set \<Rightarrow> int set \<Rightarrow> 'w ushared \<Rightarrow> bool" where
  "kinv u r n cn d Os B sh \<longleftrightarrow> ring_ok r n cn (sh_mem sh) \<and> heap_ok (sh_ops sh)
     \<and> distinct (outstanding u r sh) \<and> set (outstanding u r sh) = Some ` Os
     \<and> (\<forall>e \<in> set (waiting u r sh). waiting_ok u d sh e)
     \<and> (\<forall>c \<in> set (cq_list r (sh_mem sh)). done_ok u d sh c)
     \<and> distinct (owned u r sh) \<and> set (owned u r sh) \<inter> B = {}
     \<and> kv_open (uv_view u) (sh_world sh) = B \<union> set (owned u r sh)"

lemma kinvD:
  assumes "kinv u r n cn d Os B sh"
  shows "ring_ok r n cn (sh_mem sh)" "heap_ok (sh_ops sh)" "distinct (outstanding u r sh)"
    "set (outstanding u r sh) = Some ` Os" "e \<in> set (waiting u r sh) \<Longrightarrow> waiting_ok u d sh e"
    "c \<in> set (cq_list r (sh_mem sh)) \<Longrightarrow> done_ok u d sh c" "distinct (owned u r sh)"
    "set (owned u r sh) \<inter> B = {}" "kv_open (uv_view u) (sh_world sh) = B \<union> set (owned u r sh)"
  using assms unfolding kinv_def by blast+

text \<open>What kernel activity leaves alone: the objects not outstanding, what the objects are, the
  descriptors outside, and the sequence of requests submitted.\<close>

definition submitted :: "'w uview \<Rightarrow> iou \<Rightarrow> 'w ushared \<Rightarrow> io_uring_sqe list" where
  "submitted u r sh = uv_taken u (sh_world sh) @ sq_list r (sh_mem sh)"

definition kframe :: "'w uview \<Rightarrow> iou \<Rightarrow> nat set \<Rightarrow> int set \<Rightarrow> 'w ushared \<Rightarrow> 'w ushared \<Rightarrow> bool" where
  "kframe u r Os B sh sh' \<longleftrightarrow> (\<forall>a. a \<notin> Os \<longrightarrow> cells (sh_ops sh') a = cells (sh_ops sh) a)
     \<and> (\<forall>a. map_option op_shape (cells (sh_ops sh') a) = map_option op_shape (cells (sh_ops sh) a))
     \<and> same_fds (uv_view u) B (sh_world sh) (sh_world sh') \<and> B \<subseteq> kv_open (uv_view u) (sh_world sh')
     \<and> submitted u r sh' = submitted u r sh"

lemma kframe_refl: "B \<subseteq> kv_open (uv_view u) (sh_world sh) \<Longrightarrow> kframe u r Os B sh sh"
  by (simp add: kframe_def same_fds_def)

lemma kframe_trans: "kframe u r Os B sh sh1 \<Longrightarrow> kframe u r Os B sh1 sh2 \<Longrightarrow> kframe u r Os B sh sh2"
  unfolding kframe_def by (auto intro: same_fds_trans)

lemma waiting_ok_frame:
  assumes "waiting_ok u d sh e" "cells (sh_ops sh') a = cells (sh_ops sh) a" "sqe_user_data e = Some a"
    and "same_fds (uv_view u) (set (own_w e)) (sh_world sh) (sh_world sh')"
  shows "waiting_ok u d sh' e"
proof -
  obtain b o' where b: "cells (sh_ops sh) b = Some o'" "e = request b o'" "op_waiting (uv_view u) d (sh_world sh) o'"
    using assms(1) by (auto simp: waiting_ok_def)
  have "b = a" using b assms(3) by (simp add: op_waiting_def)
  then show ?thesis
    using b assms(2,4) op_waiting_frame [OF b(3)] by (auto simp: waiting_ok_def)
qed

lemma done_ok_frame:
  assumes "done_ok u d sh c" "\<And>a. cqe_user_data c = Some a \<Longrightarrow> cells (sh_ops sh') a = cells (sh_ops sh) a"
    and "same_fds (uv_view u) (set (own_c (sh_ops sh) c)) (sh_world sh) (sh_world sh')"
  shows "done_ok u d sh' c" "own_c (sh_ops sh') c = own_c (sh_ops sh) c"
proof -
  obtain a o' where a: "cqe_user_data c = Some a" "cells (sh_ops sh) a = Some o'"
      "op_done (uv_view u) d (sh_world sh) o' (cqe_res c)"
    using assms(1) by (auto simp: done_ok_def)
  then have "own_c (sh_ops sh) c = own_d o' (cqe_res c)" by (simp add: own_c_def)
  then show "done_ok u d sh' c" "own_c (sh_ops sh') c = own_c (sh_ops sh) c"
    using a assms(2,3) op_done_frame [OF a(3)] by (auto simp: done_ok_def own_c_def)
qed

lemma kinv_world:
  assumes "kinv u r n cn d Os B sh" "same_uview u (sh_world sh) w"
  shows "kinv u r n cn d Os B (sh\<lparr>sh_world := w\<rparr>)" "kframe u r Os B sh (sh\<lparr>sh_world := w\<rparr>)"
proof -
  have sv: "same_view (uv_view u) (sh_world sh) w" "uv_flight u w = uv_flight u (sh_world sh)"
    "uv_taken u w = uv_taken u (sh_world sh)"
    using assms(2) by (auto simp: same_uview_def)
  have f: "same_fds (uv_view u) F (sh_world sh) w" for F by (rule same_view_fds [OF sv(1)])
  have W: "waiting u r (sh\<lparr>sh_world := w\<rparr>) = waiting u r sh" by (simp add: waiting_def sv)
  have "waiting_ok u d (sh\<lparr>sh_world := w\<rparr>) e" if "e \<in> set (waiting u r sh)" for e
    using kinvD(5) [OF assms(1) that] op_waiting_frame [OF _ f] unfolding waiting_ok_def by fastforce
  moreover have "done_ok u d (sh\<lparr>sh_world := w\<rparr>) c" if "c \<in> set (cq_list r (sh_mem sh))" for c
    using kinvD(6) [OF assms(1) that] op_done_frame [OF _ f] unfolding done_ok_def by fastforce
  ultimately show "kinv u r n cn d Os B (sh\<lparr>sh_world := w\<rparr>)"
    using assms(1) sv(1) by (simp add: kinv_def W outstanding_def owned_def same_view_def)
  show "kframe u r Os B sh (sh\<lparr>sh_world := w\<rparr>)"
    using f sv kinvD(9) [OF assms(1)] by (simp add: kframe_def submitted_def same_view_def)
qed

text \<open>A change of the ring memory that keeps the multiset of waiting requests and the completions.\<close>

lemma kinv_mem:
  assumes K: "kinv u r n cn d Os B sh" and ok: "ring_ok r n cn m"
    and w: "mset (sq_list r m @ uv_flight u w) = mset (waiting u r sh)"
    and c: "cq_list r m = cq_list r (sh_mem sh)" and sv: "same_view (uv_view u) (sh_world sh) w"
  shows "kinv u r n cn d Os B (sh\<lparr>sh_mem := m, sh_world := w\<rparr>)"
proof -
  let ?sh = "sh\<lparr>sh_mem := m, sh_world := w\<rparr>"
  have W: "waiting u r ?sh = sq_list r m @ uv_flight u w" by (simp add: waiting_def)
  have mw: "mset (waiting u r ?sh) = mset (waiting u r sh)" using w by (simp add: W)
  have sw: "set (waiting u r ?sh) = set (waiting u r sh)" using mw by (rule mset_eq_setD)
  have mo: "mset (outstanding u r ?sh) = mset (outstanding u r sh)"
    unfolding outstanding_def mset_append mset_map mw by (simp add: c)
  have "mset (concat (map own_w (waiting u r ?sh))) = mset (concat (map own_w (waiting u r sh)))"
    by (simp add: mset_concat sum_mset_sum_list [symmetric] mw)
  then have mf: "mset (owned u r ?sh) = mset (owned u r sh)" by (simp add: owned_def c)
  have f: "same_fds (uv_view u) F (sh_world sh) w" for F by (rule same_view_fds [OF sv])
  have "waiting_ok u d ?sh e" if "e \<in> set (waiting u r sh)" for e
    using kinvD(5) [OF K that] op_waiting_frame [OF _ f] unfolding waiting_ok_def by fastforce
  moreover have "done_ok u d ?sh c" if "c \<in> set (cq_list r (sh_mem sh))" for c
    using kinvD(6) [OF K that] op_done_frame [OF _ f] unfolding done_ok_def by fastforce
  moreover have "distinct (outstanding u r ?sh)" "set (outstanding u r ?sh) = Some ` Os"
    "distinct (owned u r ?sh)" "set (owned u r ?sh) = set (owned u r sh)"
    using kinvD(3,4,7) [OF K] mset_eq_imp_distinct_iff [OF mo] mset_eq_setD [OF mo]
      mset_eq_imp_distinct_iff [OF mf] mset_eq_setD [OF mf] by simp_all
  ultimately show ?thesis
    using ok sw kinvD(2,8,9) [OF K] sv c unfolding kinv_def same_view_def by simp
qed

lemma kinv_complete:
  assumes K: "kinv u r n cn d Os B sh" and d: "d < 2 ^ 32"
    and fl: "uv_flight u (sh_world sh) = xs @ e # ys" and room: "length (cq_list r (sh_mem sh)) < cn"
    and ud: "cqe_user_data c = sqe_user_data e"
    and eff: "k_effect (uv_view u) e (cqe_res c) (sh_ops sh, sh_world sh) (ops, w)"
    and fl': "uv_flight u w = xs @ ys" and tk: "uv_taken u w = uv_taken u (sh_world sh)"
  shows "kinv u r n cn d Os B (sh\<lparr>sh_mem := k_post r c (sh_mem sh), sh_ops := ops, sh_world := w\<rparr>)"
    "kframe u r Os B sh (sh\<lparr>sh_mem := k_post r c (sh_mem sh), sh_ops := ops, sh_world := w\<rparr>)"
proof -
  let ?sh = "sh\<lparr>sh_mem := k_post r c (sh_mem sh), sh_ops := ops, sh_world := w\<rparr>"
  let ?v = "uv_view u" and ?q = "sq_list r (sh_mem sh)" and ?C = "cq_list r (sh_mem sh)"
  note P = k_post_ok [OF kinvD(1) [OF K] room, of c]
  define Ws where "Ws = ?q @ xs @ ys"
  have W: "waiting u r sh = (?q @ xs) @ e # ys" and W': "waiting u r ?sh = Ws"
    by (simp_all add: waiting_def fl fl' P Ws_def)
  have setW: "set (waiting u r sh) = insert e (set Ws)" by (auto simp: W Ws_def)
  have "waiting_ok u d sh e" by (rule kinvD(5) [OF K]) (simp add: W)
  then obtain a o' where a: "cells (sh_ops sh) a = Some o'" "e = request a o'" "op_waiting ?v d (sh_world sh) o'"
    by (auto simp: waiting_ok_def)
  have uda: "sqe_user_data e = Some a" using a by (simp add: op_waiting_def)
  have "completed ?v d a o' (cqe_res c) (sh_ops sh, sh_world sh) (ops, w)"
    using k_effect_completed [OF a(3) kinvD(2) [OF K] a(1) d] eff unfolding a(2) by blast
  then obtain o2 where C: "heap_ok ops" "\<forall>b. b \<noteq> a \<longrightarrow> cells ops b = cells (sh_ops sh) b"
    "\<forall>b. map_option op_shape (cells ops b) = map_option op_shape (cells (sh_ops sh) b)"
    "cells ops a = Some o2" "op_done ?v d w o2 (cqe_res c)"
    "kv_open ?v w = (kv_open ?v (sh_world sh) - set (own_w e)) \<union> set (own_d o2 (cqe_res c))"
    "set (own_d o2 (cqe_res c)) \<inter> (kv_open ?v (sh_world sh) - set (own_w e)) = {}"
    "same_fds ?v (kv_open ?v (sh_world sh) - set (own_w e)) (sh_world sh) w"
    unfolding completed_def a(2) by auto
  define R where "R = concat (map own_w Ws) @ concat (map (own_c (sh_ops sh)) ?C)"
  have dR: "distinct R" "set R \<inter> set (own_w e) = {}" "set (owned u r sh) = set R \<union> set (own_w e)"
    using kinvD(7) [OF K] by (auto simp: R_def owned_def W Ws_def)
  have open0: "kv_open ?v (sh_world sh) = B \<union> set R \<union> set (own_w e)" using kinvD(9) [OF K] dR(3) by auto
  have Bd: "B \<inter> set R = {}" "B \<inter> set (own_w e) = {}" using kinvD(8) [OF K] dR(3) by auto
  have rest: "kv_open ?v (sh_world sh) - set (own_w e) = B \<union> set R" using open0 Bd dR(2) by auto
  have fdsR: "F \<subseteq> B \<union> set R \<Longrightarrow> same_fds ?v F (sh_world sh) w" for F
    using C(8) unfolding rest by (rule same_fds_mono)
  have dO: "distinct (map sqe_user_data Ws @ Some a # map cqe_user_data ?C)"
    using kinvD(3) [OF K] uda by (auto simp: outstanding_def W Ws_def)
  have other: "cells ops b = cells (sh_ops sh) b" if "b \<noteq> a" for b using C(2) that by blast
  have w1: "waiting_ok u d ?sh e2" if e2: "e2 \<in> set Ws" for e2
  proof -
    have k: "waiting_ok u d sh e2" using kinvD(5) [OF K] e2 setW by blast
    then obtain b o2 where b: "sqe_user_data e2 = Some b" by (auto simp: waiting_ok_def op_waiting_def)
    have ne: "b \<noteq> a" using dO e2 b by (metis Un_iff distinct.simps(2) distinct_append image_eqI list.set_map disjoint_iff list.set_intros(1))
    have "set (own_w e2) \<subseteq> B \<union> set R" using e2 by (auto simp: R_def)
    from fdsR [OF this] show ?thesis
      by (intro waiting_ok_frame [OF k _ b]) (simp_all add: other [OF ne])
  qed
  have c1: "done_ok u d ?sh c2 \<and> own_c ops c2 = own_c (sh_ops sh) c2" if c2: "c2 \<in> set ?C" for c2
  proof -
    have k: "done_ok u d sh c2" using kinvD(6) [OF K] c2 by blast
    have ne: "cqe_user_data c2 \<noteq> Some a"
      using dO c2 by (metis distinct.simps(2) distinct_append image_eqI list.set_map)
    have "set (own_c (sh_ops sh) c2) \<subseteq> B \<union> set R" using c2 by (auto simp: R_def)
    from fdsR [OF this] have f: "same_fds ?v (set (own_c (sh_ops sh) c2)) (sh_world sh) (sh_world ?sh)" by simp
    have oc: "cells (sh_ops ?sh) b = cells (sh_ops sh) b" if "cqe_user_data c2 = Some b" for b
      using other [of b] that ne by auto
    show ?thesis using done_ok_frame [OF k oc f] by simp
  qed
  have udc: "cqe_user_data c = Some a" using ud uda by simp
  have oc: "own_c ops c = own_d o2 (cqe_res c)" by (simp add: own_c_def udc C(4))
  have dc: "done_ok u d ?sh c" using C(4,5) udc by (simp add: done_ok_def)
  have Cm: "map (own_c ops) ?C = map (own_c (sh_ops sh)) ?C" using c1 by simp
  have ow: "owned u r ?sh = R @ own_d o2 (cqe_res c)"
    by (simp add: owned_def W' P R_def Cm oc)
  have out: "outstanding u r ?sh = map sqe_user_data Ws @ map cqe_user_data ?C @ [Some a]"
    by (simp add: outstanding_def W' P udc)
  have "distinct (own_d o2 (cqe_res c))" using own_d_le1 [of o2 "cqe_res c"]
    by (metis One_nat_def distinct.simps(1) distinct_singleton le_Suc_eq le_zero_eq length_0_conv length_Suc_conv)
  moreover have "set (own_d o2 (cqe_res c)) \<inter> (B \<union> set R) = {}" using C(7) unfolding rest .
  ultimately have dow: "distinct (owned u r ?sh)" "set (owned u r ?sh) \<inter> B = {}"
    unfolding ow using dR(1) Bd(1) by auto
  have opn: "kv_open ?v w = B \<union> set (owned u r ?sh)" unfolding ow C(6) rest by auto
  have so: "set (outstanding u r ?sh) = Some ` Os"
    unfolding kinvD(4) [OF K, symmetric] out by (auto simp: outstanding_def W Ws_def uda)
  show "kinv u r n cn d Os B ?sh"
    unfolding kinv_def
  proof (intro conjI ballI)
    show "ring_ok r n cn (sh_mem ?sh)" "heap_ok (sh_ops ?sh)" using P C by simp_all
    show "distinct (outstanding u r ?sh)" unfolding out using dO by auto
    show "set (outstanding u r ?sh) = Some ` Os" by (rule so)
    show "waiting_ok u d ?sh e2" if "e2 \<in> set (waiting u r ?sh)" for e2 using w1 that W' by simp
    show "done_ok u d ?sh c2" if "c2 \<in> set (cq_list r (sh_mem ?sh))" for c2
      using that c1 dc P(3) by (auto simp del: cq_list_def)
    show "distinct (owned u r ?sh)" "set (owned u r ?sh) \<inter> B = {}" by (fact dow)+
    show "kv_open ?v (sh_world ?sh) = B \<union> set (owned u r ?sh)" using opn by simp
  qed
  have aO: "a \<in> Os"
  proof -
    have "Some a \<in> set (outstanding u r ?sh)" by (simp add: out)
    then show ?thesis unfolding so by blast
  qed
  have no: "cells ops b = cells (sh_ops sh) b" if "b \<notin> Os" for b
    using that aO by (intro other) blast
  show "kframe u r Os B sh ?sh"
    using no C(3) fdsR [of B] opn tk P by (auto simp: kframe_def submitted_def)
qed

lemma kinv_step:
  assumes K: "kinv u r n cn d Os B sh" and d: "d < 2 ^ 32" and st: "kstep u r cn sh sh'"
  shows "kinv u r n cn d Os B sh' \<and> kframe u r Os B sh sh'"
  using st
proof cases
  case (k_step_take e q w)
  have ne: "sq_list r (sh_mem sh) \<noteq> []" using k_step_take by simp
  note T = k_take_ok [OF kinvD(1) [OF K] ne]
  have "kinv u r n cn d Os B (sh\<lparr>sh_mem := k_take r (sh_mem sh), sh_world := w\<rparr>)"
    using k_step_take T by (intro kinv_mem [OF K]) (auto simp: waiting_def)
  moreover have "kframe u r Os B sh (sh\<lparr>sh_mem := k_take r (sh_mem sh), sh_world := w\<rparr>)"
    using k_step_take T same_view_fds [OF k_step_take(3)] kinvD(9) [OF K] by (auto simp: kframe_def submitted_def same_view_def)
  ultimately show ?thesis using k_step_take by simp
next
  case (k_step_complete xs e ys c ops w)
  show ?thesis
    using kinv_complete [OF K d k_step_complete(2-7)] k_step_complete(1) by simp
next
  case (k_step_flags w x)
  note F = k_flags_ok [OF kinvD(1) [OF K], of x]
  have sv: "same_view (uv_view u) (sh_world sh) w" "uv_flight u w = uv_flight u (sh_world sh)"
    "uv_taken u w = uv_taken u (sh_world sh)"
    using k_step_flags by (auto simp: same_uview_def)
  have "kinv u r n cn d Os B (sh\<lparr>sh_mem := k_flags r x (sh_mem sh), sh_world := w\<rparr>)"
    using F sv by (intro kinv_mem [OF K]) (auto simp: waiting_def)
  moreover have "kframe u r Os B sh (sh\<lparr>sh_mem := k_flags r x (sh_mem sh), sh_world := w\<rparr>)"
    using F sv same_view_fds [OF sv(1)] kinvD(9) [OF K] by (auto simp: kframe_def submitted_def same_view_def)
  ultimately show ?thesis using k_step_flags by simp
next
  case (k_step_world w)
  then show ?thesis using kinv_world [OF K] by simp
qed

lemma kinv_steps:
  assumes K: "kinv u r n cn d Os B sh" and d: "d < 2 ^ 32" and st: "ksteps u r cn sh sh'"
  shows "kinv u r n cn d Os B sh' \<and> kframe u r Os B sh sh'"
  using st
proof (induction rule: rtranclp_induct)
  case base
  show ?case using K kinvD(9) [OF K] by (auto intro!: kframe_refl)
next
  case (step sh1 sh2)
  then show ?case using kinv_step [OF _ d] kframe_trans by blast
qed

subsection \<open>Handing an operation over, and getting it back\<close>

definition oframe :: "'w uview \<Rightarrow> nat set \<Rightarrow> int set \<Rightarrow> 'w ushared \<Rightarrow> 'w ushared \<Rightarrow> bool" where
  "oframe u Os B sh sh' \<longleftrightarrow> (\<forall>a. a \<notin> Os \<longrightarrow> cells (sh_ops sh') a = cells (sh_ops sh) a)
     \<and> (\<forall>a. map_option op_shape (cells (sh_ops sh') a) = map_option op_shape (cells (sh_ops sh) a))
     \<and> same_fds (uv_view u) B (sh_world sh) (sh_world sh') \<and> B \<subseteq> kv_open (uv_view u) (sh_world sh')"

lemma kframe_oframe: "kframe u r Os B sh sh' \<longleftrightarrow> oframe u Os B sh sh' \<and> submitted u r sh' = submitted u r sh"
  by (auto simp: kframe_def oframe_def)

lemma submit_kinv:
  assumes S: "uring_spec env u r cn" and K: "kinv u r n cn d Os B sh" and d: "d < 2 ^ 32"
    and a: "a \<notin> Os" "cells (sh_ops sh) a = Some o'" "op_waiting (uv_view u) d (sh_world sh) o'"
    and B: "set (own_w (request a o')) \<subseteq> B"
  shows "\<exists>rc sh'. iou_config_and_submit env r a sh = Inr (rc, sh') \<and> oframe u Os B sh sh'
     \<and> (if rc = 0 then kinv u r n cn d (insert a Os) (B - set (own_w (request a o'))) sh'
          \<and> submitted u r sh' = submitted u r sh @ [request a o']
        else rc = - EBUSY \<and> kinv u r n cn d Os B sh' \<and> submitted u r sh' = submitted u r sh
          \<and> length (sq_list r (sh_mem sh')) = unat (iou_ring_size r))"
proof -
  define sh1 where "sh1 = e_uring_async env sh"
  have K1: "kinv u r n cn d Os B sh1" and F1: "kframe u r Os B sh sh1"
    using kinv_steps [OF K d uring_specD(1) [OF S]] unfolding sh1_def by auto
  note ok1 = kinvD(1) [OF K1]
  have o1: "oframe u Os B sh sh1" and s1: "submitted u r sh1 = submitted u r sh"
    using F1 by (auto simp: kframe_oframe)
  have a1: "cells (sh_ops sh1) a = Some o'" using o1 a by (simp add: oframe_def)
  have T: "tag_fits o'" using a(3) by (simp add: op_waiting_def)
  have B0: "B \<subseteq> kv_open (uv_view u) (sh_world sh)" using kinvD(9) [OF K] by simp
  have f: "same_fds (uv_view u) (set (own_w (request a o'))) (sh_world sh) (sh_world sh1)"
    using o1 unfolding oframe_def by (elim conjE) (rule same_fds_mono [OF _ B])
  have w1: "op_waiting (uv_view u) d (sh_world sh1) o'" by (rule op_waiting_frame [OF a(3) f])
  have eq: "iou_config_and_submit env r a sh =
     (if unat (iou_ring_size r) \<le> length (sq_list r (sh_mem sh1)) then Inr (- EBUSY, sh1)
      else Inr (0, sh1\<lparr>sh_mem := p_push r (request a o') (sh_mem sh1)\<rparr>))"
    by (simp only: submit_eq [OF S kinvD(1) [OF K]] Let_def sh1_def [symmetric] hget_ok [OF a1] bindE_Inr prep_fits [OF T])
  show ?thesis
  proof (cases "unat (iou_ring_size r) \<le> length (sq_list r (sh_mem sh1))")
    case True
    have "length (sq_list r (sh_mem sh1)) = unat (iou_ring_size r)"
      using True ring_sizes(7) [OF ok1] by simp
    then show ?thesis unfolding eq using True K1 o1 s1 by (simp del: length_sq_list)
  next
    case False
    let ?sh = "sh1\<lparr>sh_mem := p_push r (request a o') (sh_mem sh1)\<rparr>"
    have lt: "length (sq_list r (sh_mem sh1)) < unat (iou_ring_size r)" using False by simp
    note P = p_push_ok [OF ok1 lt, of "request a o'"]
    have W: "waiting u r ?sh = sq_list r (sh_mem sh1) @ request a o' # uv_flight u (sh_world sh1)"
      by (simp add: waiting_def P)
    have ud: "sqe_user_data (request a o') = Some a" using T by simp
    have nO: "Some a \<notin> set (outstanding u r sh1)" using kinvD(4) [OF K1] a(1) by auto
    have dow: "distinct (own_w (request a o'))" by (simp add: own_w_def)
    have disj: "set (own_w (request a o')) \<inter> set (owned u r sh1) = {}" using B kinvD(8) [OF K1] by blast
    have mo: "mset (outstanding u r ?sh) = mset (Some a # outstanding u r sh1)"
      by (simp add: outstanding_def W P ud) (simp add: waiting_def)
    have mf: "mset (owned u r ?sh) = mset (own_w (request a o') @ owned u r sh1)"
      by (simp add: owned_def W P) (simp add: waiting_def)
    have wk: "waiting_ok u d ?sh e" if "e \<in> set (waiting u r ?sh)" for e
    proof (cases "e = request a o'")
      case True
      then show ?thesis using a1 w1 by (auto simp: waiting_ok_def)
    next
      case False
      then have "e \<in> set (waiting u r sh1)" using that unfolding W by (auto simp: waiting_def)
      from kinvD(5) [OF K1 this] show ?thesis by (auto simp: waiting_ok_def)
    qed
    have dk: "done_ok u d ?sh c" if "c \<in> set (cq_list r (sh_mem ?sh))" for c
      using kinvD(6) [OF K1, of c] that P(3) by (simp add: done_ok_def)
    have K2: "kinv u r n cn d (insert a Os) (B - set (own_w (request a o'))) ?sh"
      unfolding kinv_def
    proof (intro conjI ballI)
      show "ring_ok r n cn (sh_mem ?sh)" "heap_ok (sh_ops ?sh)" using P kinvD(2) [OF K1] by simp_all
      show "distinct (outstanding u r ?sh)"
        using mset_eq_imp_distinct_iff [OF mo] nO kinvD(3) [OF K1] by simp
      show "set (outstanding u r ?sh) = Some ` insert a Os"
        using mset_eq_setD [OF mo] kinvD(4) [OF K1] by simp
      show "waiting_ok u d ?sh e" if "e \<in> set (waiting u r ?sh)" for e using that by (rule wk)
      show "done_ok u d ?sh c" if "c \<in> set (cq_list r (sh_mem ?sh))" for c using that by (rule dk)
      show "distinct (owned u r ?sh)"
        using mset_eq_imp_distinct_iff [OF mf] dow disj kinvD(7) [OF K1] by simp
      show "set (owned u r ?sh) \<inter> (B - set (own_w (request a o'))) = {}"
        using mset_eq_setD [OF mf] kinvD(8) [OF K1] by auto
      show "kv_open (uv_view u) (sh_world ?sh) = B - set (own_w (request a o')) \<union> set (owned u r ?sh)"
        using mset_eq_setD [OF mf] kinvD(9) [OF K1] B by auto
    qed
    have "oframe u Os B sh ?sh" using o1 by (simp add: oframe_def)
    moreover have "submitted u r ?sh = submitted u r sh @ [request a o']"
      using s1 P by (simp add: submitted_def)
    ultimately show ?thesis unfolding eq using False K2 by (simp del: length_sq_list)
  qed
qed

lemma get_cqe_kinv:
  assumes S: "uring_spec env u r cn" and K: "kinv u r n cn d Os B sh" and d: "d < 2 ^ 32"
  obtains (empty) sh' where "iou_get_cqe env r sh = Inr (None, sh')" "kinv u r n cn d Os B sh'"
      "kframe u r Os B sh sh'" "cq_list r (sh_mem sh') = []"
  | (found) c a o' sh' where "iou_get_cqe env r sh = Inr (Some c, sh')" "cqe_user_data c = Some a" "a \<in> Os"
      "cells (sh_ops sh') a = Some o'" "op_done (uv_view u) d (sh_world sh') o' (cqe_res c)"
      "kinv u r n cn d (Os - {a}) (B \<union> set (own_d o' (cqe_res c))) sh'"
      "set (own_d o' (cqe_res c)) \<inter> B = {}" "kframe u r Os B sh sh'"
proof -
  define sh1 where "sh1 = e_uring_async env sh"
  have K1: "kinv u r n cn d Os B sh1" and F1: "kframe u r Os B sh sh1"
    using kinv_steps [OF K d uring_specD(1) [OF S]] unfolding sh1_def by auto
  note ok1 = kinvD(1) [OF K1]
  show ?thesis
  proof (cases "cq_list r (sh_mem sh1)")
    case Nil
    have "iou_get_cqe env r sh = Inr (None, sh1)"
      by (simp add: get_cqe_eq [OF S kinvD(1) [OF K]] Let_def sh1_def [symmetric] Nil)
    then show ?thesis using empty K1 F1 Nil by blast
  next
    case (Cons c cs)
    let ?sh = "sh1\<lparr>sh_mem := p_pop r (sh_mem sh1)\<rparr>"
    have ne: "cq_list r (sh_mem sh1) \<noteq> []" using Cons by simp
    note P = p_pop_ok [OF ok1 ne]
    have eq: "iou_get_cqe env r sh = Inr (Some c, ?sh)"
      by (simp add: get_cqe_eq [OF S kinvD(1) [OF K]] Let_def sh1_def [symmetric] Cons)
    have "done_ok u d sh1 c" by (rule kinvD(6) [OF K1]) (simp add: Cons)
    then obtain a o' where a: "cqe_user_data c = Some a" "cells (sh_ops sh1) a = Some o'"
        "op_done (uv_view u) d (sh_world sh1) o' (cqe_res c)" by (auto simp: done_ok_def)
    have C: "cq_list r (sh_mem ?sh) = cs" using P(3) Cons by simp
    have W: "waiting u r ?sh = waiting u r sh1" by (simp add: waiting_def P)
    have oc: "own_c (sh_ops sh1) c = own_d o' (cqe_res c)" by (simp add: own_c_def a)
    have mo: "mset (outstanding u r sh1) = mset (Some a # outstanding u r ?sh)"
      unfolding outstanding_def W C Cons by (simp add: a)
    have mf: "mset (owned u r sh1) = mset (own_d o' (cqe_res c) @ owned u r ?sh)"
      unfolding owned_def W C Cons by (simp add: oc)
    have aO: "a \<in> Os" using mset_eq_setD [OF mo] kinvD(4) [OF K1] by auto
    have dO: "distinct (Some a # outstanding u r ?sh)"
      using mset_eq_imp_distinct_iff [OF mo] kinvD(3) [OF K1] by simp
    have dF: "distinct (own_d o' (cqe_res c) @ owned u r ?sh)"
      using mset_eq_imp_distinct_iff [OF mf] kinvD(7) [OF K1] by simp
    have so: "set (outstanding u r ?sh) = Some ` (Os - {a})"
      using mset_eq_setD [OF mo] kinvD(4) [OF K1] dO by auto
    have sf: "set (owned u r sh1) = set (own_d o' (cqe_res c)) \<union> set (owned u r ?sh)"
      using mset_eq_setD [OF mf] by simp
    have K2: "kinv u r n cn d (Os - {a}) (B \<union> set (own_d o' (cqe_res c))) ?sh"
      unfolding kinv_def
    proof (intro conjI ballI)
      show "ring_ok r n cn (sh_mem ?sh)" "heap_ok (sh_ops ?sh)" using P kinvD(2) [OF K1] by simp_all
      show "distinct (outstanding u r ?sh)" using dO by simp
      show "set (outstanding u r ?sh) = Some ` (Os - {a})" by (rule so)
      show "waiting_ok u d ?sh e" if "e \<in> set (waiting u r ?sh)" for e
        using kinvD(5) [OF K1, of e] that W by (simp add: waiting_ok_def)
      show "done_ok u d ?sh x" if "x \<in> set (cq_list r (sh_mem ?sh))" for x
        using kinvD(6) [OF K1, of x] that C Cons by (simp add: done_ok_def)
      show "distinct (owned u r ?sh)" using dF by simp
      show "set (owned u r ?sh) \<inter> (B \<union> set (own_d o' (cqe_res c))) = {}"
        using dF sf kinvD(8) [OF K1] by auto
      show "kv_open (uv_view u) (sh_world ?sh) = B \<union> set (own_d o' (cqe_res c)) \<union> set (owned u r ?sh)"
        using sf kinvD(9) [OF K1] by auto
    qed
    have "kframe u r Os B sh ?sh" using F1 P by (simp add: kframe_def submitted_def)
    moreover have "set (own_d o' (cqe_res c)) \<inter> B = {}" using sf kinvD(8) [OF K1] by auto
    ultimately show ?thesis using found [OF eq a(1) aO] a K2 by simp
  qed
qed

end
