(* ===== verification/UringInvariant.thy ===== *)
theory UringInvariant
  imports UringOwnership UringServer
begin

text \<open>
  The invariant of the io_uring server and that every handler keeps it: the tracker lists
  exactly the operation objects of the clients, each of which, like the object of the accept
  request, is outstanding exactly once, except the one a handler holds.
\<close>

unbundle bit_operations_syntax

subsection \<open>The tracker and the operation objects\<close>

definition clients :: "mem_tracker \<Rightarrow> nat set" where
  "clients t = {a. \<exists>nd. node_ops t nd = Some (Some a)}"

definition is_con :: "iou_op \<Rightarrow> bool" where
  "is_con o' \<longleftrightarrow> (case op_info o' of InfoCon _ \<Rightarrow> True | _ \<Rightarrow> False)"

text \<open>What the tracker needs to know of an object: its node, and that it is a client's.\<close>

definition tshape :: "iou_op \<Rightarrow> ptr \<times> bool" where
  "tshape o' = (op_mem_tracker o', is_con o')"

text \<open>\<open>S\<close>: the objects on the stack of \<open>service_loop\<close>.\<close>

definition tinv :: "nat set \<Rightarrow> mem_tracker \<Rightarrow> iou_op heap \<Rightarrow> nat list \<Rightarrow> bool" where
  "tinv S t ops xs \<longleftrightarrow> heap_ok (mt_nodes t) \<and> tracks (node_ops t) t xs
     \<and> (\<forall>nd. node_ops t nd \<noteq> None \<longrightarrow> nd \<in> set xs)
     \<and> (\<forall>nd \<in> set xs. \<exists>a. node_ops t nd = Some (Some a) \<and> map_option tshape (cells ops a) = Some (Some nd, True))
     \<and> (\<forall>a \<in> S. map_option tshape (cells ops a) = Some (None, False))
     \<and> (\<forall>a. cells ops a \<noteq> None \<longrightarrow> a \<in> S \<or> a \<in> clients t)"

lemma tinvD:
  assumes "tinv S t ops xs"
  shows "heap_ok (mt_nodes t)" "tracks (node_ops t) t xs" "node_ops t nd \<noteq> None \<Longrightarrow> nd \<in> set xs"
    "nd \<in> set xs \<Longrightarrow> \<exists>a. node_ops t nd = Some (Some a) \<and> map_option tshape (cells ops a) = Some (Some nd, True)"
    "a \<in> S \<Longrightarrow> map_option tshape (cells ops a) = Some (None, False)"
    "cells ops a \<noteq> None \<Longrightarrow> a \<in> S \<or> a \<in> clients t"
  using assms unfolding tinv_def by blast+

lemma tinv_frame:
  assumes "tinv S t ops xs" "\<And>a. map_option tshape (cells ops' a) = map_option tshape (cells ops a)"
  shows "tinv S t ops' xs"
proof -
  have "cells ops' a \<noteq> None \<longleftrightarrow> cells ops a \<noteq> None" for a
    using assms(2) [of a] by (cases "cells ops a"; cases "cells ops' a") auto
  then show ?thesis using assms(1) unfolding tinv_def assms(2) by blast
qed

lemma shape_tshape:
  assumes "map_option op_shape x = map_option op_shape y"
  shows "map_option tshape x = map_option tshape y"
  using assms by (cases x; cases y) (auto simp: op_shape_def tshape_def is_con_def split: op_info.splits)

lemma tinv_oframe: "tinv S t (sh_ops sh) xs \<Longrightarrow> oframe u Os B sh sh' \<Longrightarrow> tinv S t (sh_ops sh') xs"
  by (erule tinv_frame, rule shape_tshape) (simp add: oframe_def)

text \<open>A client's object and its node point to each other.\<close>

lemma client_node:
  assumes "tinv S t ops xs" "a \<in> clients t"
  obtains nd o' where "nd \<in> set xs" "node_ops t nd = Some (Some a)" "cells ops a = Some o'"
    "op_mem_tracker o' = Some nd" "is_con o'"
proof -
  obtain nd where nd: "node_ops t nd = Some (Some a)" using assms(2) by (auto simp: clients_def)
  then have "nd \<in> set xs" using tinvD(3) [OF assms(1), of nd] by simp
  moreover from tinvD(4) [OF assms(1) this] nd
  obtain o' where "cells ops a = Some o'" "op_mem_tracker o' = Some nd" "is_con o'"
    by (auto simp: tshape_def)
  ultimately show ?thesis using that nd by blast
qed

lemma client_not_stack: "tinv S t ops xs \<Longrightarrow> a \<in> clients t \<Longrightarrow> a \<notin> S"
proof
  assume T: "tinv S t ops xs" "a \<in> clients t" "a \<in> S"
  obtain o' where "cells ops a = Some o'" "is_con o'" using client_node [OF T(1,2)] by metis
  then show False using tinvD(5) [OF T(1,3)] by (simp add: tshape_def)
qed

lemma con_is_client:
  assumes "tinv S t ops xs" "cells ops a = Some o'" "is_con o'"
  shows "a \<in> clients t"
  using tinvD(5) [OF assms(1), of a] tinvD(6) [OF assms(1), of a] assms(2,3) by (auto simp: tshape_def)

text \<open>A new client: a fresh node for a fresh object, added at the back.\<close>

lemma tracks_nodes:
  assumes "tracks f t xs" "\<And>b. b \<in> set xs \<Longrightarrow> cells h b = cells (mt_nodes t) b"
  shows "tracks (node_ops (t\<lparr>mt_nodes := h\<rparr>)) (t\<lparr>mt_nodes := h\<rparr>) xs"
proof -
  let ?t = "t\<lparr>mt_nodes := h\<rparr>"
  have D: "dlist (mn t) (mp t) (mt_head t) (mt_tail t) xs" and f: "node_ops t = f" "\<forall>a \<in> set xs. f a \<noteq> None"
    using assms(1) by (auto simp: tracks_def)
  have "dlist (mn ?t) (mp ?t) (mt_head t) (mt_tail t) xs = dlist (mn t) (mp t) (mt_head t) (mt_tail t) xs"
    using assms(2) by (intro dlist_cong) (simp add: mn_def mp_def)
  moreover have "\<forall>a \<in> set xs. node_ops ?t a \<noteq> None"
    using f assms(2) by (auto simp: node_ops_def)
  ultimately show ?thesis using D by (simp add: tracks_def)
qed

text \<open>Freeing a node that has been taken out, with its object.\<close>

lemma tinv_remove:
  assumes T: "tinv S t ops xs" and a: "a \<in> clients t" "cells ops a = Some o'" "op_mem_tracker o' = Some nd"
  shows "\<exists>t1. mem_t_remove_node nd t = Inr t1 \<and> cells (mt_nodes t1) nd \<noteq> None
     \<and> tinv S (t1\<lparr>mt_nodes := (mt_nodes t1)\<lparr>cells := (cells (mt_nodes t1))(nd := None)\<rparr>\<rparr>)
         (ops\<lparr>cells := (cells ops)(a := None)\<rparr>) (remove1 nd xs)
     \<and> clients (t1\<lparr>mt_nodes := (mt_nodes t1)\<lparr>cells := (cells (mt_nodes t1))(nd := None)\<rparr>\<rparr>) = clients t - {a}"
proof -
  obtain nd' o2 where "nd' \<in> set xs" "node_ops t nd' = Some (Some a)" "cells ops a = Some o2" "op_mem_tracker o2 = Some nd'"
    by (rule client_node [OF T a(1)])
  then have nd: "nd \<in> set xs" "node_ops t nd = Some (Some a)" using a(2,3) by auto
  have dist: "distinct xs" using tinvD(2) [OF T] by (simp add: tracks_def dlist_def)
  obtain t1 where t1: "mem_t_remove_node nd t = Inr t1" "tracks (node_ops t) t1 (remove1 nd xs)"
    using tracker.remove_law [OF tinvD(2) [OF T] nd(1)] by (auto simp: okE_iff)
  have n1: "node_ops t1 = node_ops t" using t1(2) by (simp add: tracks_def)
  have na: "next_addr (mt_nodes t1) = next_addr (mt_nodes t)"
    by (rule remove_node_next [OF t1(1)])
  have same: "cells (mt_nodes t1) b = None \<longleftrightarrow> cells (mt_nodes t) b = None" for b
    using fun_cong [OF n1, of b]
    by (cases "cells (mt_nodes t) b"; cases "cells (mt_nodes t1) b") (simp_all add: node_ops_def)
  have al: "cells (mt_nodes t1) nd \<noteq> None" using same nd(2) by (auto simp: node_ops_def)
  let ?h = "(mt_nodes t1)\<lparr>cells := (cells (mt_nodes t1))(nd := None)\<rparr>"
  let ?t = "t1\<lparr>mt_nodes := ?h\<rparr>"
  have N: "node_ops ?t = (node_ops t)(nd := None)"
    unfolding n1 [symmetric] by (auto simp: node_ops_def)
  have tr: "tracks (node_ops ?t) ?t (remove1 nd xs)"
    using dist by (intro tracks_nodes [OF t1(2)]) auto
  have ok: "heap_ok ?h" using tinvD(1) [OF T] same na by (auto simp: heap_ok_def)
  have inj: "b = nd" if "node_ops t b = Some (Some a)" for b
  proof -
    have "b \<in> set xs" using that by (intro tinvD(3) [OF T]) simp
    from tinvD(4) [OF T this] obtain aa where aa: "node_ops t b = Some (Some aa)"
        "map_option tshape (cells ops aa) = Some (Some b, True)" by blast
    have "aa = a" using aa(1) that by simp
    then have "map_option tshape (cells ops a) = Some (Some b, True)" using aa(2) by simp
    then show ?thesis using a by (simp add: tshape_def)
  qed
  have cl: "clients ?t = clients t - {a}"
  proof (intro set_eqI iffI)
    fix a' assume "a' \<in> clients ?t"
    then obtain b where "b \<noteq> nd" "node_ops t b = Some (Some a')"
      unfolding clients_def N by (auto split: if_splits)
    then show "a' \<in> clients t - {a}" using inj [of b] unfolding clients_def by blast
  next
    fix a' assume "a' \<in> clients t - {a}"
    then obtain b where b: "node_ops t b = Some (Some a')" "a' \<noteq> a" unfolding clients_def by blast
    then have "b \<noteq> nd" using nd(2) by auto
    then have "node_ops ?t b = Some (Some a')" using b(1) unfolding N by simp
    then show "a' \<in> clients ?t" unfolding clients_def by blast
  qed
  have "tinv S ?t (ops\<lparr>cells := (cells ops)(a := None)\<rparr>) (remove1 nd xs)"
    unfolding tinv_def
  proof (intro conjI allI ballI impI)
    show "heap_ok (mt_nodes ?t)" using ok by simp
    show "tracks (node_ops ?t) ?t (remove1 nd xs)" by (rule tr)
    show "b \<in> set (remove1 nd xs)" if "node_ops ?t b \<noteq> None" for b
      using tinvD(3) [OF T, of b] that dist unfolding N by (auto split: if_splits)
    show "\<exists>aa. node_ops ?t b = Some (Some aa)
        \<and> map_option tshape (cells (ops\<lparr>cells := (cells ops)(a := None)\<rparr>) aa) = Some (Some b, True)"
      if "b \<in> set (remove1 nd xs)" for b
    proof -
      have b: "b \<in> set xs" "b \<noteq> nd" using that dist by auto
      from tinvD(4) [OF T b(1)] obtain aa where aa: "node_ops t b = Some (Some aa)"
          "map_option tshape (cells ops aa) = Some (Some b, True)" by blast
      have "aa \<noteq> a" using inj [of b] aa(1) b(2) by blast
      then show ?thesis using aa b(2) unfolding N by simp
    qed
    show "map_option tshape (cells (ops\<lparr>cells := (cells ops)(a := None)\<rparr>) b) = Some (None, False)" if "b \<in> S" for b
      using tinvD(5) [OF T that] client_not_stack [OF T a(1)] that by auto
    show "b \<in> S \<or> b \<in> clients ?t" if "cells (ops\<lparr>cells := (cells ops)(a := None)\<rparr>) b \<noteq> None" for b
      using tinvD(6) [OF T, of b] that unfolding cl by (auto split: if_splits)
  qed
  then show ?thesis using t1(1) al cl by blast
qed

subsection \<open>States of the server\<close>

definition sinv0 ::
    "'w uview \<Rightarrow> iou \<Rightarrow> nat \<Rightarrow> nat \<Rightarrow> nat \<Rightarrow> nat set \<Rightarrow> nat set \<Rightarrow> int set \<Rightarrow> nat list \<Rightarrow> 'w iou_state \<Rightarrow> bool" where
  "sinv0 u r n cn d S Os B xs s \<longleftrightarrow> tinv S (itracker s) (iops s) xs \<and> kinv u r n cn d Os B (ishared s)"

text \<open>The accept request among the objects on the stack is outstanding.\<close>

definition accept_out :: "nat set \<Rightarrow> nat set \<Rightarrow> iou_op heap \<Rightarrow> bool" where
  "accept_out S A ops \<longleftrightarrow> (\<forall>a \<in> S. \<forall>o' i. cells ops a = Some o' \<longrightarrow> op_info o' = InfoAccept i \<longrightarrow> a \<in> A)"

definition iinv ::
    "config \<Rightarrow> 'w uview \<Rightarrow> iou \<Rightarrow> nat \<Rightarrow> nat \<Rightarrow> nat set \<Rightarrow> int set \<Rightarrow> 'w iou_state \<Rightarrow> bool" where
  "iinv cfg u r n cn S B s \<longleftrightarrow>
     (\<exists>xs A. sinv0 u r n cn (DEFAULT_SERVER_BUFFER_SIZE cfg) S (A \<union> clients (itracker s)) B xs s
        \<and> A \<subseteq> S \<and> accept_out S A (iops s))
     \<and> (DO_BENCH cfg \<longrightarrow> bench_inv (ibench s))"

lemma kinv_ops:
  assumes K: "kinv u r n cn d Os B sh" and ok: "heap_ok ops"
    and same: "\<And>b. b \<in> Os \<Longrightarrow> cells ops b = cells (sh_ops sh) b"
  shows "kinv u r n cn d Os B (sh\<lparr>sh_ops := ops\<rparr>)"
proof -
  let ?sh = "sh\<lparr>sh_ops := ops\<rparr>"
  have W: "waiting u r ?sh = waiting u r sh" by (simp add: waiting_def)
  have O: "outstanding u r ?sh = outstanding u r sh" by (simp add: outstanding_def W)
  have cellw: "cells ops b = cells (sh_ops sh) b" if "Some b \<in> set (outstanding u r sh)" for b
    using that kinvD(4) [OF K] by (auto intro: same)
  have wk: "waiting_ok u d ?sh e" if e: "e \<in> set (waiting u r sh)" for e
  proof -
    obtain b o' where b: "cells (sh_ops sh) b = Some o'" "e = request b o'" "op_waiting (uv_view u) d (sh_world sh) o'"
      using kinvD(5) [OF K e] by (auto simp: waiting_ok_def)
    then have ud: "sqe_user_data e = Some b" by (simp add: op_waiting_def)
    have "Some b \<in> set (outstanding u r sh)"
      unfolding outstanding_def using e ud by (auto simp: image_iff intro: bexI [of _ e])
    then show ?thesis using b cellw [of b] unfolding waiting_ok_def by auto
  qed
  have ck: "done_ok u d ?sh c \<and> own_c ops c = own_c (sh_ops sh) c" if c: "c \<in> set (cq_list r (sh_mem sh))" for c
  proof -
    obtain b o' where b: "cqe_user_data c = Some b" "cells (sh_ops sh) b = Some o'"
        "op_done (uv_view u) d (sh_world sh) o' (cqe_res c)"
      using kinvD(6) [OF K c] by (auto simp: done_ok_def)
    have "Some b \<in> set (outstanding u r sh)"
      unfolding outstanding_def using c b by (auto simp: image_iff intro: bexI [of _ c])
    then show ?thesis using b cellw [of b] by (simp add: done_ok_def own_c_def)
  qed
  have ow: "owned u r ?sh = owned u r sh"
    using ck by (simp add: owned_def W cong: map_cong)
  show ?thesis
    using K ok wk ck unfolding kinv_def ow O W by simp
qed

definition put :: "nat \<Rightarrow> iou_op \<Rightarrow> 'w iou_state \<Rightarrow> 'w iou_state" where
  "put a o2 s = set_ops ((iops s)\<lparr>cells := (cells (iops s))(a := Some o2)\<rparr>) s"

lemma put_simps [simp]:
  "itracker (put a o2 s) = itracker s" "ibench (put a o2 s) = ibench s" "irunning (put a o2 s) = irunning s"
  "sh_mem (ishared (put a o2 s)) = sh_mem (ishared s)" "iworld (put a o2 s) = iworld s"
  "cells (iops (put a o2 s)) = (cells (iops s))(a := Some o2)"
  "put a o3 (put a o2 s) = put a o3 s"
  by (simp_all add: put_def set_ops_def)

lemma submitted_ops [simp]: "submitted u r (sh\<lparr>sh_ops := h\<rparr>) = submitted u r sh"
  by (simp add: submitted_def)

lemma submitted_put [simp]: "submitted u r (ishared (put a o2 s)) = submitted u r (ishared s)"
  by (simp add: put_def set_ops_def)

lemma con_upd_eq: "cells (iops s) a = Some o' \<Longrightarrow> op_info o' = InfoCon c \<Longrightarrow>
    con_upd a f s = Inr (put a (o'\<lparr>op_info := InfoCon (f c)\<rparr>) s)"
  by (simp add: con_upd_def info_con_def put_def)

lemma type_upd_eq: "cells (iops s) a = Some o' \<Longrightarrow> type_upd a t s = Inr (put a (o'\<lparr>op_type := t\<rparr>) s)"
  by (simp add: type_upd_def put_def)

lemma sinv0_put:
  assumes I: "sinv0 u r n cn d S Os B xs s" and a: "a \<notin> Os" "cells (iops s) a = Some o'" "tshape o2 = tshape o'"
  shows "sinv0 u r n cn d S Os B xs (put a o2 s)"
proof -
  have K: "kinv u r n cn d Os B (ishared s)" and T: "tinv S (itracker s) (iops s) xs"
    using I by (auto simp: sinv0_def)
  have "tinv S (itracker s) ((iops s)\<lparr>cells := (cells (iops s))(a := Some o2)\<rparr>) xs"
    using a by (intro tinv_frame [OF T]) simp
  moreover have "heap_ok ((iops s)\<lparr>cells := (cells (iops s))(a := Some o2)\<rparr>)"
    using kinvD(2) [OF K] a(2) by (intro heap_ok_upd) auto
  then have "kinv u r n cn d Os B ((ishared s)\<lparr>sh_ops := (iops s)\<lparr>cells := (cells (iops s))(a := Some o2)\<rparr>\<rparr>)"
    using a(1) by (intro kinv_ops [OF K]) auto
  ultimately show ?thesis by (simp add: sinv0_def put_def set_ops_def)
qed

lemma sinv0_world:
  assumes "sinv0 u r n cn d S Os B xs s" "same_uview u (iworld s) w"
  shows "sinv0 u r n cn d S Os B xs (set_world w s)"
  using assms kinv_world(1) by (auto simp: sinv0_def set_world_def)

lemma sinv0_bench [simp]: "sinv0 u r n cn d S Os B xs (s\<lparr>ibench := b\<rparr>) = sinv0 u r n cn d S Os B xs s"
  by (simp add: sinv0_def)

subsection \<open>Submitting from a handler\<close>

definition handed_over ::
    "'w uview \<Rightarrow> iou \<Rightarrow> nat set \<Rightarrow> int set \<Rightarrow> nat \<Rightarrow> iou_op \<Rightarrow> 'w iou_state \<Rightarrow> 'w iou_state \<Rightarrow> bool" where
  "handed_over u r Os B a o' s s' \<longleftrightarrow> itracker s' = itracker s \<and> ibench s' = ibench s \<and> irunning s' = irunning s
     \<and> oframe u Os B (ishared s) (ishared s')
     \<and> submitted u r (ishared s') = submitted u r (ishared s) @ [request a o']"

lemma submit_asserted_safe:
  assumes S: "uring_spec env u r cn" and d: "d < 2 ^ 32" and I: "sinv0 u r n cn d S Os B xs s"
    and a: "a \<notin> Os" "cells (iops s) a = Some o'" "op_waiting (uv_view u) d (iworld s) o'"
    and B: "set (own_w (request a o')) \<subseteq> B"
  shows "safeE (\<lambda>s'. sinv0 u r n cn d S (insert a Os) (B - set (own_w (request a o'))) xs s'
     \<and> handed_over u r Os B a o' s s') (submit_asserted env r a msg s)"
proof -
  have K: "kinv u r n cn d Os B (ishared s)" and T: "tinv S (itracker s) (iops s) xs"
    using I by (auto simp: sinv0_def)
  obtain rc sh where 1: "iou_config_and_submit env r a (ishared s) = Inr (rc, sh)" "oframe u Os B (ishared s) sh"
      "rc = 0 \<Longrightarrow> kinv u r n cn d (insert a Os) (B - set (own_w (request a o'))) sh
          \<and> submitted u r sh = submitted u r (ishared s) @ [request a o']"
    using submit_kinv [OF S K d a B] by (auto split: if_splits)
  have "tinv S (itracker s) (sh_ops sh) xs" using tinv_oframe [OF T 1(2)] .
  then show ?thesis
    using 1 by (simp add: submit_asserted_def sinv0_def handed_over_def)
qed

end
