(* ===== verification/UringHandlers.thy ===== *)
theory UringHandlers
  imports UringInvariant
begin

text \<open>
  Every handler of a completion keeps the invariant of the io_uring server and submits as many
  requests as it reports.
\<close>

unbundle bit_operations_syntax

text \<open>The state in which a handler runs: it holds the object \<open>a\<close>, completed with \<open>rc\<close>.\<close>

definition held ::
    "config \<Rightarrow> 'w uview \<Rightarrow> iou \<Rightarrow> nat \<Rightarrow> nat \<Rightarrow> nat set \<Rightarrow> nat set \<Rightarrow> int set \<Rightarrow> nat list \<Rightarrow> nat \<Rightarrow> iou_op \<Rightarrow> int
     \<Rightarrow> 'w iou_state \<Rightarrow> bool" where
  "held cfg u r n cn S A B xs a o' rc s \<longleftrightarrow>
     sinv0 u r n cn (DEFAULT_SERVER_BUFFER_SIZE cfg) S (A \<union> clients (itracker s) - {a}) (B \<union> set (own_d o' rc)) xs s
     \<and> a \<in> A \<union> clients (itracker s) \<and> A \<subseteq> S \<and> accept_out S A (iops s)
     \<and> cells (iops s) a = Some o' \<and> op_done (uv_view u) (DEFAULT_SERVER_BUFFER_SIZE cfg) (iworld s) o' rc
     \<and> set (own_d o' rc) \<inter> B = {} \<and> (DO_BENCH cfg \<longrightarrow> bench_inv (ibench s))"

lemma heldD:
  assumes "held cfg u r n cn S A B xs a o' rc s"
  shows "sinv0 u r n cn (DEFAULT_SERVER_BUFFER_SIZE cfg) S (A \<union> clients (itracker s) - {a}) (B \<union> set (own_d o' rc)) xs s"
    "a \<in> A \<union> clients (itracker s)" "A \<subseteq> S" "accept_out S A (iops s)" "cells (iops s) a = Some o'"
    "op_done (uv_view u) (DEFAULT_SERVER_BUFFER_SIZE cfg) (iworld s) o' rc" "set (own_d o' rc) \<inter> B = {}"
    "DO_BENCH cfg \<Longrightarrow> bench_inv (ibench s)" "tinv S (itracker s) (iops s) xs" "tag_fits o'"
  using assms unfolding held_def sinv0_def op_done_def by blast+

text \<open>What a handler leaves: the invariant, and \<open>k\<close> more requests submitted.\<close>

definition hpost ::
    "config \<Rightarrow> 'w uview \<Rightarrow> iou \<Rightarrow> nat \<Rightarrow> nat \<Rightarrow> nat set \<Rightarrow> int set \<Rightarrow> 'w iou_state \<Rightarrow> int \<times> 'w iou_state \<Rightarrow> bool" where
  "hpost cfg u r n cn S B s = (\<lambda>(k, s'). iinv cfg u r n cn S B s' \<and> irunning s' = irunning s
     \<and> client_no (ibench s') \<le> client_no (ibench s) + 1 \<and> 0 \<le> k \<and> k \<le> 2
     \<and> length (submitted u r (ishared s')) = length (submitted u r (ishared s)) + nat k)"

lemma accept_out_frame:
  assumes "accept_out S A ops" "\<And>b. b \<in> S \<Longrightarrow> b \<notin> A \<Longrightarrow> cells ops' b = cells ops b"
  shows "accept_out S A ops'"
  using assms unfolding accept_out_def by metis

text \<open>A client's object handed to the kernel again, for its next request.\<close>

lemma resubmit_con:
  assumes S: "uring_spec env u r cn" and d: "DEFAULT_SERVER_BUFFER_SIZE cfg < 2 ^ 32"
    and H: "held cfg u r n cn S A B xs a o' rc s"
    and I: "sinv0 u r n cn (DEFAULT_SERVER_BUFFER_SIZE cfg) S (A \<union> clients (itracker s) - {a}) (B \<union> set (own_d o' rc)) xs s2"
    and s2: "itracker s2 = itracker s" "irunning s2 = irunning s" "client_no (ibench s2) = client_no (ibench s)"
      "DO_BENCH cfg \<Longrightarrow> bench_inv (ibench s2)" "submitted u r (ishared s2) = submitted u r (ishared s)"
      "\<And>b. b \<noteq> a \<Longrightarrow> cells (iops s2) b = cells (iops s) b"
    and o2: "cells (iops s2) a = Some o2" "op_waiting (uv_view u) (DEFAULT_SERVER_BUFFER_SIZE cfg) (iworld s2) o2"
      "set (own_w (request a o2)) = set (own_d o' rc)"
  shows "safeE (hpost cfg u r n cn S B s) (bindE (submit_asserted env r a msg s2) (\<lambda>s. Inr (1, s)))"
proof -
  let ?Os = "A \<union> clients (itracker s)"
  have B: "set (own_w (request a o2)) \<subseteq> B \<union> set (own_d o' rc)" using o2(3) by blast
  have post: "hpost cfg u r n cn S B s (1, s')"
    if I': "sinv0 u r n cn (DEFAULT_SERVER_BUFFER_SIZE cfg) S (insert a (?Os - {a}))
        (B \<union> set (own_d o' rc) - set (own_w (request a o2))) xs s'"
      and h: "handed_over u r (?Os - {a}) (B \<union> set (own_d o' rc)) a o2 s2 s'" for s'
  proof -
    have t: "itracker s' = itracker s" using h s2(1) by (simp add: handed_over_def)
    have "insert a (?Os - {a}) = ?Os" using heldD(2) [OF H] by blast
    moreover have "B \<union> set (own_d o' rc) - set (own_w (request a o2)) = B"
      using o2(3) heldD(7) [OF H] by blast
    ultimately have I2: "sinv0 u r n cn (DEFAULT_SERVER_BUFFER_SIZE cfg) S (A \<union> clients (itracker s')) B xs s'"
      using I' t by simp
    have fr: "cells (iops s') b = cells (iops s) b" if "b \<in> S" "b \<notin> A" for b
    proof -
      have "b \<notin> ?Os" using that client_not_stack [OF heldD(9) [OF H], of b] by blast
      then have "b \<noteq> a" "b \<notin> ?Os - {a}" using heldD(2) [OF H] by blast+
      then show ?thesis using h s2(6) [of b] by (simp add: handed_over_def oframe_def)
    qed
    have "accept_out S A (iops s')" by (rule accept_out_frame [OF heldD(4) [OF H] fr])
    then show ?thesis
      using I2 heldD(3) [OF H] h s2 by (auto simp: hpost_def iinv_def handed_over_def)
  qed
  show ?thesis
    unfolding safeE_bindE safeE_simps
    by (rule safeE_mono [OF submit_asserted_safe [OF S d I _ o2(1,2) B]]) (use post in auto)
qed

lemma held_client:
  assumes "held cfg u r n cn S A B xs a o' rc s" "op_info o' = InfoCon c"
  shows "a \<in> clients (itracker s)" "a \<notin> A"
proof -
  show "a \<in> clients (itracker s)"
    using con_is_client [OF heldD(9,5) [OF assms(1)]] assms(2) by (simp add: is_con_def)
  then show "a \<notin> A" using client_not_stack [OF heldD(9) [OF assms(1)]] heldD(3) [OF assms(1)] by blast
qed

text \<open>Assignments to the members of the held object.\<close>

lemma held_put:
  assumes H: "held cfg u r n cn S A B xs a o' rc s"
    and I: "sinv0 u r n cn (DEFAULT_SERVER_BUFFER_SIZE cfg) S (A \<union> clients (itracker s) - {a}) (B \<union> set (own_d o' rc)) xs s1"
    and o1: "cells (iops s1) a = Some o1" "tshape o2 = tshape o1"
  shows "sinv0 u r n cn (DEFAULT_SERVER_BUFFER_SIZE cfg) S (A \<union> clients (itracker s) - {a}) (B \<union> set (own_d o' rc)) xs (put a o2 s1)"
  by (rule sinv0_put [OF I _ o1]) simp

lemma handle_recv_safe:
  assumes S: "uring_spec env u r cn" and d: "DEFAULT_SERVER_BUFFER_SIZE cfg < 2 ^ 32"
    and H: "held cfg u r n cn S A B xs a o' rc s" and ty: "op_type o' = RECV_FROM_CLIENT"
  shows "safeE (hpost cfg u r n cn S B s) (handle_cqe_recv cfg env r a rc s)"
proof -
  let ?v = "uv_view u" and ?d = "DEFAULT_SERVER_BUFFER_SIZE cfg"
  let ?I = "sinv0 u r n cn ?d S (A \<union> clients (itracker s) - {a}) (B \<union> set (own_d o' rc)) xs"
  obtain c where c: "op_info o' = InfoCon c" using heldD(10) [OF H] ty by (cases "op_info o'") (auto simp: tag_fits_def)
  note D = heldD(6) [OF H, unfolded op_done_def]
  have w: "length (con_buf c) = ?d" "clock_ts (con_bench_start_send c)" "con_fd c \<in> kv_open ?v (iworld s)"
    "nat rc \<le> ?d" "kv_in ?v (iworld s) (con_fd c) = kv_out ?v (iworld s) (con_fd c) @ take (nat rc) (con_buf c)"
    using D c ty by auto
  have od: "set (own_d o' rc) = {con_fd c}" using c ty by (simp add: own_d_def)
  define o1 where "o1 = o'\<lparr>op_info := InfoCon (c\<lparr>con_busy := 0\<rparr>)\<rparr>"
  define s1 where "s1 = put a o1 s"
  have e1: "con_upd a (\<lambda>c. c\<lparr>con_busy := 0\<rparr>) s = Inr s1"
    using con_upd_eq [OF heldD(5) [OF H] c] by (simp add: s1_def o1_def)
  have ts: "tshape o1 = tshape o'" using c by (simp add: o1_def tshape_def is_con_def)
  have I1: "?I s1" unfolding s1_def by (rule held_put [OF H heldD(1) [OF H] heldD(5) [OF H] ts])
  have c1: "cells (iops s1) a = Some o1" by (simp add: s1_def)
  show ?thesis
  proof (cases "rc < 0")
    case True
    then show ?thesis by (simp add: handle_cqe_recv_def e1)
  next
    case False
    have small: "unat (word_of_int rc :: 32 word) = nat rc"
      using False w(4) d by (simp add: unsigned_of_int take_bit_int_eq_self nat_le_iff)
    show ?thesis
    proof (cases "rc = 0")
      case True
      let ?o2 = "o1\<lparr>op_type := CLOSE_CONNECTION\<rparr>"
      have t2: "type_upd a CLOSE_CONNECTION s1 = Inr (put a ?o2 s1)" by (rule type_upd_eq [OF c1])
      have ts2: "tshape ?o2 = tshape o1" by (simp add: tshape_def is_con_def)
      have W: "op_waiting ?v ?d (iworld (put a ?o2 s1)) ?o2"
        using w True by (simp add: op_waiting_def tag_fits_def o1_def s1_def)
      have ow: "set (own_w (request a ?o2)) = set (own_d o' rc)"
        unfolding od using own_w_request [of ?o2 a] by (simp add: tag_fits_def o1_def)
      have "safeE (hpost cfg u r n cn S B s)
          (bindE (submit_asserted env r a ''iou_config_and_submit(close_req)'' (put a ?o2 s1)) (\<lambda>s. Inr (1, s)))"
        by (rule resubmit_con [OF S d H held_put [OF H I1 c1 ts2] _ _ _ _ _ _ _ W ow])
          (use heldD(8) [OF H] in \<open>simp_all add: s1_def\<close>)
      then show ?thesis using True by (simp add: handle_cqe_recv_def e1 prep_close_client_req_def t2)
    next
      case nz: False
      have nw: "(word_of_int rc :: 32 word) \<noteq> 0" using small nz False by auto
      show ?thesis
      proof (cases "nat rc = DEFAULT_BUFFER_SIZE cfg")
        case False
        then show ?thesis
          using \<open>\<not> rc < 0\<close> nw by (auto simp: handle_cqe_recv_def e1 Let_def small)
      next
        case True
        \<comment> \<open>the clock is read, or not\<close>
        have clk: "\<exists>t w3. clock_ts t \<and> same_uview u (iworld s1) w3
          \<and> (if latency_on cfg
             then (case now_monotonic (e_clock env) (iworld s1) of (t, w) \<Rightarrow>
                con_upd a (\<lambda>c. c\<lparr>con_bench_start_send := t\<rparr>) (set_world w s1))
             else Inr s1) = Inr (put a (o1\<lparr>op_info := InfoCon (c\<lparr>con_busy := 0, con_bench_start_send := t\<rparr>)\<rparr>) (set_world w3 s1))"
        proof (cases "latency_on cfg")
          case True
          obtain t w3 where t: "e_clock env (iworld s1) = (t, w3)" by force
          have "con_upd a (\<lambda>c. c\<lparr>con_bench_start_send := t\<rparr>) (set_world w3 s1)
              = Inr (put a (o1\<lparr>op_info := InfoCon (c\<lparr>con_busy := 0, con_bench_start_send := t\<rparr>)\<rparr>) (set_world w3 s1))"
            using con_upd_eq [of "set_world w3 s1" a o1 "c\<lparr>con_busy := 0\<rparr>"] c1 by (simp add: set_world_def o1_def)
          then show ?thesis using True t uring_specD(4) [OF S t] by (auto simp: now_monotonic_def)
        next
          case False
          have "o1\<lparr>op_info := InfoCon (c\<lparr>con_busy := 0, con_bench_start_send := con_bench_start_send c\<rparr>)\<rparr> = o1"
            by (simp add: o1_def)
          moreover have "put a o1 (set_world (iworld s1) s1) = s1"
            by (simp add: s1_def put_def set_world_def set_ops_def)
          ultimately show ?thesis using False w(2)
            by (intro exI [of _ "con_bench_start_send c"] exI [of _ "iworld s1"]) simp
        qed
        then obtain t w3 where t: "clock_ts t" "same_uview u (iworld s1) w3"
          "(if latency_on cfg
             then (case now_monotonic (e_clock env) (iworld s1) of (t, w) \<Rightarrow>
                con_upd a (\<lambda>c. c\<lparr>con_bench_start_send := t\<rparr>) (set_world w s1))
             else Inr s1) = Inr (put a (o1\<lparr>op_info := InfoCon (c\<lparr>con_busy := 0, con_bench_start_send := t\<rparr>)\<rparr>) (set_world w3 s1))"
          by blast
        define c2 where "c2 = c\<lparr>con_bench_start_send := t, con_buf_send_len := word_of_int rc, con_busy := 1\<rparr>"
        define o2 where "o2 = o'\<lparr>op_type := SEND_TO_CLIENT, op_info := InfoCon c2\<rparr>"
        define s2 where "s2 = put a o2 (set_world w3 s1)"
        have eq: "handle_cqe_recv cfg env r a rc s =
          bindE (submit_asserted env r a ''iou_config_and_submit(send_req)'' s2) (\<lambda>s. Inr (1, s))"
          using \<open>\<not> rc < 0\<close> nw True small t(3)
          by (simp add: handle_cqe_recv_def e1 Let_def type_upd_eq con_upd_eq s2_def o2_def c2_def o1_def)
        have I2: "?I (set_world w3 s1)" by (rule sinv0_world [OF I1 t(2)])
        have "cells (iops (set_world w3 s1)) a = Some o1" using c1 by (simp add: set_world_def)
        moreover have "tshape o2 = tshape o1" using c by (simp add: o2_def o1_def tshape_def is_con_def)
        ultimately have I3: "?I s2" unfolding s2_def by (rule held_put [OF H I2])
        have sv: "same_view ?v (iworld s) w3" using t(2) by (simp add: same_uview_def s1_def)
        have W: "op_waiting ?v ?d (iworld s2) o2"
          using w t(1) True small sv
          by (simp add: op_waiting_def tag_fits_def o2_def c2_def s2_def set_world_def same_view_def DEFAULT_SERVER_BUFFER_SIZE_def)
        have ow: "set (own_w (request a o2)) = set (own_d o' rc)"
          unfolding od using own_w_request [of o2 a] by (simp add: tag_fits_def o2_def c2_def)
        have sub: "submitted u r (ishared s2) = submitted u r (ishared s)"
          using t(2) by (simp add: s2_def s1_def put_def set_ops_def set_world_def submitted_def same_uview_def)
        show ?thesis unfolding eq
          by (rule resubmit_con [OF S d H I3 _ _ _ _ sub _ _ W ow])
            (use heldD(8) [OF H] in \<open>simp_all add: s2_def s1_def set_world_def\<close>)
      qed
    qed
  qed
qed

text \<open>Recording the latency of the send, when it is measured.\<close>

lemma record_latency:
  assumes S: "uring_spec env u r cn" and b: "DO_BENCH cfg \<Longrightarrow> bench_inv (ibench s)"
    and c: "cells (iops s) a = Some o'" "op_info o' = InfoCon c" "clock_ts (con_bench_start_send c)"
  shows "\<exists>b w. (if latency_on cfg
       then (case now_monotonic (e_clock env) (iworld s) of (t, w) \<Rightarrow>
         bindE (hget (Some a) (iops s)) (\<lambda>o'. bindE (info_con o') (\<lambda>c.
         bindE (sb_record_event (e_clock env) (con_bench_start_send c) t (ibench s, w)) (\<lambda>(b, w).
         Inr (set_world w (s\<lparr>ibench := b\<rparr>))))))
       else Inr s) = Inr (set_world w (s\<lparr>ibench := b\<rparr>))
     \<and> same_uview u (iworld s) w \<and> client_no b = client_no (ibench s) \<and> (DO_BENCH cfg \<longrightarrow> bench_inv b)"
proof (cases "latency_on cfg")
  case True
  then have bi: "bench_inv (ibench s)" using b by (simp add: latency_on_def)
  obtain t w where t: "e_clock env (iworld s) = (t, w)" by force
  note T = uring_specD(4) [OF S t]
  obtain b' w' where r: "sb_record_event (e_clock env) (con_bench_start_send c) t (ibench s, w) = Inr (b', w')"
      "bench_inv b'" "client_no b' = client_no (ibench s)" "w' = w \<or> w' = snd (e_clock env w)"
    using record_event_safe [OF bi c(3) conjunct2 [OF T], of "e_clock env" w] by blast
  have "same_uview u w w'"
    using r(4)
  proof
    assume "w' = snd (e_clock env w)"
    then show ?thesis using uring_specD(4) [OF S, of w "fst (e_clock env w)" w'] by simp
  qed simp
  then have "same_uview u (iworld s) w'" by (rule same_uview_trans [OF conjunct1 [OF T]])
  then show ?thesis
    using True t r c by (intro exI [of _ b'] exI [of _ w']) (simp add: now_monotonic_def info_con_def)
next
  case False
  moreover have "set_world (iworld s) (s\<lparr>ibench := ibench s\<rparr>) = s" by (simp add: set_world_def)
  ultimately show ?thesis
    using b by (intro exI [of _ "ibench s"] exI [of _ "iworld s"]) simp
qed

lemma handle_send_safe:
  assumes S: "uring_spec env u r cn" and d: "DEFAULT_SERVER_BUFFER_SIZE cfg < 2 ^ 32"
    and H: "held cfg u r n cn S A B xs a o' rc s" and ty: "op_type o' = SEND_TO_CLIENT"
  shows "safeE (hpost cfg u r n cn S B s) (handle_cqe_send cfg env r a rc s)"
proof -
  let ?v = "uv_view u" and ?d = "DEFAULT_SERVER_BUFFER_SIZE cfg"
  let ?I = "sinv0 u r n cn ?d S (A \<union> clients (itracker s) - {a}) (B \<union> set (own_d o' rc)) xs"
  obtain c where c: "op_info o' = InfoCon c" using heldD(10) [OF H] ty by (cases "op_info o'") (auto simp: tag_fits_def)
  have w: "length (con_buf c) = ?d" "clock_ts (con_bench_start_send c)" "con_fd c \<in> kv_open ?v (iworld s)"
    "unat (con_buf_send_len c) + 8 \<le> ?d" "nat rc \<le> unat (con_buf_send_len c)"
    "kv_in ?v (iworld s) (con_fd c) = kv_out ?v (iworld s) (con_fd c)
       @ drop (nat rc) (take (unat (con_buf_send_len c)) (con_buf c))"
    using heldD(6) [OF H, unfolded op_done_def] c ty by auto
  have od: "set (own_d o' rc) = {con_fd c}" using c ty by (simp add: own_d_def)
  define o1 where "o1 = o'\<lparr>op_info := InfoCon (c\<lparr>con_busy := 0\<rparr>)\<rparr>"
  define s1 where "s1 = put a o1 s"
  have e1: "con_upd a (\<lambda>c. c\<lparr>con_busy := 0\<rparr>) s = Inr s1"
    using con_upd_eq [OF heldD(5) [OF H] c] by (simp add: s1_def o1_def)
  have ts: "tshape o1 = tshape o'" using c by (simp add: o1_def tshape_def is_con_def)
  have I1: "?I s1" unfolding s1_def by (rule held_put [OF H heldD(1) [OF H] heldD(5) [OF H] ts])
  have c1: "cells (iops s1) a = Some o1" by (simp add: s1_def)
  show ?thesis
  proof (cases "rc < 0")
    case True
    then show ?thesis by (simp add: handle_cqe_send_def e1)
  next
    case False
    have "nat rc < 2 ^ 32" using w(4,5) d by linarith
    then have "rc < 2 ^ 32" using False by (simp add: nat_less_iff)
    then have small: "unat (word_of_int rc :: 32 word) = nat rc"
      using False by (simp add: unsigned_of_int take_bit_int_eq_self)
    show ?thesis
    proof (cases "nat rc < DEFAULT_BUFFER_SIZE cfg")
      case True
      then show ?thesis using False by (simp add: handle_cqe_send_def e1 Let_def small)
    next
      case nl: False
      have "unat (con_buf_send_len c) = nat rc"
        using nl w(4,5) by (simp add: DEFAULT_SERVER_BUFFER_SIZE_def)
      then have echo: "kv_in ?v (iworld s) (con_fd c) = kv_out ?v (iworld s) (con_fd c)" using w(6) by simp
      have b1: "DO_BENCH cfg \<Longrightarrow> bench_inv (ibench s1)" using heldD(8) [OF H] by (simp add: s1_def)
      obtain b w4 where rl: "(if latency_on cfg
         then (case now_monotonic (e_clock env) (iworld s1) of (t, w) \<Rightarrow>
           bindE (hget (Some a) (iops s1)) (\<lambda>o'. bindE (info_con o') (\<lambda>c.
           bindE (sb_record_event (e_clock env) (con_bench_start_send c) t (ibench s1, w)) (\<lambda>(b, w).
           Inr (set_world w (s1\<lparr>ibench := b\<rparr>))))))
         else Inr s1) = Inr (set_world w4 (s1\<lparr>ibench := b\<rparr>))"
        "same_uview u (iworld s1) w4" "client_no b = client_no (ibench s1)" "DO_BENCH cfg \<longrightarrow> bench_inv b"
        using record_latency [OF S b1 c1, of cfg "c\<lparr>con_busy := 0\<rparr>"] w(2) by (auto simp: o1_def)
      define o2 where "o2 = o'\<lparr>op_type := RECV_FROM_CLIENT, op_info := InfoCon (c\<lparr>con_busy := 1\<rparr>)\<rparr>"
      define s2 where "s2 = put a o2 (set_world w4 (s1\<lparr>ibench := b\<rparr>))"
      have c3: "cells (iops (set_world w4 (s1\<lparr>ibench := b\<rparr>))) a = Some o1" using c1 by (simp add: set_world_def)
      have eq: "handle_cqe_send cfg env r a rc s =
        bindE (submit_asserted env r a ''iou_config_and_submit(recv_req)'' s2) (\<lambda>s. Inr (1, s))"
        using False nl small c3
        by (simp only: handle_cqe_send_def e1 bindE_Inr Let_def rl(1))
          (simp add: type_upd_eq con_upd_eq s2_def o2_def o1_def)
      have I2: "?I (set_world w4 (s1\<lparr>ibench := b\<rparr>))" using I1 rl(2) by (intro sinv0_world) simp_all
      have "tshape o2 = tshape o1" using c by (simp add: o2_def o1_def tshape_def is_con_def)
      then have I3: "?I s2" unfolding s2_def by (rule held_put [OF H I2 c3])
      have sv: "same_view ?v (iworld s) w4" using rl(2) by (simp add: same_uview_def s1_def)
      have W: "op_waiting ?v ?d (iworld s2) o2"
        using w(1-3) echo sv by (simp add: op_waiting_def tag_fits_def o2_def s2_def set_world_def same_view_def)
      have ow: "set (own_w (request a o2)) = set (own_d o' rc)"
        unfolding od using own_w_request [of o2 a] by (simp add: tag_fits_def o2_def)
      have sub: "submitted u r (ishared s2) = submitted u r (ishared s)"
        using rl(2) by (simp add: s2_def s1_def put_def set_ops_def set_world_def submitted_def same_uview_def)
      show ?thesis unfolding eq
        by (rule resubmit_con [OF S d H I3 _ _ _ _ sub _ _ W ow])
          (use rl(3,4) in \<open>simp_all add: s2_def s1_def set_world_def\<close>)
    qed
  qed
qed

lemma handle_close_safe:
  assumes H: "held cfg u r n cn S A B xs a o' rc s" and ty: "op_type o' = CLOSE_CONNECTION"
  shows "safeE (hpost cfg u r n cn S B s) (handle_cqe_close a rc s)"
proof (cases "rc = 0")
  case False
  then show ?thesis by (simp add: handle_cqe_close_def)
next
  case True
  let ?d = "DEFAULT_SERVER_BUFFER_SIZE cfg" and ?Os = "A \<union> clients (itracker s) - {a}"
  obtain c where c: "op_info o' = InfoCon c" using heldD(10) [OF H] ty by (cases "op_info o'") (auto simp: tag_fits_def)
  note cl = held_client [OF H c]
  obtain nd where nd: "op_mem_tracker o' = Some nd"
    using client_node [OF heldD(9) [OF H] cl(1)] heldD(5) [OF H] by (metis option.inject)
  have od: "own_d o' rc = []" using c ty True by (simp add: own_d_def)
  define o1 where "o1 = o'\<lparr>op_info := InfoCon (c\<lparr>con_fd := - 1\<rparr>)\<rparr>"
  define s1 where "s1 = put a o1 s"
  have e1: "con_upd a (\<lambda>c. c\<lparr>con_fd := - 1\<rparr>) s = Inr s1"
    using con_upd_eq [OF heldD(5) [OF H] c] by (simp add: s1_def o1_def)
  have ts: "tshape o1 = tshape o'" using c by (simp add: o1_def tshape_def is_con_def)
  have I1: "sinv0 u r n cn ?d S ?Os B xs s1"
    using held_put [OF H heldD(1) [OF H] heldD(5) [OF H] ts] by (simp add: s1_def od)
  have c1: "cells (iops s1) a = Some o1" and m1: "op_mem_tracker o1 = Some nd" using nd by (simp_all add: s1_def o1_def)
  have T1: "tinv S (itracker s) (iops s1) xs" and K1: "kinv u r n cn ?d ?Os B (ishared s1)"
    using I1 by (simp_all add: sinv0_def s1_def)
  obtain t1 where t1: "mem_t_remove_node nd (itracker s) = Inr t1" "cells (mt_nodes t1) nd \<noteq> None"
    "tinv S (t1\<lparr>mt_nodes := (mt_nodes t1)\<lparr>cells := (cells (mt_nodes t1))(nd := None)\<rparr>\<rparr>)
         ((iops s1)\<lparr>cells := (cells (iops s1))(a := None)\<rparr>) (remove1 nd xs)"
    "clients (t1\<lparr>mt_nodes := (mt_nodes t1)\<lparr>cells := (cells (mt_nodes t1))(nd := None)\<rparr>\<rparr>) = clients (itracker s) - {a}"
    using tinv_remove [OF T1 cl(1) c1 m1] by blast
  let ?t = "t1\<lparr>mt_nodes := (mt_nodes t1)\<lparr>cells := (cells (mt_nodes t1))(nd := None)\<rparr>\<rparr>"
  let ?h = "(iops s1)\<lparr>cells := (cells (iops s1))(a := None)\<rparr>"
  let ?s = "set_ops ?h (s1\<lparr>itracker := ?t\<rparr>)"
  have eq: "handle_cqe_close a rc s = Inr (0, ?s)"
    using True t1(1,2) c1 m1 by (auto simp: handle_cqe_close_def e1 handle_closing_client_def s1_def)
  have "heap_ok ?h" using kinvD(2) [OF K1] c1 by (intro heap_ok_upd) auto
  then have K2: "kinv u r n cn ?d ?Os B ((ishared s1)\<lparr>sh_ops := ?h\<rparr>)"
    by (intro kinv_ops [OF K1]) auto
  have Os: "?Os = A \<union> clients ?t" using t1(4) cl(2) by blast
  have I2: "sinv0 u r n cn ?d S (A \<union> clients (itracker ?s)) B (remove1 nd xs) ?s"
    using K2 t1(3) unfolding Os by (simp add: sinv0_def set_ops_def)
  have "accept_out S A (iops ?s)"
  proof (rule accept_out_frame [OF heldD(4) [OF H]])
    fix b assume "b \<in> S"
    then have "b \<noteq> a" using client_not_stack [OF heldD(9) [OF H] cl(1)] by blast
    then show "cells (iops ?s) b = cells (iops s) b" by (simp add: set_ops_def s1_def)
  qed
  then show ?thesis
    unfolding eq using I2 heldD(3) [OF H] heldD(8) [OF H]
    by (auto simp: hpost_def iinv_def set_ops_def s1_def)
qed

lemma handle_timer_safe:
  assumes S: "uring_spec env u r cn"
    and H: "held cfg u r n cn S A B xs a o' rc s" and ty: "op_type o' = TIMER_EXPIRED"
  shows "safeE (hpost cfg u r n cn S B s) (handle_cqe_timer cfg env rc s)"
proof -
  let ?d = "DEFAULT_SERVER_BUFFER_SIZE cfg"
  obtain i where i: "op_info o' = InfoTimer i" using heldD(10) [OF H] ty by (cases "op_info o'") (auto simp: tag_fits_def)
  have od: "own_d o' rc = []" using i by (simp add: own_d_def)
  have nc: "a \<notin> clients (itracker s)"
  proof
    assume "a \<in> clients (itracker s)"
    then obtain o2 where "cells (iops s) a = Some o2" "is_con o2" using client_node [OF heldD(9) [OF H]] by metis
    then show False using heldD(5) [OF H] i by (simp add: is_con_def)
  qed
  obtain b w where bw: "sb_start (e_clock env) (ibench s, iworld s) = (b, w)" by force
  have w: "same_uview u (iworld s) w"
  proof (cases "do_measure (ibench s) = 0")
    case True
    then obtain t where "e_clock env (iworld s) = (t, w)"
      using bw by (auto simp: sb_start_def now_monotonic_def split: prod.splits)
    then show ?thesis using uring_specD(4) [OF S] by blast
  next
    case False
    then show ?thesis using bw by (simp add: sb_start_def)
  qed
  define s1 where "s1 = with_ibench cfg (sb_start (e_clock env)) s"
  have s1: "s1 = (if DO_BENCH cfg then set_world w (s\<lparr>ibench := b\<rparr>) else s)"
    by (simp add: s1_def with_ibench_def bw)
  have I: "sinv0 u r n cn ?d S (A - {a} \<union> clients (itracker s)) B xs s"
    using heldD(1) [OF H] nc by (simp add: od Un_Diff)
  have "sinv0 u r n cn ?d S (A - {a} \<union> clients (itracker s1)) B xs s1"
  proof (cases "DO_BENCH cfg")
    case True
    have "sinv0 u r n cn ?d S (A - {a} \<union> clients (itracker s)) B xs (set_world w (s\<lparr>ibench := b\<rparr>))"
      using I w by (intro sinv0_world) simp_all
    then show ?thesis using True by (simp add: s1) (simp add: set_world_def)
  qed (use I in \<open>simp add: s1\<close>)
  moreover have "accept_out S (A - {a}) (iops s1)"
    using heldD(4,5) [OF H] i unfolding accept_out_def s1 by (auto simp: set_world_def)
  moreover have "DO_BENCH cfg \<longrightarrow> bench_inv (ibench s1)"
    using bench_inv_ops(1) [OF heldD(8) [OF H], of "e_clock env" "iworld s"] by (simp add: s1 bw set_world_def)
  moreover have "client_no (ibench s1) = client_no (ibench s)"
    using sb_start_simps(3) [of "e_clock env" "ibench s" "iworld s"] by (simp add: s1 bw set_world_def)
  moreover have "submitted u r (ishared s1) = submitted u r (ishared s)" "irunning s1 = irunning s"
    using w by (simp_all add: s1 submitted_def set_world_def same_uview_def)
  moreover have "A - {a} \<subseteq> S" using heldD(3) [OF H] by blast
  ultimately have "hpost cfg u r n cn S B s (0, s1)" by (auto simp: hpost_def iinv_def)
  then show ?thesis by (simp add: handle_cqe_timer_def s1_def)
qed

subsection \<open>A new client\<close>

lemma live_ops: "tinv S t ops xs \<Longrightarrow> b \<in> S \<union> clients t \<Longrightarrow> cells ops b \<noteq> None"
proof -
  assume T: "tinv S t ops xs" and b: "b \<in> S \<union> clients t"
  show ?thesis
  proof (cases "b \<in> S")
    case True
    then show ?thesis using tinvD(5) [OF T True] by auto
  next
    case False
    then have "b \<in> clients t" using b by blast
    then obtain o' where "cells ops b = Some o'" using client_node [OF T] by metis
    then show ?thesis by simp
  qed
qed

lemma tinv_new:
  assumes T: "tinv S t ops xs" and ok: "heap_ok ops"
    and nd: "nd = next_addr (mt_nodes t)" and a: "a = next_addr ops"
    and h: "h = (mt_nodes t)\<lparr>next_addr := Suc nd,
        cells := (cells (mt_nodes t))(nd := Some \<lparr>mt_allocated_op = Some a, mt_next = None, mt_prev = None\<rparr>)\<rparr>"
    and o': "tshape o' = (Some nd, True)"
  shows "\<exists>t2. mem_t_push_back nd (t\<lparr>mt_nodes := h\<rparr>) = Inr t2 \<and> clients t2 = insert a (clients t)
     \<and> (\<forall>k. tinv S t2 (ops\<lparr>cells := (cells ops)(a := Some o'), next_addr := k\<rparr>) (xs @ [nd]))"
proof -
  let ?t1 = "t\<lparr>mt_nodes := h\<rparr>"
  have fresh: "cells (mt_nodes t) nd = None" using tinvD(1) [OF T] nd by (simp add: heap_ok_def)
  then have f0: "node_ops t nd = None" by (simp add: node_ops_def)
  have nx: "nd \<notin> set xs" using tinvD(4) [OF T, of nd] f0 by auto
  have tr1: "tracks (node_ops ?t1) ?t1 xs"
    using nx by (intro tracks_nodes [OF tinvD(2) [OF T]]) (auto simp: h)
  have N1: "node_ops ?t1 = (node_ops t)(nd := Some (Some a))" by (auto simp: node_ops_def h)
  have al: "node_allocated nd ?t1" by (simp add: node_allocated_def h)
  obtain t2 where t2: "mem_t_push_back nd ?t1 = Inr t2" "tracks (node_ops ?t1) t2 (xs @ [nd])"
    using push_back_tracks [OF tr1 nx al] by (auto simp: okE_iff)
  have N2: "node_ops t2 = (node_ops t)(nd := Some (Some a))" using t2(2) N1 by (simp add: tracks_def)
  have cl: "clients t2 = insert a (clients t)"
  proof (intro set_eqI iffI)
    fix b assume "b \<in> clients t2"
    then obtain x where "node_ops t2 x = Some (Some b)" unfolding clients_def by blast
    then show "b \<in> insert a (clients t)" unfolding N2 clients_def by (auto split: if_splits)
  next
    fix b assume b: "b \<in> insert a (clients t)"
    show "b \<in> clients t2"
    proof (cases "b = a")
      case True
      have "node_ops t2 nd = Some (Some a)" unfolding N2 by simp
      then show ?thesis using True unfolding clients_def by blast
    next
      case False
      then obtain x where x: "node_ops t x = Some (Some b)" using b unfolding clients_def by blast
      then have "x \<noteq> nd" using f0 by auto
      then have "node_ops t2 x = Some (Some b)" using x unfolding N2 by simp
      then show ?thesis unfolding clients_def by blast
    qed
  qed
  have na: "next_addr (mt_nodes t2) = Suc nd" using push_back_next [OF t2(1)] by (simp add: h)
  have dom: "cells (mt_nodes t2) b = None \<longleftrightarrow> b \<noteq> nd \<and> cells (mt_nodes t) b = None" for b
    using fun_cong [OF N2, of b]
    by (cases "cells (mt_nodes t2) b"; cases "cells (mt_nodes t) b") (auto simp: node_ops_def split: if_splits)
  have ok2: "heap_ok (mt_nodes t2)" using tinvD(1) [OF T] na nd dom by (auto simp: heap_ok_def)
  have af: "cells ops a = None" using ok a by (simp add: heap_ok_def)
  have "tinv S t2 (ops\<lparr>cells := (cells ops)(a := Some o'), next_addr := k\<rparr>) (xs @ [nd])" for k
    unfolding tinv_def
  proof (intro conjI allI ballI impI)
    show "heap_ok (mt_nodes t2)" by (rule ok2)
    show "tracks (node_ops t2) t2 (xs @ [nd])" using t2(2) N1 N2 by simp
    show "b \<in> set (xs @ [nd])" if "node_ops t2 b \<noteq> None" for b
      using that tinvD(3) [OF T, of b] unfolding N2 by (auto split: if_splits)
    show "\<exists>aa. node_ops t2 b = Some (Some aa)
        \<and> map_option tshape (cells (ops\<lparr>cells := (cells ops)(a := Some o'), next_addr := k\<rparr>) aa) = Some (Some b, True)"
      if "b \<in> set (xs @ [nd])" for b
    proof (cases "b = nd")
      case True
      then show ?thesis using o' unfolding N2 by simp
    next
      case False
      then have "b \<in> set xs" using that by simp
      from tinvD(4) [OF T this] obtain aa where aa: "node_ops t b = Some (Some aa)"
          "map_option tshape (cells ops aa) = Some (Some b, True)" by blast
      have "aa \<noteq> a" using aa(2) af by auto
      then show ?thesis using aa False unfolding N2 by simp
    qed
    show "map_option tshape (cells (ops\<lparr>cells := (cells ops)(a := Some o'), next_addr := k\<rparr>) b) = Some (None, False)"
      if "b \<in> S" for b
      using tinvD(5) [OF T that] af by auto
    show "b \<in> S \<or> b \<in> clients t2"
      if "cells (ops\<lparr>cells := (cells ops)(a := Some o'), next_addr := k\<rparr>) b \<noteq> None" for b
      using that tinvD(6) [OF T, of b] unfolding cl by (auto split: if_splits)
  qed
  then show ?thesis using t2(1) cl by blast
qed

text \<open>The state after \<open>handle_new_client\<close>.\<close>

definition client_added ::
    "config \<Rightarrow> 'w uview \<Rightarrow> iou \<Rightarrow> nat \<Rightarrow> nat \<Rightarrow> nat set \<Rightarrow> nat set \<Rightarrow> int set \<Rightarrow> nat list \<Rightarrow> 'w iou_state \<Rightarrow> 'w iou_state \<Rightarrow> bool" where
  "client_added cfg u r n cn S Os B xs s s' \<longleftrightarrow> (\<exists>a2 nd.
     sinv0 u r n cn (DEFAULT_SERVER_BUFFER_SIZE cfg) S (insert a2 Os) B (xs @ [nd]) s'
     \<and> cells (iops s) a2 = None \<and> clients (itracker s') = insert a2 (clients (itracker s))
     \<and> (\<forall>b. b \<notin> Os \<longrightarrow> b \<noteq> a2 \<longrightarrow> cells (iops s') b = cells (iops s) b))
     \<and> irunning s' = irunning s \<and> client_no (ibench s') \<le> client_no (ibench s) + 1
     \<and> (DO_BENCH cfg \<longrightarrow> bench_inv (ibench s'))
     \<and> length (submitted u r (ishared s')) = Suc (length (submitted u r (ishared s)))"

lemma tracked_client_safe:
  assumes S: "uring_spec env u r cn" and d: "DEFAULT_SERVER_BUFFER_SIZE cfg < 2 ^ 32"
    and I: "sinv0 u r n cn (DEFAULT_SERVER_BUFFER_SIZE cfg) S Os (B \<union> {f}) xs s" and fB: "f \<notin> B"
    and Os: "Os \<subseteq> S \<union> clients (itracker s)" and b: "DO_BENCH cfg \<Longrightarrow> bench_inv (ibench s)"
    and cl: "DO_BENCH cfg \<Longrightarrow> client_no (ibench s) + 1 < 2 ^ 31"
    and io: "kv_in (uv_view u) (iworld s) f = []" "kv_out (uv_view u) (iworld s) f = []"
  shows "safeE (client_added cfg u r n cn S Os B xs s) (handle_new_client cfg env r f s)"
proof -
  let ?d = "DEFAULT_SERVER_BUFFER_SIZE cfg" and ?v = "uv_view u"
  have K: "kinv u r n cn ?d Os (B \<union> {f}) (ishared s)" and T: "tinv S (itracker s) (iops s) xs"
    using I by (auto simp: sinv0_def)
  obtain m1 w1 where 1: "e_malloc env sizeof_node (iworld s) = (m1, w1)" by force
  obtain m2 w2 where 2: "e_malloc env (sizeof_iou_op cfg) w1 = (m2, w2)" by force
  have sw: "same_uview u (iworld s) w2"
    by (rule same_uview_trans [OF uring_specD(3) [OF S 1] uring_specD(3) [OF S 2]])
  define nd where "nd = next_addr (mt_nodes (itracker s))"
  define a where "a = next_addr (iops s)"
  define con where "con = \<lparr>con_fd = f, con_busy = 0, con_buf_send_len = 0, con_buf = replicate ?d 0,
      con_bench_start_send = zero_ts\<rparr>"
  define o0 where "o0 = \<lparr>op_type = ACCEPTED_CONNECTION, op_info = InfoCon con, op_mem_tracker = Some nd\<rparr>"
  define o2 where "o2 = o0\<lparr>op_type := RECV_FROM_CLIENT, op_info := InfoCon (con\<lparr>con_busy := 1\<rparr>)\<rparr>"
  define h where "h = (mt_nodes (itracker s))\<lparr>next_addr := Suc nd,
      cells := (cells (mt_nodes (itracker s)))(nd := Some \<lparr>mt_allocated_op = Some a, mt_next = None, mt_prev = None\<rparr>)\<rparr>"
  have ts: "tshape o2 = (Some nd, True)" by (simp add: o2_def o0_def tshape_def is_con_def)
  obtain t2 where t2: "mem_t_push_back nd ((itracker s)\<lparr>mt_nodes := h\<rparr>) = Inr t2"
    "clients t2 = insert a (clients (itracker s))"
    "\<And>k. tinv S t2 ((iops s)\<lparr>cells := (cells (iops s))(a := Some o2), next_addr := k\<rparr>) (xs @ [nd])"
    using tinv_new [OF T kinvD(2) [OF K] nd_def a_def h_def ts] by blast
  let ?ops = "(iops s)\<lparr>cells := (cells (iops s))(a := Some o2), next_addr := Suc a\<rparr>"
  define s3 where "s3 = set_ops ?ops (set_world w2 (s\<lparr>itracker := t2\<rparr>))"
  have ha: "halloc \<lparr>mt_allocated_op = None, mt_next = None, mt_prev = None\<rparr> (mt_nodes (itracker s))
      = (nd, (mt_nodes (itracker s))\<lparr>cells := (cells (mt_nodes (itracker s)))(nd := Some \<lparr>mt_allocated_op = None,
         mt_next = None, mt_prev = None\<rparr>), next_addr := Suc nd\<rparr>)"
    by (simp add: halloc_def nd_def)
  have hb: "halloc o0 (iops s) = (a, (iops s)\<lparr>cells := (cells (iops s))(a := Some o0), next_addr := Suc a\<rparr>)"
    by (simp add: halloc_def a_def)
  have up: "type_upd a RECV_FROM_CLIENT (set_ops ((iops s)\<lparr>cells := (cells (iops s))(a := Some o0), next_addr := Suc a\<rparr>)
      (set_world w2 (s\<lparr>itracker := t2\<rparr>))) = Inr (put a (o0\<lparr>op_type := RECV_FROM_CLIENT\<rparr>)
        (set_ops ((iops s)\<lparr>cells := (cells (iops s))(a := Some o0), next_addr := Suc a\<rparr>)
      (set_world w2 (s\<lparr>itracker := t2\<rparr>))))"
    by (rule type_upd_eq) (simp add: set_ops_def set_world_def)
  have cu: "con_upd a (\<lambda>c. c\<lparr>con_busy := 1\<rparr>) (put a (o0\<lparr>op_type := RECV_FROM_CLIENT\<rparr>)
        (set_ops ((iops s)\<lparr>cells := (cells (iops s))(a := Some o0), next_addr := Suc a\<rparr>)
      (set_world w2 (s\<lparr>itracker := t2\<rparr>)))) = Inr s3"
    using con_upd_eq [of "put a (o0\<lparr>op_type := RECV_FROM_CLIENT\<rparr>)
        (set_ops ((iops s)\<lparr>cells := (cells (iops s))(a := Some o0), next_addr := Suc a\<rparr>)
      (set_world w2 (s\<lparr>itracker := t2\<rparr>)))" a "o0\<lparr>op_type := RECV_FROM_CLIENT\<rparr>" con]
    by (simp add: o0_def) (simp add: s3_def o2_def o0_def put_def set_ops_def set_world_def)
  define fin where "fin = (\<lambda>s :: 'a iou_state. if DO_BENCH cfg
     then bindE (sb_client_connected (ibench s)) (\<lambda>b. Inr (s\<lparr>ibench := b\<rparr>)) else Inr s)"
  have eq: "handle_new_client cfg env r f s =
     bindE (assert_nnull m1 ''calloc tracker'') (\<lambda>_. bindE (assert_nnull m2 ''calloc client_op'') (\<lambda>_.
     bindE (submit_asserted env r a ''iou_config_and_submit(recv_req)'' s3) fin))"
    unfolding handle_new_client_def 1 2 prod.case con_def [symmetric] o0_def [symmetric] ha hb
    by (simp add: fin_def t2(1) [unfolded h_def] up cu)
  have "heap_ok ?ops" using kinvD(2) [OF K] by (auto simp: heap_ok_def a_def)
  moreover have "cells ?ops b = cells (iops s) b" if "b \<in> Os" for b
  proof -
    have "cells (iops s) b \<noteq> None" using live_ops [OF T] that Os by blast
    moreover have "cells (iops s) a = None" using kinvD(2) [OF K] by (simp add: heap_ok_def a_def)
    ultimately show ?thesis by auto
  qed
  moreover have "kinv u r n cn ?d Os (B \<union> {f}) ((ishared s)\<lparr>sh_world := w2\<rparr>)" by (rule kinv_world(1) [OF K sw])
  ultimately have "kinv u r n cn ?d Os (B \<union> {f}) ((ishared s)\<lparr>sh_world := w2, sh_ops := ?ops\<rparr>)"
    by (intro kinv_ops) simp_all
  then have I3: "sinv0 u r n cn ?d S Os (B \<union> {f}) (xs @ [nd]) s3"
    using t2(3) by (simp add: sinv0_def s3_def set_ops_def set_world_def)
  have aO: "a \<notin> Os"
  proof
    assume "a \<in> Os"
    then have "cells (iops s) a \<noteq> None" using live_ops [OF T] Os by blast
    then show False using kinvD(2) [OF K] by (simp add: heap_ok_def a_def)
  qed
  have an: "cells (iops s) a = None" using kinvD(2) [OF K] by (simp add: heap_ok_def a_def)
  have fo: "f \<in> kv_open ?v (iworld s)" using kinvD(9) [OF K] by simp
  have W: "op_waiting ?v ?d (iworld s3) o2"
    using fo io sw by (simp add: op_waiting_def tag_fits_def o2_def o0_def con_def s3_def set_ops_def set_world_def
        same_uview_def same_view_def clock_ts_def)
  have ow: "set (own_w (request a o2)) = {f}"
    using own_w_request [of o2 a] by (simp add: tag_fits_def o2_def o0_def con_def)
  have c3: "cells (iops s3) a = Some o2" by (simp add: s3_def set_ops_def)
  have post: "safeE (client_added cfg u r n cn S Os B xs s) (fin s')"
    if I': "sinv0 u r n cn ?d S (insert a Os) (B \<union> {f} - {f}) (xs @ [nd]) s'" and h': "handed_over u r Os (B \<union> {f}) a o2 s3 s'" for s'
  proof -
    have I4: "sinv0 u r n cn ?d S (insert a Os) B (xs @ [nd]) s'" using I' fB by simp
    have c: "clients (itracker s') = insert a (clients (itracker s))"
      using h' t2(2) by (simp add: handed_over_def s3_def set_ops_def set_world_def)
    have ib: "ibench s' = ibench s" "irunning s' = irunning s"
      using h' by (simp_all add: handed_over_def s3_def set_ops_def set_world_def)
    have ce: "\<forall>b. b \<notin> Os \<longrightarrow> b \<noteq> a \<longrightarrow> cells (iops s') b = cells (iops s) b"
      using h' by (simp add: handed_over_def oframe_def s3_def set_ops_def set_world_def)
    have sub: "length (submitted u r (ishared s')) = Suc (length (submitted u r (ishared s)))"
      using h' sw by (simp add: handed_over_def s3_def set_ops_def set_world_def submitted_def same_uview_def)
    have ex: "\<exists>a2 nd. sinv0 u r n cn ?d S (insert a2 Os) B (xs @ [nd]) (s'\<lparr>ibench := b'\<rparr>)
       \<and> cells (iops s) a2 = None \<and> clients (itracker s') = insert a2 (clients (itracker s))
       \<and> (\<forall>b. b \<notin> Os \<longrightarrow> b \<noteq> a2 \<longrightarrow> cells (iops s') b = cells (iops s) b)" for b'
      using I4 an c ce by (intro exI [of _ a] exI [of _ nd]) simp
    show ?thesis
    proof (cases "DO_BENCH cfg")
      case True
      then have "sb_client_connected (ibench s') = Inr ((ibench s)\<lparr>client_no := client_no (ibench s) + 1\<rparr>)"
        using b cl ib by (simp add: sb_client_connected_def bench_inv_def)
      moreover have "bench_inv ((ibench s)\<lparr>client_no := client_no (ibench s) + 1\<rparr>)"
        using b cl True by (simp add: bench_inv_def)
      ultimately show ?thesis
        using True ex sub ib by (simp add: fin_def client_added_def)
    next
      case False
      then show ?thesis
        using ex [of "ibench s'"] sub ib by (simp add: fin_def client_added_def)
    qed
  qed
  have "safeE (client_added cfg u r n cn S Os B xs s) (bindE (submit_asserted env r a ''iou_config_and_submit(recv_req)'' s3) fin)"
    unfolding safeE_bindE
    by (rule safeE_mono [OF submit_asserted_safe [OF S d I3 aO c3 W]]) (use post ow in auto)
  then show ?thesis unfolding eq by simp
qed

lemma handle_accept_safe:
  assumes S: "uring_spec env u r cn" and d: "DEFAULT_SERVER_BUFFER_SIZE cfg < 2 ^ 32"
    and H: "held cfg u r n cn S A B xs a o' rc s" and ty: "op_type o' = ACCEPTED_CONNECTION"
    and cl: "DO_BENCH cfg \<Longrightarrow> client_no (ibench s) + 1 < 2 ^ 31"
  shows "safeE (hpost cfg u r n cn S B s) (handle_cqe_accept cfg env r a rc s)"
proof (cases "rc < 0")
  case True
  then show ?thesis by (simp add: handle_cqe_accept_def)
next
  case False
  let ?d = "DEFAULT_SERVER_BUFFER_SIZE cfg" and ?Os = "A \<union> clients (itracker s) - {a}"
  obtain i where i: "op_info o' = InfoAccept i" using heldD(10) [OF H] ty by (cases "op_info o'") (auto simp: tag_fits_def)
  have od: "own_d o' rc = [rc]" using i False by (simp add: own_d_def)
  have nc: "a \<notin> clients (itracker s)"
  proof
    assume "a \<in> clients (itracker s)"
    then obtain o2 where "cells (iops s) a = Some o2" "is_con o2" using client_node [OF heldD(9) [OF H]] by metis
    then show False using heldD(5) [OF H] i by (simp add: is_con_def)
  qed
  then have aA: "a \<in> A" using heldD(2) [OF H] by blast
  have I: "sinv0 u r n cn ?d S ?Os (B \<union> {rc}) xs s" using heldD(1) [OF H] by (simp add: od)
  have rB: "rc \<notin> B" using heldD(7) [OF H] by (simp add: od)
  have sub: "?Os \<subseteq> S \<union> clients (itracker s)" using heldD(3) [OF H] by blast
  have io: "kv_in (uv_view u) (iworld s) rc = []" "kv_out (uv_view u) (iworld s) rc = []"
    using heldD(6) [OF H] i False by (auto simp: op_done_def)
  have post: "safeE (hpost cfg u r n cn S B s) (bindE (submit_asserted env r a ''iou_config_and_submit(accept_req)'' s1) (\<lambda>s. Inr (2, s)))"
    if C: "client_added cfg u r n cn S ?Os B xs s s1" for s1
  proof -
    obtain a2 nd where a2: "sinv0 u r n cn ?d S (insert a2 ?Os) B (xs @ [nd]) s1" "cells (iops s) a2 = None"
      "clients (itracker s1) = insert a2 (clients (itracker s))"
      "\<And>b. b \<notin> ?Os \<Longrightarrow> b \<noteq> a2 \<Longrightarrow> cells (iops s1) b = cells (iops s) b"
      using C unfolding client_added_def by blast
    have ne: "a \<noteq> a2" using a2(2) heldD(5) [OF H] by auto
    have c1: "cells (iops s1) a = Some o'" using a2(4) [of a] ne heldD(5) [OF H] by simp
    have W: "op_waiting (uv_view u) ?d (iworld s1) o'" using i heldD(10) [OF H] by (simp add: op_waiting_def)
    have ow: "own_w (request a o') = []" using own_w_request [OF heldD(10) [OF H], of a] i by simp
    have ni: "a \<notin> insert a2 ?Os" using ne by simp
    have fin: "hpost cfg u r n cn S B s (2, s')"
      if I': "sinv0 u r n cn ?d S (insert a (insert a2 ?Os)) B (xs @ [nd]) s'"
        and h': "handed_over u r (insert a2 ?Os) B a o' s1 s'" for s'
    proof -
      have "insert a (insert a2 ?Os) = A \<union> clients (itracker s1)" using a2(3) aA by blast
      then have I2: "sinv0 u r n cn ?d S (A \<union> clients (itracker s')) B (xs @ [nd]) s'"
        using I' h' by (simp add: handed_over_def)
      have "accept_out S A (iops s')"
      proof (rule accept_out_frame [OF heldD(4) [OF H]])
        fix b assume b: "b \<in> S" "b \<notin> A"
        then have n1: "b \<notin> ?Os" using client_not_stack [OF heldD(9) [OF H], of b] by blast
        have n2: "b \<noteq> a2" using live_ops [OF heldD(9) [OF H], of b] b(1) a2(2) by auto
        have "cells (iops s') b = cells (iops s1) b" using h' n1 n2 by (simp add: handed_over_def oframe_def)
        then show "cells (iops s') b = cells (iops s) b" using a2(4) [OF n1 n2] by simp
      qed
      then show ?thesis
        using I2 heldD(3) [OF H] h' C by (auto simp: hpost_def iinv_def handed_over_def client_added_def)
    qed
    show ?thesis
      unfolding safeE_bindE safeE_simps
      by (rule safeE_mono [OF submit_asserted_safe [OF S d a2(1) ni c1 W]]) (use fin ow in auto)
  qed
  have "safeE (hpost cfg u r n cn S B s) (bindE (handle_new_client cfg env r rc s)
      (\<lambda>s. bindE (submit_asserted env r a ''iou_config_and_submit(accept_req)'' s) (\<lambda>s. Inr (2, s))))"
    by (subst safeE_bindE, rule safeE_mono [OF tracked_client_safe [OF S d I rB sub heldD(8) [OF H] cl io]])
      (use post in auto)
  then show ?thesis using False by (simp add: handle_cqe_accept_def)
qed

end
