(* ===== verification/UringRounds.thy ===== *)
theory UringRounds
  imports UringHandlers UringSetup
begin

text \<open>
  The rounds of the io_uring server's loop from its start-up on: each keeps the invariant, and
  the counter of requests to submit is the number of requests that have been put into the
  submission ring since it was last handed to the kernel.
\<close>

unbundle bit_operations_syntax

subsection \<open>Kernel activity between the program's steps\<close>

lemma sinv0_steps:
  assumes "sinv0 u r n cn d S Os B xs s" "d < 2 ^ 32" "ksteps u r cn (ishared s) sh"
  shows "sinv0 u r n cn d S Os B xs (s\<lparr>ishared := sh\<rparr>)" "kframe u r Os B (ishared s) sh"
proof -
  have K: "kinv u r n cn d Os B (ishared s)" and T: "tinv S (itracker s) (iops s) xs"
    using assms(1) by (auto simp: sinv0_def)
  show F: "kframe u r Os B (ishared s) sh" using kinv_steps [OF K assms(2,3)] by blast
  then have "oframe u Os B (ishared s) sh" by (simp add: kframe_oframe)
  from tinv_oframe [OF T this] show "sinv0 u r n cn d S Os B xs (s\<lparr>ishared := sh\<rparr>)"
    using kinv_steps [OF K assms(2,3)] by (simp add: sinv0_def)
qed

lemma iinv_steps:
  assumes I: "iinv cfg u r n cn S B s" and d: "DEFAULT_SERVER_BUFFER_SIZE cfg < 2 ^ 32"
    and st: "ksteps u r cn (ishared s) sh"
  shows "iinv cfg u r n cn S B (s\<lparr>ishared := sh\<rparr>)" "submitted u r sh = submitted u r (ishared s)"
proof -
  obtain xs A where A: "sinv0 u r n cn (DEFAULT_SERVER_BUFFER_SIZE cfg) S (A \<union> clients (itracker s)) B xs s"
      "A \<subseteq> S" "accept_out S A (iops s)" and b: "DO_BENCH cfg \<longrightarrow> bench_inv (ibench s)"
    using I by (auto simp: iinv_def)
  note P = sinv0_steps [OF A(1) d st]
  show "submitted u r sh = submitted u r (ishared s)" using P(2) by (simp add: kframe_def)
  have T: "tinv S (itracker s) (iops s) xs" using A(1) by (simp add: sinv0_def)
  have "accept_out S A (sh_ops sh)"
  proof (rule accept_out_frame [OF A(3)])
    fix b assume "b \<in> S" "b \<notin> A"
    then have "b \<notin> A \<union> clients (itracker s)" using client_not_stack [OF T, of b] by blast
    then show "cells (sh_ops sh) b = cells (iops s) b" using P(2) by (simp add: kframe_def)
  qed
  then show "iinv cfg u r n cn S B (s\<lparr>ishared := sh\<rparr>)"
    using P(1) A(2) b unfolding iinv_def by auto
qed

lemma iinv_running [simp]: "iinv cfg u r n cn S B (s\<lparr>irunning := x\<rparr>) = iinv cfg u r n cn S B s"
  by (simp add: iinv_def sinv0_def)

lemma iinv_got_signal [simp]: "iinv cfg u r n cn S B (got_signal sig s) = iinv cfg u r n cn S B s"
  by (simp add: got_signal_def)

lemma iinv_bench:
  "iinv cfg u r n cn S B s \<Longrightarrow> (DO_BENCH cfg \<longrightarrow> bench_inv b) \<Longrightarrow> iinv cfg u r n cn S B (s\<lparr>ibench := b\<rparr>)"
  by (auto simp: iinv_def)

lemma iinv_world:
  "iinv cfg u r n cn S B s \<Longrightarrow> same_uview u (iworld s) w \<Longrightarrow> iinv cfg u r n cn S B (set_world w s)"
  unfolding iinv_def by (auto simp: set_world_def intro!: sinv0_world [unfolded set_world_def])

subsection \<open>Serving a completion\<close>

lemma service_safe:
  assumes S: "uring_spec env u r cn" and d: "DEFAULT_SERVER_BUFFER_SIZE cfg < 2 ^ 32"
    and H: "held cfg u r n cn S A B xs a o' (cqe_res c) s" and c: "cqe_user_data c = Some a"
    and cl: "DO_BENCH cfg \<Longrightarrow> client_no (ibench s) + 1 < 2 ^ 31"
  shows "safeE (hpost cfg u r n cn S B s) (service_cqe_events cfg env r c s)"
proof -
  define s1 where "s1 = (if DO_BENCH cfg then s\<lparr>ibench := sb_requests_performed (ibench s) 1\<rparr> else s)"
  have b1: "DO_BENCH cfg \<Longrightarrow> bench_inv (ibench s1)"
    using bench_inv_ops(3) [OF heldD(8) [OF H]] by (simp add: s1_def)
  have n1: "client_no (ibench s1) = client_no (ibench s)" by (simp add: s1_def sb_requests_performed_def)
  have H1: "held cfg u r n cn S A B xs a o' (cqe_res c) s1"
    using H b1 unfolding held_def by (auto simp: s1_def)
  have c1: "cells (iops s1) a = Some o'" using heldD(5) [OF H1] .
  have cl1: "DO_BENCH cfg \<Longrightarrow> client_no (ibench s1) + 1 < 2 ^ 31" using cl n1 by simp
  have "safeE (hpost cfg u r n cn S B s1) (case op_type o' of
           ACCEPTED_CONNECTION \<Rightarrow> handle_cqe_accept cfg env r a (cqe_res c) s1
         | CLOSE_CONNECTION \<Rightarrow> handle_cqe_close a (cqe_res c) s1
         | RECV_FROM_CLIENT \<Rightarrow> handle_cqe_recv cfg env r a (cqe_res c) s1
         | SEND_TO_CLIENT \<Rightarrow> handle_cqe_send cfg env r a (cqe_res c) s1
         | TIMER_EXPIRED \<Rightarrow> handle_cqe_timer cfg env (cqe_res c) s1)"
  proof (cases "op_type o'")
    case ACCEPTED_CONNECTION
    then show ?thesis using handle_accept_safe [OF S d H1 _ cl1] by simp
  next
    case CLOSE_CONNECTION
    then show ?thesis using handle_close_safe [OF H1] by simp
  next
    case RECV_FROM_CLIENT
    then show ?thesis using handle_recv_safe [OF S d H1] by simp
  next
    case SEND_TO_CLIENT
    then show ?thesis using handle_send_safe [OF S d H1] by simp
  next
    case TIMER_EXPIRED
    then show ?thesis using handle_timer_safe [OF S H1] by simp
  qed
  moreover have "hpost cfg u r n cn S B s1 = hpost cfg u r n cn S B s"
    by (auto simp: hpost_def fun_eq_iff n1 s1_def sb_requests_performed_def)
  ultimately show ?thesis
    using c c1 by (simp add: service_cqe_events_def s1_def [symmetric] Let_def)
qed

subsection \<open>One round\<close>

text \<open>The requests put into the ring and not handed over by the program yet are counted: \<open>base\<close> is
  how many had been submitted when the program last entered the kernel.\<close>

definition counted :: "'w uview \<Rightarrow> iou \<Rightarrow> nat \<Rightarrow> int \<Rightarrow> 'w iou_state \<Rightarrow> bool" where
  "counted u r base k s \<longleftrightarrow> 0 \<le> k \<and> length (submitted u r (ishared s)) = base + nat k"

definition round_ok ::
    "config \<Rightarrow> 'w uview \<Rightarrow> iou \<Rightarrow> nat \<Rightarrow> nat \<Rightarrow> nat set \<Rightarrow> int set \<Rightarrow> nat \<Rightarrow> int \<times> 'w iou_state \<Rightarrow> int \<times> 'w iou_state \<Rightarrow> bool" where
  "round_ok cfg u r n cn S B base = (\<lambda>(k, s) (k', s'). iinv cfg u r n cn S B s' \<and> k' \<le> k + 2
     \<and> irunning s' \<in> {irunning s, 0} \<and> client_no (ibench s') \<le> client_no (ibench s) + 1
     \<and> (counted u r base k' s' \<or> k' = 0 \<and> counted u r (length (submitted u r (ishared s'))) k' s'))"

lemma round_safe:
  assumes S: "uring_spec env u r cn" and d: "DEFAULT_SERVER_BUFFER_SIZE cfg < 2 ^ 32"
    and I: "iinv cfg u r n cn S B s" and k: "counted u r base k s" "k + 2 < 2 ^ 31"
    and cl: "DO_BENCH cfg \<Longrightarrow> client_no (ibench s) + 1 < 2 ^ 31"
  shows "safeE (round_ok cfg u r n cn S B base (k, s)) (iou_round cfg env r (k, s))"
proof -
  let ?d = "DEFAULT_SERVER_BUFFER_SIZE cfg"
  obtain xs A where A: "sinv0 u r n cn ?d S (A \<union> clients (itracker s)) B xs s"
      "A \<subseteq> S" "accept_out S A (iops s)" and b: "DO_BENCH cfg \<longrightarrow> bench_inv (ibench s)"
    using I by (auto simp: iinv_def)
  have K: "kinv u r n cn ?d (A \<union> clients (itracker s)) B (ishared s)" and T: "tinv S (itracker s) (iops s) xs"
    using A(1) by (auto simp: sinv0_def)
  show ?thesis
  proof (cases rule: get_cqe_kinv [OF S K d])
    case (1 sh)
    have "oframe u (A \<union> clients (itracker s)) B (ishared s) sh" using 1(3) by (simp add: kframe_oframe)
    from tinv_oframe [OF T this] have T1: "tinv S (itracker s) (sh_ops sh) xs" .
    have "accept_out S A (sh_ops sh)"
    proof (rule accept_out_frame [OF A(3)])
      fix b assume "b \<in> S" "b \<notin> A"
      then have "b \<notin> A \<union> clients (itracker s)" using client_not_stack [OF T, of b] by blast
      then show "cells (sh_ops sh) b = cells (iops s) b" using 1(3) by (simp add: kframe_def)
    qed
    then have I1: "iinv cfg u r n cn S B (s\<lparr>ishared := sh\<rparr>)"
      using 1(2) T1 A(2) b unfolding iinv_def by (auto simp: sinv0_def)
    have fin: "round_ok cfg u r n cn S B base (k, s) (0, got_signal sig (s\<lparr>ishared := sh'\<rparr>))" if "ksteps u r cn sh sh'" for sig sh'
    proof -
      have "iinv cfg u r n cn S B (s\<lparr>ishared := sh'\<rparr>)"
        using iinv_steps(1) [OF I1 d, of sh'] that by simp
      then show ?thesis
        using k(1) by (cases sig) (simp_all add: round_ok_def counted_def got_signal_def stop_server_signal_handler_def)
    qed
    show ?thesis
      unfolding iou_round_def prod.case 1(1) bindE_Inr Let_def option.case safeE_bindE
      by (simp, rule safeE_mono [OF enter_ksteps [OF S kinvD(1) [OF 1(2)]]]) (use fin in auto)
  next
    case (2 c a o' sh)
    let ?s = "s\<lparr>ishared := sh\<rparr>"
    have "oframe u (A \<union> clients (itracker s)) B (ishared s) sh" using 2(8) by (simp add: kframe_oframe)
    from tinv_oframe [OF T this] have T1: "tinv S (itracker s) (sh_ops sh) xs" .
    have ac: "accept_out S A (sh_ops sh)"
    proof (rule accept_out_frame [OF A(3)])
      fix b assume "b \<in> S" "b \<notin> A"
      then have "b \<notin> A \<union> clients (itracker s)" using client_not_stack [OF T, of b] by blast
      then show "cells (sh_ops sh) b = cells (iops s) b" using 2(8) by (simp add: kframe_def)
    qed
    have H: "held cfg u r n cn S A B xs a o' (cqe_res c) ?s"
      unfolding held_def sinv0_def using 2 T1 ac A(2) b by simp
    have sub: "submitted u r sh = submitted u r (ishared s)" using 2(8) by (simp add: kframe_def)
    have fin: "safeE (round_ok cfg u r n cn S B base (k, s)) (bindE (c_int (k + k')) (\<lambda>n. Inr (n, s')))"
      if "hpost cfg u r n cn S B ?s (k', s')" for k' s'
    proof -
      have p: "iinv cfg u r n cn S B s'" "irunning s' = irunning s" "client_no (ibench s') \<le> client_no (ibench s) + 1"
        "0 \<le> k'" "k' \<le> 2" "length (submitted u r (ishared s')) = length (submitted u r (ishared s)) + nat k'"
        using that sub by (auto simp: hpost_def)
      have k0: "0 \<le> k" "length (submitted u r (ishared s)) = base + nat k" using k(1) by (auto simp: counted_def)
      have "c_int (k + k') = Inr (k + k')" using k0(1) p(4,5) k(2) by (intro c_int_ok) auto
      moreover have "counted u r base (k + k') s'" using p k0 by (simp add: counted_def nat_add_distrib)
      ultimately show ?thesis using p by (simp add: round_ok_def)
    qed
    have sv: "safeE (hpost cfg u r n cn S B ?s) (service_cqe_events cfg env r c ?s)"
      using cl by (intro service_safe [OF S d H 2(2)]) simp
    show ?thesis
      unfolding iou_round_def prod.case 2(1) bindE_Inr Let_def option.case safeE_bindE
      by (rule safeE_mono [OF sv]) (use fin in \<open>auto split: prod.splits\<close>)
  qed
qed

subsection \<open>The rounds of the server\<close>

definition small_counts :: "config \<Rightarrow> int \<times> 'w iou_state \<Rightarrow> bool" where
  "small_counts cfg = (\<lambda>(k, s). k + 2 < 2 ^ 31 \<and> (DO_BENCH cfg \<longrightarrow> client_no (ibench s) + 1 < 2 ^ 31))"

inductive iou_rounds ::
    "config \<Rightarrow> iou_build \<Rightarrow> ('w, 'x) uring_env_scheme \<Rightarrow> iou \<Rightarrow> int \<times> 'w iou_state \<Rightarrow> int \<times> 'w iou_state \<Rightarrow> bool"
  for cfg bld env r start where
  iou_rounds_start: "iou_rounds cfg bld env r start start"
| iou_rounds_step: "iou_rounds cfg bld env r start (k, s) \<Longrightarrow> small_counts cfg (k, s) \<Longrightarrow>
     irunning (signal_point bld env s) \<noteq> 0 \<Longrightarrow>
     iou_round cfg env r (k, signal_point bld env s) = Inr ks \<Longrightarrow> iou_rounds cfg bld env r start ks"

lemma signal_point_inv:
  assumes S: "uring_spec env u r cn" and I: "iinv cfg u r n cn S B s"
  shows "iinv cfg u r n cn S B (signal_point bld env s)" "ibench (signal_point bld env s) = ibench s"
    "submitted u r (ishared (signal_point bld env s)) = submitted u r (ishared s)"
    "itracker (signal_point bld env s) = itracker s"
proof -
  obtain sig w where sw: "e_signal env (iworld s) = (sig, w)" by force
  have w: "same_uview u (iworld s) w" by (rule uring_specD(5) [OF S sw])
  show "iinv cfg u r n cn S B (signal_point bld env s)"
    using iinv_world [OF I w] I by (simp add: signal_point_def sw)
  show "ibench (signal_point bld env s) = ibench s" "itracker (signal_point bld env s) = itracker s"
    by (simp_all add: signal_point_def sw got_signal_def set_world_def)
  show "submitted u r (ishared (signal_point bld env s)) = submitted u r (ishared s)"
    using w by (simp add: signal_point_def sw got_signal_def set_world_def submitted_def same_uview_def)
qed

lemma iou_rounds_inv:
  assumes "iou_rounds cfg bld env r start ks" and S: "uring_spec env u r cn"
    and d: "DEFAULT_SERVER_BUFFER_SIZE cfg < 2 ^ 32"
    and "iinv cfg u r n cn S B (snd start)" "\<exists>base. counted u r base (fst start) (snd start)"
  shows "iinv cfg u r n cn S B (snd ks) \<and> (\<exists>base. counted u r base (fst ks) (snd ks))"
  using assms(1)
proof induction
  case iou_rounds_start
  then show ?case using assms(4,5) by blast
next
  case (iou_rounds_step k s ks)
  obtain base where base: "counted u r base k s" using iou_rounds_step.IH by auto
  have I: "iinv cfg u r n cn S B s" using iou_rounds_step.IH by simp
  note P = signal_point_inv [OF S I, of bld]
  have c: "counted u r base k (signal_point bld env s)" using base P(3) by (simp add: counted_def)
  have sc: "k + 2 < 2 ^ 31" "DO_BENCH cfg \<Longrightarrow> client_no (ibench (signal_point bld env s)) + 1 < 2 ^ 31"
    using iou_rounds_step.hyps(2) P(2) by (auto simp: small_counts_def)
  have "safeE (round_ok cfg u r n cn S B base (k, signal_point bld env s)) (iou_round cfg env r (k, signal_point bld env s))"
    by (rule round_safe [OF S d P(1) c sc])
  then have "round_ok cfg u r n cn S B base (k, signal_point bld env s) ks"
    using iou_rounds_step.hyps(4) by simp
  then show ?case by (auto simp: round_ok_def)
qed

end
