(* ===== verification/UringProgress.thy ===== *)
theory UringProgress
  imports UringRounds
begin

text \<open>
  What every step of the io_uring server does to the rings: nothing is unmapped, and the
  completions waiting in the ring stay there in order, with later ones behind them, until the
  loop takes them, one in a round.
\<close>

unbundle bit_operations_syntax

definition grows :: "iou \<Rightarrow> nat \<Rightarrow> nat \<Rightarrow> ring_mem \<Rightarrow> ring_mem \<Rightarrow> bool" where
  "grows r n cn m m' \<longleftrightarrow> ring_ok r n cn m' \<and> rm_maps m' = rm_maps m
     \<and> (\<exists>new. cq_list r m' = cq_list r m @ new)"

lemma grows_refl: "ring_ok r n cn m \<Longrightarrow> grows r n cn m m"
  by (simp add: grows_def)

lemma grows_trans: "grows r n cn a b \<Longrightarrow> grows r n cn b c \<Longrightarrow> grows r n cn a c"
  by (auto simp: grows_def)

lemma growsD: "grows r n cn m m' \<Longrightarrow> ring_ok r n cn m'" "grows r n cn m m' \<Longrightarrow> rm_maps m' = rm_maps m"
  by (simp_all add: grows_def)

lemma ksteps_grows: "ksteps u r cn sh sh' \<Longrightarrow> ring_ok r n cn (sh_mem sh) \<Longrightarrow> grows r n cn (sh_mem sh) (sh_mem sh')"
  using ksteps_progress unfolding kernel_progress_def grows_def by blast

lemma submit_grows:
  assumes S: "uring_spec env u r cn" and ok: "ring_ok r n cn (sh_mem sh)"
    and e: "iou_config_and_submit env r a sh = Inr (rc, sh')"
  shows "grows r n cn (sh_mem sh) (sh_mem sh')"
proof -
  define sh1 where "sh1 = e_uring_async env sh"
  have G: "grows r n cn (sh_mem sh) (sh_mem sh1)"
    unfolding sh1_def by (rule ksteps_grows [OF uring_specD(1) [OF S] ok])
  note ok1 = growsD(1) [OF G]
  show ?thesis
  proof (cases "unat (iou_ring_size r) \<le> length (sq_list r (sh_mem sh1))")
    case True
    then have "sh' = sh1" using e by (simp add: submit_eq [OF S ok] Let_def sh1_def [symmetric] del: length_sq_list)
    then show ?thesis using G by simp
  next
    case False
    then obtain q where q: "sh' = sh1\<lparr>sh_mem := p_push r q (sh_mem sh1)\<rparr>"
      using e by (auto simp: submit_eq [OF S ok] Let_def sh1_def [symmetric] bindE_eq_Inr simp del: length_sq_list hget.simps)
    have "rm_maps (p_push r q (sh_mem sh1)) = rm_maps (sh_mem sh1)" by (simp add: p_push_def Let_def)
    then have "grows r n cn (sh_mem sh1) (sh_mem sh')"
      using q p_push_ok(1,3) [OF ok1, of q] False by (simp add: grows_def)
    then show ?thesis using G grows_trans by blast
  qed
qed

subsection \<open>The handlers\<close>

abbreviation sgrows :: "iou \<Rightarrow> nat \<Rightarrow> nat \<Rightarrow> 'w iou_state \<Rightarrow> 'w iou_state \<Rightarrow> bool" where
  "sgrows r n cn s s' \<equiv> grows r n cn (sh_mem (ishared s)) (sh_mem (ishared s'))"

lemma sub_grows:
  "uring_spec env u r cn \<Longrightarrow> ring_ok r n cn (sh_mem (ishared s)) \<Longrightarrow> submit_asserted env r a msg s = Inr s' \<Longrightarrow>
   sgrows r n cn s s'"
  by (auto simp: submit_asserted_def bindE_eq_Inr dest: submit_grows)

text \<open>Assignments do not touch the rings.\<close>

lemma upd_mem:
  "con_upd a f s = Inr s' \<Longrightarrow> sh_mem (ishared s') = sh_mem (ishared s)"
  "type_upd a t s = Inr s' \<Longrightarrow> sh_mem (ishared s') = sh_mem (ishared s)"
  by (auto simp: con_upd_def type_upd_def bindE_eq_Inr set_ops_def)

lemma set_mem [simp]: "sh_mem (ishared (set_world w s)) = sh_mem (ishared s)" "sh_mem (ishared (set_ops h s)) = sh_mem (ishared s)"
  by (simp_all add: set_world_def set_ops_def)

lemma with_ibench_mem [simp]: "sh_mem (ishared (with_ibench cfg f s)) = sh_mem (ishared s)"
  by (simp add: with_ibench_def split: prod.splits)

lemma new_client_grows:
  assumes S: "uring_spec env u r cn" and ok: "ring_ok r n cn (sh_mem (ishared s))"
    and e: "handle_new_client cfg env r f s = Inr s'"
  shows "sgrows r n cn s s'"
  using e ok
  by (auto simp: handle_new_client_def bindE_eq_Inr upd_mem split: prod.splits if_splits dest!: sub_grows [OF S, rotated])

lemma close_req_grows:
  assumes S: "uring_spec env u r cn" and ok: "ring_ok r n cn (sh_mem (ishared s))"
    and e: "prep_close_client_req env r a s = Inr (k, s')"
  shows "sgrows r n cn s s'"
  using e ok by (auto simp: prep_close_client_req_def bindE_eq_Inr upd_mem dest!: sub_grows [OF S, rotated])

lemma accept_grows:
  assumes S: "uring_spec env u r cn" and ok: "ring_ok r n cn (sh_mem (ishared s))"
    and e: "handle_cqe_accept cfg env r a rc s = Inr (k, s')"
  shows "sgrows r n cn s s'"
proof -
  obtain s1 where s1: "handle_new_client cfg env r rc s = Inr s1" "submit_asserted env r a ''iou_config_and_submit(accept_req)'' s1 = Inr s'"
    using e by (auto simp: handle_cqe_accept_def bindE_eq_Inr)
  have G: "sgrows r n cn s s1" by (rule new_client_grows [OF S ok s1(1)])
  show ?thesis by (rule grows_trans [OF G sub_grows [OF S growsD(1) [OF G] s1(2)]])
qed

lemma recv_grows:
  assumes S: "uring_spec env u r cn" and ok: "ring_ok r n cn (sh_mem (ishared s))"
    and e: "handle_cqe_recv cfg env r a rc s = Inr (k, s')"
  shows "sgrows r n cn s s'"
  using e ok
  by (auto simp: handle_cqe_recv_def bindE_eq_Inr upd_mem Let_def case_prod_unfold simp del: hget.simps split: if_split_asm
      dest!: sub_grows [OF S, rotated] close_req_grows [OF S, rotated])

lemma send_grows:
  assumes S: "uring_spec env u r cn" and ok: "ring_ok r n cn (sh_mem (ishared s))"
    and e: "handle_cqe_send cfg env r a rc s = Inr (k, s')"
  shows "sgrows r n cn s s'"
  using e ok
  by (auto simp: handle_cqe_send_def bindE_eq_Inr upd_mem Let_def case_prod_unfold simp del: hget.simps split: if_split_asm
      dest!: sub_grows [OF S, rotated])

lemma service_grows:
  assumes S: "uring_spec env u r cn" and ok: "ring_ok r n cn (sh_mem (ishared s))"
    and e: "service_cqe_events cfg env r c s = Inr (k, s')"
  shows "sgrows r n cn s s'"
proof -
  define s1 where "s1 = (if DO_BENCH cfg then s\<lparr>ibench := sb_requests_performed (ibench s) 1\<rparr> else s)"
  have m: "sh_mem (ishared s1) = sh_mem (ishared s)" by (simp add: s1_def)
  have ok1: "ring_ok r n cn (sh_mem (ishared s1))" using ok m by simp
  obtain o' where o': "hget (cqe_user_data c) (iops s1) = Inr o'"
    "(case op_type o' of
           ACCEPTED_CONNECTION \<Rightarrow> handle_cqe_accept cfg env r (the (cqe_user_data c)) (cqe_res c) s1
         | CLOSE_CONNECTION \<Rightarrow> handle_cqe_close (the (cqe_user_data c)) (cqe_res c) s1
         | RECV_FROM_CLIENT \<Rightarrow> handle_cqe_recv cfg env r (the (cqe_user_data c)) (cqe_res c) s1
         | SEND_TO_CLIENT \<Rightarrow> handle_cqe_send cfg env r (the (cqe_user_data c)) (cqe_res c) s1
         | TIMER_EXPIRED \<Rightarrow> handle_cqe_timer cfg env (cqe_res c) s1) = Inr (k, s')"
    using e unfolding service_cqe_events_def Let_def s1_def [symmetric] bindE_eq_Inr by blast
  have "sgrows r n cn s1 s'"
  proof (cases "op_type o'")
    case ACCEPTED_CONNECTION
    then show ?thesis using accept_grows [OF S ok1] o'(2) by simp
  next
    case CLOSE_CONNECTION
    then have "sh_mem (ishared s') = sh_mem (ishared s1)"
      using o'(2) by (auto simp: handle_cqe_close_def handle_closing_client_def bindE_eq_Inr upd_mem simp del: hget.simps hfree.simps split: option.split_asm)
    then show ?thesis using grows_refl [OF ok1] by simp
  next
    case RECV_FROM_CLIENT
    then show ?thesis using recv_grows [OF S ok1] o'(2) by simp
  next
    case SEND_TO_CLIENT
    then show ?thesis using send_grows [OF S ok1] o'(2) by simp
  next
    case TIMER_EXPIRED
    then have "sh_mem (ishared s') = sh_mem (ishared s1)"
      using o'(2) by (auto simp: handle_cqe_timer_def bindE_eq_Inr)
    then show ?thesis using grows_refl [OF ok1] by simp
  qed
  then show ?thesis using m by simp
qed

subsection \<open>A round\<close>

lemma enter_grows:
  assumes S: "uring_spec env u r cn" and ok: "ring_ok r n cn (sh_mem sh)"
    and e: "iou_enter_or_wake env r k sh = Inr (sig, sh')"
  shows "grows r n cn (sh_mem sh) (sh_mem sh')"
proof -
  have "ksteps u r cn sh sh'"
    using e uring_specD(1) [OF S, of sh]
    by (auto simp: iou_enter_or_wake_def io_uring_enter_def Let_def bindE_eq_Inr split: prod.splits if_splits
        dest!: uring_specD(2) [OF S] intro: rtranclp_trans)
  then show ?thesis using ok by (rule ksteps_grows)
qed

text \<open>A round with a completion in the ring serves the one in front; the others stay.\<close>

lemma round_serves:
  assumes S: "uring_spec env u r cn" and ok: "ring_ok r n cn (sh_mem (ishared s))"
    and e: "iou_round cfg env r (k, s) = Inr (k', s')"
  shows "ring_ok r n cn (sh_mem (ishared s'))" "rm_maps (sh_mem (ishared s')) = rm_maps (sh_mem (ishared s))"
    "cq_list r (sh_mem (ishared s)) = c # cs \<Longrightarrow>
      (\<exists>sh. iou_get_cqe env r (ishared s) = Inr (Some c, sh) \<and> (\<exists>j. service_cqe_events cfg env r c (s\<lparr>ishared := sh\<rparr>) = Inr (j, s')))
      \<and> (\<exists>new. cq_list r (sh_mem (ishared s')) = cs @ new)"
proof -
  define sh1 where "sh1 = e_uring_async env (ishared s)"
  have G: "grows r n cn (sh_mem (ishared s)) (sh_mem sh1)"
    unfolding sh1_def by (rule ksteps_grows [OF uring_specD(1) [OF S] ok])
  obtain new where new: "cq_list r (sh_mem sh1) = cq_list r (sh_mem (ishared s)) @ new" using G by (auto simp: grows_def)
  note ok1 = growsD(1) [OF G]
  have all: "ring_ok r n cn (sh_mem (ishared s')) \<and> rm_maps (sh_mem (ishared s')) = rm_maps (sh_mem (ishared s))
     \<and> (\<forall>c cs. cq_list r (sh_mem (ishared s)) = c # cs \<longrightarrow>
      (\<exists>sh. iou_get_cqe env r (ishared s) = Inr (Some c, sh) \<and> (\<exists>j. service_cqe_events cfg env r c (s\<lparr>ishared := sh\<rparr>) = Inr (j, s')))
      \<and> (\<exists>new. cq_list r (sh_mem (ishared s')) = cs @ new))"
  proof (cases "cq_list r (sh_mem sh1)")
    case Nil
    then have "iou_get_cqe env r (ishared s) = Inr (None, sh1)"
      by (simp add: get_cqe_eq [OF S ok] Let_def sh1_def [symmetric])
    then obtain sig sh2 where 2: "iou_enter_or_wake env r (word_of_int k) sh1 = Inr (sig, sh2)" "s' = got_signal sig (s\<lparr>ishared := sh2\<rparr>)"
      using e by (auto simp: iou_round_def Let_def bindE_eq_Inr)
    have "grows r n cn (sh_mem sh1) (sh_mem sh2)" by (rule enter_grows [OF S ok1 2(1)])
    then show ?thesis using 2(2) Nil new growsD [OF G] growsD [of r n cn "sh_mem sh1" "sh_mem sh2"] by (simp add: got_signal_def)
  next
    case (Cons c cs)
    let ?sh = "sh1\<lparr>sh_mem := p_pop r (sh_mem sh1)\<rparr>"
    have ne: "cq_list r (sh_mem sh1) \<noteq> []" using Cons by simp
    note P = p_pop_ok [OF ok1 ne]
    have g: "iou_get_cqe env r (ishared s) = Inr (Some c, ?sh)"
      by (simp add: get_cqe_eq [OF S ok] Let_def sh1_def [symmetric] Cons)
    then obtain j where j: "service_cqe_events cfg env r c (s\<lparr>ishared := ?sh\<rparr>) = Inr (j, s')"
      using e by (auto simp: iou_round_def Let_def bindE_eq_Inr)
    have G2: "grows r n cn (p_pop r (sh_mem sh1)) (sh_mem (ishared s'))"
      using service_grows [OF S _ j] P(1) by simp
    then obtain new2 where new2: "cq_list r (sh_mem (ishared s')) = cs @ new2"
      using P(3) Cons by (auto simp: grows_def)
    have "rm_maps (p_pop r (sh_mem sh1)) = rm_maps (sh_mem sh1)" by (simp add: p_pop_def)
    then show ?thesis
      using growsD [OF G2] growsD [OF G] g j new new2 Cons by fastforce
  qed
  then show "ring_ok r n cn (sh_mem (ishared s'))" "rm_maps (sh_mem (ishared s')) = rm_maps (sh_mem (ishared s))"
    "cq_list r (sh_mem (ishared s)) = c # cs \<Longrightarrow>
      (\<exists>sh. iou_get_cqe env r (ishared s) = Inr (Some c, sh) \<and> (\<exists>j. service_cqe_events cfg env r c (s\<lparr>ishared := sh\<rparr>) = Inr (j, s')))
      \<and> (\<exists>new. cq_list r (sh_mem (ishared s')) = cs @ new)"
    by blast+
qed

subsection \<open>Rounds counted\<close>

primrec rounds_n ::
    "nat \<Rightarrow> config \<Rightarrow> iou_build \<Rightarrow> ('w, 'x) uring_env_scheme \<Rightarrow> iou \<Rightarrow> int \<times> 'w iou_state \<Rightarrow> (int \<times> 'w iou_state) res" where
  "rounds_n 0 cfg bld env r ks = Inr ks"
| "rounds_n (Suc i) cfg bld env r ks =
     bindE (iou_round cfg env r (fst ks, signal_point bld env (snd ks))) (rounds_n i cfg bld env r)"

lemma signal_point_mem [simp]: "sh_mem (ishared (signal_point bld env s)) = sh_mem (ishared s)"
  by (simp add: signal_point_def got_signal_def split: prod.splits)

text \<open>After as many rounds as completions stand before it, a completion is in front.\<close>

lemma rounds_n_front:
  assumes S: "uring_spec env u r cn" and ok: "ring_ok r n cn (sh_mem (ishared (snd ks)))"
    and cq: "cq_list r (sh_mem (ishared (snd ks))) = cs @ ds"
    and e: "rounds_n (length cs) cfg bld env r ks = Inr ks'"
  shows "ring_ok r n cn (sh_mem (ishared (snd ks'))) \<and> (\<exists>new. cq_list r (sh_mem (ishared (snd ks'))) = ds @ new)"
  using ok cq e
proof (induction cs arbitrary: ks ds)
  case (Cons c cs)
  let ?s = "signal_point bld env (snd ks)"
  obtain k1 s1 where 1: "iou_round cfg env r (fst ks, ?s) = Inr (k1, s1)" "rounds_n (length cs) cfg bld env r (k1, s1) = Inr ks'"
    using Cons.prems(3) by (auto simp: bindE_eq_Inr)
  have okp: "ring_ok r n cn (sh_mem (ishared ?s))" using Cons.prems(1) by simp
  have "cq_list r (sh_mem (ishared ?s)) = c # (cs @ ds)" using Cons.prems(2) by simp
  from round_serves(3) [OF S okp 1(1) this] obtain new where "cq_list r (sh_mem (ishared s1)) = cs @ (ds @ new)" by auto
  then have "ring_ok r n cn (sh_mem (ishared (snd ks'))) \<and> (\<exists>more. cq_list r (sh_mem (ishared (snd ks'))) = (ds @ new) @ more)"
    using round_serves(1) [OF S okp 1(1)] 1(2) by (intro Cons.IH) auto
  then show ?case by auto
qed simp

lemma front_served:
  assumes S: "uring_spec env u r cn" and ok: "ring_ok r n cn (sh_mem (ishared s))"
    and cq: "cq_list r (sh_mem (ishared s)) = c # ds"
  shows "\<exists>sh. iou_get_cqe env r (ishared s) = Inr (Some c, sh)
     \<and> iou_round cfg env r (k, s) = bindE (service_cqe_events cfg env r c (s\<lparr>ishared := sh\<rparr>)) (\<lambda>(j, s).
          bindE (c_int (k + j)) (\<lambda>n. Inr (n, s)))"
proof -
  have "grows r n cn (sh_mem (ishared s)) (sh_mem (e_uring_async env (ishared s)))"
    by (rule ksteps_grows [OF uring_specD(1) [OF S] ok])
  then obtain new where "cq_list r (sh_mem (e_uring_async env (ishared s))) = c # ds @ new" using cq by (auto simp: grows_def)
  then obtain sh where "iou_get_cqe env r (ishared s) = Inr (Some c, sh)"
    using get_cqe_eq [OF S ok] by (auto simp: Let_def)
  then show ?thesis by (simp add: iou_round_def Let_def)
qed

end
