(* ===== verification/UringStartup.thy ===== *)
theory UringStartup
  imports UringProgress
begin

text \<open>
  The io_uring server from the start of \<open>service_loop\<close> to its loop: creating the ring and
  submitting the accept request (and the timer's) establishes the invariant.
\<close>

unbundle bit_operations_syntax

subsection \<open>The contract of start-up\<close>

text \<open>The calls that arrange the signal mask.\<close>

definition sigmask_spec :: "('w, 'x) env_scheme \<Rightarrow> 'w uview \<Rightarrow> bool" where
  "sigmask_spec env u \<longleftrightarrow> (\<forall>b w. same_uview u w (snd (e_sigprocmask env b w)))
     \<and> (\<forall>w. same_uview u w (snd (e_sigemptyset env w))) \<and> (\<forall>w. same_uview u w (snd (e_sigaddset_usr1 env w)))"

lemma sigmask_specD:
  assumes "sigmask_spec env u"
  shows "e_sigprocmask env b w = (rc, w') \<Longrightarrow> same_uview u w w'"
    "e_sigemptyset env w = (rc, w') \<Longrightarrow> same_uview u w w'"
    "e_sigaddset_usr1 env w = (rc, w') \<Longrightarrow> same_uview u w w'"
  using assms unfolding sigmask_spec_def by (metis snd_conv)+

text \<open>A ring just created: its masks match its entry counts, which the kernel rounds up to powers of
  two, both rings are empty, the kernel holds no request of it, and it keeps the contract of
  \<open>uring_spec\<close> from now on.\<close>

definition ring_started :: "('w, 'x) uring_env_scheme \<Rightarrow> 'w uview \<Rightarrow> 32 word \<Rightarrow> bool \<Rightarrow> 'w ushared \<Rightarrow> bool" where
  "ring_started env u k poll sh \<longleftrightarrow> (\<forall>r sh'. iou_create env k poll sh = Inr (r, sh') \<longrightarrow>
     uring_spec env u r (unat (cq_entries (iou_configuration r)))
     \<and> ring_mask_ok (rm_u32 (sh_mem sh') (sq_ring_mask (sq_ring r))) (unat (sq_entries (iou_configuration r)))
     \<and> ring_mask_ok (rm_u32 (sh_mem sh') (cq_ring_mask (cq_ring r))) (unat (cq_entries (iou_configuration r)))
     \<and> unat k \<le> unat (sq_entries (iou_configuration r))
     \<and> rm_u32 (sh_mem sh') (sq_head (sq_ring r)) = rm_u32 (sh_mem sh') (sq_tail (sq_ring r))
     \<and> rm_u32 (sh_mem sh') (cq_head (cq_ring r)) = rm_u32 (sh_mem sh') (cq_tail (cq_ring r))
     \<and> uv_flight u (sh_world sh') = [] \<and> sh_ops sh' = sh_ops sh)"

definition created :: "'w uview \<Rightarrow> nat \<Rightarrow> 'w ushared \<Rightarrow> iou \<Rightarrow> 'w ushared \<Rightarrow> bool" where
  "created u d sh r sh' \<longleftrightarrow> kinv u r (unat (sq_entries (iou_configuration r))) (unat (cq_entries (iou_configuration r)))
       d {} (insert (iou_ring_fd r) (kv_open (uv_view u) (sh_world sh))) sh'
     \<and> sh_ops sh' = sh_ops sh \<and> iou_ring_fd r \<notin> kv_open (uv_view u) (sh_world sh)
     \<and> maps_recorded r (rm_maps (sh_mem sh)) (rm_maps (sh_mem sh'))"

lemma create_kinv:
  assumes U: "setup_ring_spec env (uv_view u)" and M: "mmap_spec env (uv_view u)"
    and F: "ring_started env u k poll sh" and ok: "heap_ok (sh_ops sh)"
  shows "safeE (\<lambda>(r, sh'). created u d sh r sh' \<and> uring_spec env u r (unat (cq_entries (iou_configuration r))))
    (iou_create env k poll sh)"
proof (rule safeE_mono [OF create_safe [OF U M, where sh = sh and k = k and poll = poll]], clarify)
  fix r sh' p sh1
  assume e: "iou_create env k poll sh = Inr (r, sh')"
    and o: "opened (uv_view u) (sh_world sh) (iou_ring_fd r) (sh_world sh1)" and m1: "rm_maps (sh_mem sh1) = rm_maps (sh_mem sh)"
    and R: "rings_mapped env (uv_view u) (iou_ring_fd r) p k sh1 r sh'"
  note f = F [unfolded ring_started_def, rule_format, OF e]
  have l: "ring_layout r (unat (sq_entries (iou_configuration r))) (unat (cq_entries (iou_configuration r))) (rm_maps (sh_mem sh'))"
    and k: "iou_ring_size r = k"
    using R by (auto simp: rings_mapped_def)
  have "ring_ok r (unat (sq_entries (iou_configuration r))) (unat (cq_entries (iou_configuration r))) (sh_mem sh')"
    using l k f by (simp add: ring_ok_def sq_used_def cq_used_def array_ok_def)
  moreover have "sq_list r (sh_mem sh') = []" "cq_list r (sh_mem sh') = []"
    using f sq_nonempty [of r "sh_mem sh'"] cq_nonempty [of r "sh_mem sh'"] by blast+
  moreover have "kv_open (uv_view u) (sh_world sh') = insert (iou_ring_fd r) (kv_open (uv_view u) (sh_world sh))"
    "iou_ring_fd r \<notin> kv_open (uv_view u) (sh_world sh)"
    using o R by (auto simp: opened_def rings_mapped_def same_view_def)
  moreover have "maps_recorded r (rm_maps (sh_mem sh)) (rm_maps (sh_mem sh'))"
    using R m1 by (simp add: rings_mapped_def)
  ultimately show "created u d sh r sh' \<and> uring_spec env u r (unat (cq_entries (iou_configuration r)))"
    using f ok by (simp add: created_def kinv_def outstanding_def owned_def waiting_def)
qed

subsection \<open>The operation objects of service_loop\<close>

lemma tinv_stack:
  assumes T: "tinv St t ops xs" and a: "cells ops a = None" and o': "tshape o' = (None, False)"
  shows "tinv (insert a St) t (ops\<lparr>next_addr := k, cells := (cells ops)(a := Some o')\<rparr>) xs"
proof -
  have na: "b \<noteq> a" if "map_option tshape (cells ops b) = Some x" for b x using that a by auto
  show ?thesis
    unfolding tinv_def
  proof (intro conjI allI ballI impI)
    show "heap_ok (mt_nodes t)" "tracks (node_ops t) t xs" using tinvD(1,2) [OF T] .
    show "nd \<in> set xs" if "node_ops t nd \<noteq> None" for nd using tinvD(3) [OF T] that .
    show "\<exists>aa. node_ops t nd = Some (Some aa)
        \<and> map_option tshape (cells (ops\<lparr>next_addr := k, cells := (cells ops)(a := Some o')\<rparr>) aa) = Some (Some nd, True)"
      if nd: "nd \<in> set xs" for nd
    proof -
      obtain aa where aa: "node_ops t nd = Some (Some aa)" "map_option tshape (cells ops aa) = Some (Some nd, True)"
        using tinvD(4) [OF T nd] by blast
      then show ?thesis using na [OF aa(2)] by simp
    qed
    show "map_option tshape (cells (ops\<lparr>next_addr := k, cells := (cells ops)(a := Some o')\<rparr>) b) = Some (None, False)"
      if "b \<in> insert a St" for b
      using that o' tinvD(5) [OF T, of b] by auto
    show "b \<in> insert a St \<or> b \<in> clients t" if "cells (ops\<lparr>next_addr := k, cells := (cells ops)(a := Some o')\<rparr>) b \<noteq> None" for b
      using that tinvD(6) [OF T, of b] by (auto split: if_splits)
  qed
qed

text \<open>A new operation object on the stack, handed to the kernel.\<close>

definition stack_submitted :: "'w uview \<Rightarrow> iou \<Rightarrow> 'w iou_state \<Rightarrow> 'w iou_state \<Rightarrow> bool" where
  "stack_submitted u r s s' \<longleftrightarrow> itracker s' = itracker s \<and> ibench s' = ibench s \<and> irunning s' = irunning s
     \<and> length (submitted u r (ishared s')) = Suc (length (submitted u r (ishared s)))
     \<and> rm_maps (sh_mem (ishared s')) = rm_maps (sh_mem (ishared s))"

lemma stack_op_submit:
  assumes S: "uring_spec env u r cn" and d: "d < 2 ^ 32" and I: "sinv0 u r n cn d St Os B xs s"
    and O: "Os \<subseteq> St \<union> clients (itracker s)" and a: "a = next_addr (iops s)"
    and o': "tshape o' = (None, False)" "tag_fits o'"
  shows "safeE (\<lambda>s'. sinv0 u r n cn d (insert a St) (insert a Os) B xs s' \<and> stack_submitted u r s s')
    (submit_asserted env r a msg (set_ops ((iops s)\<lparr>next_addr := Suc a, cells := (cells (iops s))(a := Some o')\<rparr>) s))"
proof -
  let ?h = "(iops s)\<lparr>next_addr := Suc a, cells := (cells (iops s))(a := Some o')\<rparr>"
  have K: "kinv u r n cn d Os B (ishared s)" and T: "tinv St (itracker s) (iops s) xs"
    using I by (auto simp: sinv0_def)
  have an: "cells (iops s) a = None" using kinvD(2) [OF K] a by (simp add: heap_ok_def)
  have aO: "a \<notin> Os" using live_ops [OF T, of a] O an by blast
  have ok: "heap_ok ?h" using kinvD(2) [OF K] a by (auto simp: heap_ok_def)
  have same: "cells ?h b = cells (iops s) b" if "b \<in> Os" for b using that aO by auto
  have "kinv u r n cn d Os B ((ishared s)\<lparr>sh_ops := ?h\<rparr>)" by (rule kinv_ops [OF K ok same])
  moreover have "tinv (insert a St) (itracker s) ?h xs" by (rule tinv_stack [OF T an o'(1)])
  ultimately have I2: "sinv0 u r n cn d (insert a St) Os B xs (set_ops ?h s)" by (simp add: sinv0_def set_ops_def)
  have nc: "\<And>c. op_info o' \<noteq> InfoCon c" using o'(1) by (simp add: tshape_def is_con_def split: op_info.splits)
  have W: "op_waiting (uv_view u) d (iworld (set_ops ?h s)) o'"
    using o'(2) nc by (simp add: op_waiting_def split: op_info.splits)
  have ow: "own_w (request a o') = []" using own_w_request [OF o'(2), of a] nc by (simp split: op_info.splits)
  have c: "cells (iops (set_ops ?h s)) a = Some o'" by (simp add: set_ops_def)
  have ok': "ring_ok r n cn (sh_mem (ishared (set_ops ?h s)))" using kinvD(1) [OF K] by simp
  have mp: "rm_maps (sh_mem (ishared x)) = rm_maps (sh_mem (ishared s))"
    if "submit_asserted env r a msg (set_ops ?h s) = Inr x" for x
    using growsD(2) [OF sub_grows [OF S ok' that]] by simp
  show ?thesis
    by (rule safeE_mono [OF submit_asserted_safe [OF S d I2 aO c W]])
      (use mp in \<open>auto simp: ow handed_over_def stack_submitted_def set_ops_def\<close>)
qed

lemma create_accept_safe:
  assumes S: "uring_spec env u r cn" and d: "d < 2 ^ 32" and I: "sinv0 u r n cn d St Os B xs s"
    and O: "Os \<subseteq> St \<union> clients (itracker s)" and a: "stack_op s = (a, s1)"
  shows "safeE (\<lambda>(k, s'). k = 1 \<and> sinv0 u r n cn d (insert a St) (insert a Os) B xs s' \<and> stack_submitted u r s s')
    (create_accept_sqe env r a ls s1)"
proof -
  let ?o = "\<lparr>op_type = ACCEPTED_CONNECTION, op_info = InfoAccept \<lparr>acc_fd = ls, acc_addr = replicate 16 0, acc_addrlen = 16\<rparr>,
     op_mem_tracker = None\<rparr>"
  have an: "a = next_addr (iops s)" using a by (simp add: stack_op_def halloc_def)
  have eq: "create_accept_sqe env r a ls s1 = bindE (submit_asserted env r a ''iou_config_and_submit(accept_req)''
      (set_ops ((iops s)\<lparr>next_addr := Suc a, cells := (cells (iops s))(a := Some ?o)\<rparr>) s)) (\<lambda>s. Inr (1, s))"
    using a by (auto simp: create_accept_sqe_def stack_op_def halloc_def set_ops_def info_accept_def)
  show ?thesis
    unfolding eq safeE_bindE safeE_simps
    by (rule safeE_mono [OF stack_op_submit [OF S d I O an]])
      (simp_all add: tshape_def is_con_def tag_fits_def)
qed

lemma create_timer_safe:
  assumes S: "uring_spec env u r cn" and d: "d < 2 ^ 32" and I: "sinv0 u r n cn d St Os B xs s"
    and O: "Os \<subseteq> St \<union> clients (itracker s)" and a: "stack_op s = (a, s1)"
  shows "safeE (\<lambda>(k, s'). k = 1 \<and> sinv0 u r n cn d (insert a St) (insert a Os) B xs s' \<and> stack_submitted u r s s')
    (create_timer_sqe env r a s1)"
proof -
  let ?o = "\<lparr>op_type = TIMER_EXPIRED, op_info = InfoTimer \<lparr>tv_sec = 10, tv_nsec = 0\<rparr>, op_mem_tracker = None\<rparr>"
  have an: "a = next_addr (iops s)" using a by (simp add: stack_op_def halloc_def)
  have eq: "create_timer_sqe env r a s1 = bindE (submit_asserted env r a ''iou_config_and_submit(timer_req)''
      (set_ops ((iops s)\<lparr>next_addr := Suc a, cells := (cells (iops s))(a := Some ?o)\<rparr>) s)) (\<lambda>s. Inr (1, s))"
    using a by (auto simp: create_timer_sqe_def stack_op_def halloc_def set_ops_def hupd_def)
  show ?thesis
    unfolding eq safeE_bindE safeE_simps
    by (rule safeE_mono [OF stack_op_submit [OF S d I O an]])
      (simp_all add: tshape_def is_con_def tag_fits_def)
qed

subsection \<open>Start-up\<close>

text \<open>What \<open>service_loop\<close> has established when its loop starts.\<close>

definition uring_ready ::
    "config \<Rightarrow> ('w, 'x) uring_env_scheme \<Rightarrow> 'w uview \<Rightarrow> 'w iou_state \<Rightarrow> iou \<times> nat list \<times> int \<times> 'w iou_state \<Rightarrow> bool" where
  "uring_ready cfg env u s = (\<lambda>(r, stack, k, s').
     let n = unat (sq_entries (iou_configuration r)); cn = unat (cq_entries (iou_configuration r)) in
     uring_spec env u r cn \<and> iou_ring_fd r \<notin> kv_open (uv_view u) (iworld s)
     \<and> iinv cfg u r n cn (set stack) (insert (iou_ring_fd r) (kv_open (uv_view u) (iworld s))) s'
     \<and> distinct stack \<and> k = int (length stack) \<and> length stack \<le> 2 \<and> (\<exists>base. counted u r base k s')
     \<and> maps_recorded r (rm_maps (sh_mem (ishared s))) (rm_maps (sh_mem (ishared s')))
     \<and> ibench s' = ibench s \<and> irunning s' = irunning s)"

text \<open>The objects \<open>St\<close> on the stack are all outstanding, and nothing else exists.\<close>

definition starting ::
    "config \<Rightarrow> ('w, 'x) uring_env_scheme \<Rightarrow> 'w uview \<Rightarrow> 'w iou_state \<Rightarrow> iou \<Rightarrow> nat list \<Rightarrow> int \<Rightarrow> 'w iou_state \<Rightarrow> bool" where
  "starting cfg env u s r stack k s' \<longleftrightarrow>
     (let n = unat (sq_entries (iou_configuration r)); cn = unat (cq_entries (iou_configuration r)) in
     uring_spec env u r cn \<and> iou_ring_fd r \<notin> kv_open (uv_view u) (iworld s)
     \<and> sinv0 u r n cn (DEFAULT_SERVER_BUFFER_SIZE cfg) (set stack) (set stack)
         (insert (iou_ring_fd r) (kv_open (uv_view u) (iworld s))) [] s'
     \<and> distinct stack \<and> k = int (length stack) \<and> (\<exists>base. counted u r base k s')
     \<and> maps_recorded r (rm_maps (sh_mem (ishared s))) (rm_maps (sh_mem (ishared s')))
     \<and> itracker s' = itracker s \<and> ibench s' = ibench s \<and> irunning s' = irunning s)"

lemma starting_next:
  assumes st: "starting cfg env u s r stack k s1" and b: "stack_op s1 = (b, s2)"
    and sub: "sinv0 u r (unat (sq_entries (iou_configuration r))) (unat (cq_entries (iou_configuration r)))
        (DEFAULT_SERVER_BUFFER_SIZE cfg) (insert b (set stack)) (insert b (set stack))
        (insert (iou_ring_fd r) (kv_open (uv_view u) (iworld s))) [] s'"
      "stack_submitted u r s1 s'"
  shows "starting cfg env u s r (stack @ [b]) (k + 1) s'"
proof -
  have S1: "sinv0 u r (unat (sq_entries (iou_configuration r))) (unat (cq_entries (iou_configuration r)))
        (DEFAULT_SERVER_BUFFER_SIZE cfg) (set stack) (set stack)
        (insert (iou_ring_fd r) (kv_open (uv_view u) (iworld s))) [] s1"
    using st by (simp add: starting_def Let_def)
  have "b \<notin> set stack"
  proof
    assume "b \<in> set stack"
    then have "cells (iops s1) b \<noteq> None" using S1 tinvD(5) [of "set stack" "itracker s1" "iops s1" "[]" b] by (auto simp: sinv0_def)
    moreover have "b = next_addr (iops s1)" using b by (simp add: stack_op_def halloc_def)
    moreover have "heap_ok (iops s1)" using S1 kinvD(2) unfolding sinv0_def by blast
    ultimately show False by (simp add: heap_ok_def)
  qed
  moreover obtain base where base: "counted u r base k s1" using st by (auto simp: starting_def Let_def)
  then have "counted u r base (k + 1) s'"
    using sub(2) by (simp add: counted_def stack_submitted_def nat_add_distrib)
  moreover have "set (stack @ [b]) = insert b (set stack)" by auto
  ultimately show ?thesis
    using st sub unfolding starting_def Let_def stack_submitted_def by auto
qed

lemma starting_ready:
  assumes st: "starting cfg env u s r stack k s1" and len: "length stack \<le> 2"
    and b: "DO_BENCH cfg \<Longrightarrow> bench_inv (ibench s)" and t: "itracker s = mem_t_create empty_heap"
    and w: "same_uview u (iworld s1) w"
  shows "uring_ready cfg env u s (r, stack, k, set_world w s1)"
proof -
  let ?n = "unat (sq_entries (iou_configuration r))" and ?cn = "unat (cq_entries (iou_configuration r))"
  let ?B = "insert (iou_ring_fd r) (kv_open (uv_view u) (iworld s))"
  have c: "clients (itracker s1) = {}"
    using st t by (simp add: starting_def Let_def clients_def node_ops_def mem_t_create_def empty_heap_def)
  have "iinv cfg u r ?n ?cn (set stack) ?B s1"
    unfolding iinv_def
  proof (intro conjI exI impI)
    show "sinv0 u r ?n ?cn (DEFAULT_SERVER_BUFFER_SIZE cfg) (set stack) (set stack \<union> clients (itracker s1)) ?B [] s1"
      using st c by (simp add: starting_def Let_def)
    show "set stack \<subseteq> set stack" "accept_out (set stack) (set stack) (iops s1)" by (simp_all add: accept_out_def)
    show "DO_BENCH cfg \<Longrightarrow> bench_inv (ibench s1)" using b st by (simp add: starting_def Let_def)
  qed
  then have "iinv cfg u r ?n ?cn (set stack) ?B (set_world w s1)" using w by (rule iinv_world)
  moreover obtain base where "counted u r base k s1" using st by (auto simp: starting_def Let_def)
  then have "counted u r base k (set_world w s1)"
    using w by (simp add: counted_def submitted_def set_world_def same_uview_def)
  ultimately show ?thesis
    using st len unfolding uring_ready_def starting_def Let_def by (auto simp: set_world_def)
qed

lemma signal_masks_view:
  assumes "sigmask_spec env u"
  shows "safeE (same_uview u w) (create_signal_masks env w)"
proof -
  obtain r1 w1 where 1: "e_sigprocmask env False w = (r1, w1)" by force
  obtain r2 w2 where 2: "e_sigemptyset env w1 = (r2, w2)" by force
  obtain r3 w3 where 3: "e_sigaddset_usr1 env w2 = (r3, w3)" by force
  note D = sigmask_specD [OF assms]
  have "same_uview u w w3" using same_uview_trans [OF same_uview_trans [OF D(1) [OF 1] D(2) [OF 2]] D(3) [OF 3]] .
  then show ?thesis by (simp add: create_signal_masks_def 1 2 3)
qed

lemma uring_init_safe:
  assumes U: "setup_ring_spec env (uv_view u)" "mmap_spec env (uv_view u)" "sigmask_spec env u"
    and F: "ring_started env u (IO_URING_RING_SIZE bld) (IO_URING_RUN_IN_KERNEL_POLL_MODE bld) (ishared s)"
    and d: "DEFAULT_SERVER_BUFFER_SIZE cfg < 2 ^ 32"
    and s: "iops s = empty_heap" "itracker s = mem_t_create empty_heap" "DO_BENCH cfg \<Longrightarrow> bench_inv (ibench s)"
  shows "safeE (uring_ready cfg env u s) (iservice_loop_init cfg bld env ls s)"
proof -
  define rest where "rest = (\<lambda>(r, stack, io_events_to_submit :: int, s).
     bindE (create_signal_masks env (iworld s)) (\<lambda>w.
     bindE (if \<not> IO_URING_RUN_IN_KERNEL_POLL_MODE bld
            then (case e_sigprocmask env True w of (rc, w) \<Rightarrow> bindE (assert_zero rc ''sigprocmask'') (\<lambda>_. Inr w))
            else Inr w) (\<lambda>w. Inr (r :: iou, stack :: nat list, io_events_to_submit, set_world w s))))"
  have fin: "safeE (uring_ready cfg env u s) (rest (r, stack, k, s1))"
    if st: "starting cfg env u s r stack k s1" and len: "length stack \<le> 2" for r stack k s1
  proof -
    have "safeE (\<lambda>w. safeE (uring_ready cfg env u s) (bindE (if \<not> IO_URING_RUN_IN_KERNEL_POLL_MODE bld
            then (case e_sigprocmask env True w of (rc, w) \<Rightarrow> bindE (assert_zero rc ''sigprocmask'') (\<lambda>_. Inr w))
            else Inr w) (\<lambda>w. Inr (r, stack, k, set_world w s1)))) (create_signal_masks env (iworld s1))"
    proof (rule safeE_mono [OF signal_masks_view [OF U(3)]])
      fix w assume w: "same_uview u (iworld s1) w"
      obtain rc w2 where 2: "e_sigprocmask env True w = (rc, w2)" by force
      have "same_uview u (iworld s1) w2" by (rule same_uview_trans [OF w sigmask_specD(1) [OF U(3) 2]])
      then show "safeE (uring_ready cfg env u s) (bindE (if \<not> IO_URING_RUN_IN_KERNEL_POLL_MODE bld
            then (case e_sigprocmask env True w of (rc, w) \<Rightarrow> bindE (assert_zero rc ''sigprocmask'') (\<lambda>_. Inr w))
            else Inr w) (\<lambda>w. Inr (r, stack, k, set_world w s1)))"
        using starting_ready [OF st len s(3,2)] w by (simp add: 2)
    qed
    then show ?thesis by (simp add: rest_def)
  qed
  have ready: "safeE (uring_ready cfg env u s) (case stack_op (s\<lparr>ishared := sh\<rparr>) of (accept_req, s) \<Rightarrow>
     bindE (create_accept_sqe env r accept_req ls s) (\<lambda>(k, s).
     bindE (if DO_BENCH cfg
            then (case stack_op s of (timer_req, s) \<Rightarrow>
              bindE (create_timer_sqe env r timer_req s) (\<lambda>(l, s). Inr ([accept_req, timer_req], k + l, s)))
            else Inr ([accept_req], k, s)) (\<lambda>(stack, k, s). rest (r, stack, k, s))))"
    if C: "created u (DEFAULT_SERVER_BUFFER_SIZE cfg) (ishared s) r sh"
      and S: "uring_spec env u r (unat (cq_entries (iou_configuration r)))" for r sh
  proof -
    let ?s = "s\<lparr>ishared := sh\<rparr>"
    obtain a s1 where a: "stack_op ?s = (a, s1)" by force
    have "tinv {} (itracker s) (sh_ops sh) []"
      using C s by (auto simp: created_def tinv_def mem_t_create_def empty_heap_def heap_ok_def tracks_def
          dlist_def node_ops_def)
    then have I: "sinv0 u r (unat (sq_entries (iou_configuration r))) (unat (cq_entries (iou_configuration r)))
        (DEFAULT_SERVER_BUFFER_SIZE cfg) {} {} (insert (iou_ring_fd r) (kv_open (uv_view u) (iworld s))) [] ?s"
      using C by (simp add: sinv0_def created_def)
    have st0: "starting cfg env u s r [] 0 ?s"
      using C S I by (simp add: starting_def Let_def created_def counted_def)
    have acc: "safeE (uring_ready cfg env u s) (bindE (if DO_BENCH cfg
            then (case stack_op s2 of (timer_req, s) \<Rightarrow>
              bindE (create_timer_sqe env r timer_req s) (\<lambda>(l, s). Inr ([a, timer_req], k + l, s)))
            else Inr ([a], k, s2)) (\<lambda>(stack, k, s). rest (r, stack, k, s)))"
      if k: "k = 1" and st1: "starting cfg env u s r [a] 1 s2" for k s2
    proof (cases "DO_BENCH cfg")
      case False
      then show ?thesis using fin [OF st1] k by simp
    next
      case True
      obtain b s3 where b: "stack_op s2 = (b, s3)" by force
      have I2: "sinv0 u r (unat (sq_entries (iou_configuration r))) (unat (cq_entries (iou_configuration r)))
        (DEFAULT_SERVER_BUFFER_SIZE cfg) (set [a]) (set [a]) (insert (iou_ring_fd r) (kv_open (uv_view u) (iworld s))) [] s2"
        using st1 by (simp add: starting_def Let_def)
      have t: "safeE (uring_ready cfg env u s) (rest (r, [a, b], k + l, s'))"
        if "l = 1" "sinv0 u r (unat (sq_entries (iou_configuration r))) (unat (cq_entries (iou_configuration r)))
        (DEFAULT_SERVER_BUFFER_SIZE cfg) (insert b (set [a])) (insert b (set [a])) (insert (iou_ring_fd r) (kv_open (uv_view u) (iworld s))) [] s'"
          "stack_submitted u r s2 s'" for l s'
        using fin [OF starting_next [OF st1 b that(2,3)]] that(1) k by simp
      have "safeE (\<lambda>(l, s'). safeE (uring_ready cfg env u s) (rest (r, [a, b], k + l, s'))) (create_timer_sqe env r b s3)"
        by (rule safeE_mono [OF create_timer_safe [OF S d I2 _ b]]) (use t in auto)
      then show ?thesis using True b by (simp add: case_prod_unfold)
    qed
    have "safeE (\<lambda>(k, s2). k = 1 \<and> starting cfg env u s r [a] 1 s2) (create_accept_sqe env r a ls s1)"
      by (rule safeE_mono [OF create_accept_safe [OF S d I _ a]])
        (use starting_next [OF st0 a] in auto)
    then show ?thesis
      unfolding a prod.case by (subst safeE_bindE, elim safeE_mono) (use acc in auto)
  qed
  have eq: "iservice_loop_init cfg bld env ls s
    = bindE (iou_create env (IO_URING_RING_SIZE bld) (IO_URING_RUN_IN_KERNEL_POLL_MODE bld) (ishared s)) (\<lambda>(r, sh).
     case stack_op (s\<lparr>ishared := sh\<rparr>) of (accept_req, s) \<Rightarrow>
     bindE (create_accept_sqe env r accept_req ls s) (\<lambda>(k, s).
     bindE (if DO_BENCH cfg
            then (case stack_op s of (timer_req, s) \<Rightarrow>
              bindE (create_timer_sqe env r timer_req s) (\<lambda>(l, s). Inr ([accept_req, timer_req], k + l, s)))
            else Inr ([accept_req], k, s)) (\<lambda>(stack, k, s). rest (r, stack, k, s))))"
    by (simp add: iservice_loop_init_def rest_def)
  have ok: "heap_ok (iops s)" using s(1) by simp
  show ?thesis
    unfolding eq safeE_bindE
    by (rule safeE_mono [OF create_kinv [OF U(1,2) F ok]]) (use ready in auto)
qed

end
