(* ===== verification/UringShutdown.thy ===== *)
theory UringShutdown
  imports UringProgress
begin

text \<open>
  The shutdown of the io_uring server: the loop of the cleanup over the tracker closes the
  connection of every client and frees its objects, and exits at a connection that the kernel
  has closed already.
\<close>

unbundle bit_operations_syntax

subsection \<open>The loop over the tracker\<close>

text \<open>The nodes from \<open>p\<close> on, each with its object and the descriptor of its client.\<close>

fun tchain :: "mt_node heap \<Rightarrow> iou_op heap \<Rightarrow> ptr \<Rightarrow> (nat \<times> nat \<times> int) list \<Rightarrow> bool" where
  "tchain nodes ops p [] \<longleftrightarrow> p = None"
| "tchain nodes ops p ((x, a, fd) # zs) \<longleftrightarrow> p = Some x
     \<and> (\<exists>node o' c. cells nodes x = Some node \<and> mt_allocated_op node = Some a \<and> cells ops a = Some o'
          \<and> op_info o' = InfoCon c \<and> con_fd c = fd \<and> tchain nodes ops (mt_next node) zs)"

lemma tchain_cong:
  assumes "\<And>x a fd. (x, a, fd) \<in> set zs \<Longrightarrow> cells nodes' x = cells nodes x \<and> cells ops' a = cells ops a"
  shows "tchain nodes' ops' p zs = tchain nodes ops p zs"
  using assms
proof (induction zs arbitrary: p)
  case (Cons z zs)
  obtain x a fd where z: "z = (x, a, fd)" by (cases z) auto
  have h: "cells nodes' x = cells nodes x" "cells ops' a = cells ops a" using Cons.prems [of x a fd] z by auto
  have "tchain nodes' ops' q zs = tchain nodes ops q zs" for q using Cons.prems by (intro Cons.IH) auto
  then show ?case using h by (simp add: z)
qed simp

text \<open>What is left when all of \<open>zs\<close> have been closed and freed.\<close>

definition all_closed :: "'w kview \<Rightarrow> (nat \<times> nat \<times> int) list \<Rightarrow> 'w iou_state \<Rightarrow> 'w iou_state \<Rightarrow> bool" where
  "all_closed v zs s s' \<longleftrightarrow>
     (\<forall>x. cells (mt_nodes (itracker s')) x = (if x \<in> fst ` set zs then None else cells (mt_nodes (itracker s)) x))
     \<and> (\<forall>a. cells (iops s') a = (if a \<in> (fst \<circ> snd) ` set zs then None else cells (iops s) a))
     \<and> kv_open v (iworld s') = kv_open v (iworld s) - (snd \<circ> snd) ` set zs
     \<and> sh_mem (ishared s') = sh_mem (ishared s) \<and> ibench s' = ibench s \<and> irunning s' = irunning s"

lemma close_tracked_result:
  assumes C: "close_spec env v" and t: "tchain (mt_nodes (itracker s)) (iops s) p zs"
    and d: "distinct (map fst zs)" "distinct (map (fst \<circ> snd) zs)" and n: "length zs \<le> n"
  shows "\<exists>m. close_tracked n env p s = Some m
     \<and> safeE (\<lambda>s'. all_closed v zs s s' \<and> set (map (snd \<circ> snd) zs) \<subseteq> kv_open v (iworld s)
          \<and> distinct (map (snd \<circ> snd) zs)) m
     \<and> (close_reliable env v \<and> set (map (snd \<circ> snd) zs) \<subseteq> kv_open v (iworld s) \<and> distinct (map (snd \<circ> snd) zs)
          \<longrightarrow> (\<exists>s'. m = Inr s'))"
  using t d n
proof (induction zs arbitrary: n p s)
  case Nil
  then show ?case by (cases n) (simp_all add: all_closed_def)
next
  case (Cons z zs)
  obtain x a fd where z: "z = (x, a, fd)" by (cases z) auto
  obtain m where m: "n = Suc m" "length zs \<le> m" using Cons.prems(4) by (cases n) auto
  obtain node o' c where h: "p = Some x" "cells (mt_nodes (itracker s)) x = Some node" "mt_allocated_op node = Some a"
      "cells (iops s) a = Some o'" "op_info o' = InfoCon c" "con_fd c = fd"
      "tchain (mt_nodes (itracker s)) (iops s) (mt_next node) zs"
    using Cons.prems(1) unfolding z by auto
  obtain rc w where e: "e_close env fd (iworld s) = (rc, w)" by force
  note S = C [unfolded close_spec_def, rule_format, OF e]
  have nx: "x \<notin> fst ` set zs" "a \<notin> (fst \<circ> snd) ` set zs" using Cons.prems(2,3) by (auto simp: z)
  show ?case
  proof (cases "rc = 0")
    case False
    then have "close_tracked n env p s = Some (Inl (ExitFailure ''close(client_socket)''))"
      using h e m by (simp add: info_con_def)
    moreover have "\<not> (close_reliable env v \<and> set (map (snd \<circ> snd) (z # zs)) \<subseteq> kv_open v (iworld s))"
      using False e unfolding close_reliable_def z by (metis fst_conv list.set_intros(1) list.simps(9) comp_apply snd_conv subsetD)
    ultimately show ?thesis by auto
  next
    case True
    let ?s = "set_ops ((iops s)\<lparr>cells := (cells (iops s))(a := None)\<rparr>) (set_world w (s\<lparr>itracker := (itracker s)\<lparr>mt_nodes :=
        (mt_nodes (itracker s))\<lparr>cells := (cells (mt_nodes (itracker s)))(x := None)\<rparr>\<rparr>\<rparr>))"
    have eq: "close_tracked n env p s = close_tracked m env (mt_next node) ?s"
      using h e m True by (simp add: info_con_def set_world_def set_ops_def)
    have "tchain (mt_nodes (itracker ?s)) (iops ?s) (mt_next node) zs
        = tchain (mt_nodes (itracker s)) (iops s) (mt_next node) zs"
      using nx by (intro tchain_cong) (force simp: set_ops_def set_world_def)
    then have "tchain (mt_nodes (itracker ?s)) (iops ?s) (mt_next node) zs" using h(7) by simp
    moreover have "distinct (map fst zs)" "distinct (map (fst \<circ> snd) zs)" using Cons.prems(2,3) by (simp_all add: comp_def)
    ultimately obtain r where r: "close_tracked m env (mt_next node) ?s = Some r"
      "safeE (\<lambda>s'. all_closed v zs ?s s' \<and> set (map (snd \<circ> snd) zs) \<subseteq> kv_open v (iworld ?s) \<and> distinct (map (snd \<circ> snd) zs)) r"
      "close_reliable env v \<and> set (map (snd \<circ> snd) zs) \<subseteq> kv_open v (iworld ?s) \<and> distinct (map (snd \<circ> snd) zs) \<longrightarrow> (\<exists>s'. r = Inr s')"
      using Cons.IH [OF _ _ _ m(2)] by blast
    have op: "kv_open v (iworld ?s) = kv_open v (iworld s) - {fd}" "fd \<in> kv_open v (iworld s)"
      using S True by (auto simp: set_ops_def set_world_def)
    have "safeE (\<lambda>s'. all_closed v (z # zs) s s' \<and> set (map (snd \<circ> snd) (z # zs)) \<subseteq> kv_open v (iworld s)
        \<and> distinct (map (snd \<circ> snd) (z # zs))) r"
      by (rule safeE_mono [OF r(2)]) (use op z in \<open>auto simp: all_closed_def set_ops_def set_world_def\<close>)
    moreover have "close_reliable env v \<and> set (map (snd \<circ> snd) (z # zs)) \<subseteq> kv_open v (iworld s)
        \<and> distinct (map (snd \<circ> snd) (z # zs)) \<longrightarrow> (\<exists>s'. r = Inr s')"
      using r(3) op z by (auto simp: comp_def)
    ultimately show ?thesis unfolding eq r(1) by (intro exI [of _ r] conjI refl)
  qed
qed

subsection \<open>The chain of the tracker\<close>

definition client_fd :: "iou_op heap \<Rightarrow> nat \<Rightarrow> int" where
  "client_fd ops a = (case cells ops a of Some o' \<Rightarrow> (case op_info o' of InfoCon c \<Rightarrow> con_fd c | _ \<Rightarrow> - 1) | None \<Rightarrow> - 1)"

definition node_client :: "mem_tracker \<Rightarrow> nat \<Rightarrow> nat" where
  "node_client t nd = (case node_ops t nd of Some (Some a) \<Rightarrow> a | _ \<Rightarrow> 0)"

definition tracked :: "mem_tracker \<Rightarrow> iou_op heap \<Rightarrow> nat list \<Rightarrow> (nat \<times> nat \<times> int) list" where
  "tracked t ops xs = map (\<lambda>nd. (nd, node_client t nd, client_fd ops (node_client t nd))) xs"

lemma dseg_tchain:
  assumes "dseg (mn t) pv p xs None" "\<And>nd. nd \<in> set xs \<Longrightarrow> \<exists>a. node_ops t nd = Some (Some a)
      \<and> map_option tshape (cells ops a) = Some (Some nd, True)"
  shows "tchain (mt_nodes t) ops (first_or xs None) (tracked t ops xs)"
  using assms
proof (induction xs arbitrary: p)
  case (Cons x xs)
  obtain a where a: "node_ops t x = Some (Some a)" "map_option tshape (cells ops a) = Some (Some x, True)"
  proof -
    have "\<exists>a. node_ops t x = Some (Some a) \<and> map_option tshape (cells ops a) = Some (Some x, True)"
      by (rule Cons.prems(2)) simp
    then show ?thesis using that by blast
  qed
  obtain node where n: "cells (mt_nodes t) x = Some node" "mt_allocated_op node = Some a"
    using a(1) by (auto simp: node_ops_def)
  obtain o' c where c: "cells ops a = Some o'" "op_info o' = InfoCon c"
  proof -
    obtain z where z: "cells ops a = Some z" "is_con z" using a(2) by (auto simp: tshape_def)
    then show ?thesis using that by (cases "op_info z") (simp_all add: is_con_def)
  qed
  have nx: "mt_next node = first_or xs None" using Cons.prems(1) n(1) by (simp add: mn_def)
  have "tchain (mt_nodes t) ops (first_or xs None) (tracked t ops xs)"
    using Cons.prems by (intro Cons.IH [of "Some x"]) auto
  then show ?case using a n c nx by (simp add: tracked_def node_client_def client_fd_def)
qed (simp add: tracked_def)

lemma tracked_chain:
  assumes T: "tinv S t ops xs"
  shows "tchain (mt_nodes t) ops (mt_head t) (tracked t ops xs)" "distinct (map fst (tracked t ops xs))"
    "distinct (map (fst \<circ> snd) (tracked t ops xs))" "(fst \<circ> snd) ` set (tracked t ops xs) = clients t"
    "fst ` set (tracked t ops xs) = set xs" "length (tracked t ops xs) = card (clients t)"
proof -
  have D: "dlist (mn t) (mp t) (mt_head t) (mt_tail t) xs" using tinvD(2) [OF T] by (simp add: tracks_def)
  then have dist: "distinct xs" by (simp add: dlist_def)
  show "tchain (mt_nodes t) ops (mt_head t) (tracked t ops xs)"
    using dseg_tchain [where t = t and pv = "mp t" and p = None and xs = xs and ops = ops] tinvD(4) [OF T] D
    by (simp add: dlist_def)
  have inj: "inj_on (node_client t) (set xs)"
  proof
    fix x y assume xy: "x \<in> set xs" "y \<in> set xs" "node_client t x = node_client t y"
    obtain a where a: "node_ops t x = Some (Some a)" "map_option tshape (cells ops a) = Some (Some x, True)"
      using tinvD(4) [OF T xy(1)] by blast
    obtain b where b: "node_ops t y = Some (Some b)" "map_option tshape (cells ops b) = Some (Some y, True)"
      using tinvD(4) [OF T xy(2)] by blast
    have "a = b" using xy(3) a(1) b(1) by (simp add: node_client_def)
    then show "x = y" using a(2) b(2) by simp
  qed
  show "distinct (map fst (tracked t ops xs))" using dist by (simp add: tracked_def comp_def)
  show d2: "distinct (map (fst \<circ> snd) (tracked t ops xs))"
    using dist inj by (simp add: tracked_def comp_def distinct_map)
  show cl: "(fst \<circ> snd) ` set (tracked t ops xs) = clients t"
  proof (intro set_eqI iffI)
    fix a assume "a \<in> (fst \<circ> snd) ` set (tracked t ops xs)"
    then obtain nd where nd: "nd \<in> set xs" "a = node_client t nd" by (auto simp: tracked_def)
    obtain b where b: "node_ops t nd = Some (Some b)" using tinvD(4) [OF T nd(1)] by blast
    then have "a = b" using nd(2) by (simp add: node_client_def)
    then show "a \<in> clients t" using b unfolding clients_def by blast
  next
    fix a assume "a \<in> clients t"
    then obtain nd where nd: "node_ops t nd = Some (Some a)" unfolding clients_def by blast
    then have "nd \<in> set xs" "node_client t nd = a" using tinvD(3) [OF T, of nd] by (auto simp: node_client_def)
    then show "a \<in> (fst \<circ> snd) ` set (tracked t ops xs)" by (force simp: tracked_def)
  qed
  show "fst ` set (tracked t ops xs) = set xs" by (force simp: tracked_def)
  show "length (tracked t ops xs) = card (clients t)"
    using distinct_card [OF d2] cl by simp
qed

lemma tracked_fds:
  assumes T: "tinv S t ops xs"
  shows "(snd \<circ> snd) ` set (tracked t ops xs) = client_fd ops ` clients t"
  unfolding tracked_chain(4) [OF T, symmetric] by (force simp: tracked_def)

subsection \<open>The descriptors of the clients\<close>

text \<open>A connection the kernel has closed on request, whose completion the loop has not taken.\<close>

definition close_unreaped :: "iou \<Rightarrow> 'w ushared \<Rightarrow> nat \<Rightarrow> bool" where
  "close_unreaped r sh a \<longleftrightarrow> (\<exists>c \<in> set (cq_list r (sh_mem sh)). cqe_user_data c = Some a \<and> cqe_res c = 0)
     \<and> (\<exists>o'. cells (sh_ops sh) a = Some o' \<and> op_type o' = CLOSE_CONNECTION)"

lemma distinct_concat_disjoint:
  "distinct (concat (map g xs)) \<Longrightarrow> x \<in> set xs \<Longrightarrow> y \<in> set xs \<Longrightarrow> x \<noteq> y \<Longrightarrow> set (g x) \<inter> set (g y) = {}"
  by (induction xs) auto

definition items :: "'w uview \<Rightarrow> iou \<Rightarrow> 'w ushared \<Rightarrow> (ptr \<times> int list) list" where
  "items u r sh = map (\<lambda>e. (sqe_user_data e, own_w e)) (waiting u r sh)
     @ map (\<lambda>c. (cqe_user_data c, own_c (sh_ops sh) c)) (cq_list r (sh_mem sh))"

lemma items_simps: "concat (map snd (items u r sh)) = owned u r sh" "map fst (items u r sh) = outstanding u r sh"
  by (simp_all add: items_def owned_def outstanding_def comp_def)

lemma client_item:
  assumes K: "kinv u r n cn d Os B sh" and a: "a \<in> Os" "cells (sh_ops sh) a = Some o'" "op_info o' = InfoCon c"
    and nc: "\<not> close_unreaped r sh a"
  shows "(Some a, [con_fd c]) \<in> set (items u r sh)"
proof -
  have "Some a \<in> set (outstanding u r sh)" using a(1) kinvD(4) [OF K] by simp
  then consider (w) e where "e \<in> set (waiting u r sh)" "sqe_user_data e = Some a"
    | (c) q where "q \<in> set (cq_list r (sh_mem sh))" "cqe_user_data q = Some a"
    unfolding outstanding_def by fastforce
  then show ?thesis
  proof cases
    case w
    obtain b o2 where b: "cells (sh_ops sh) b = Some o2" "e = request b o2" "op_waiting (uv_view u) d (sh_world sh) o2"
      using kinvD(5) [OF K w(1)] by (auto simp: waiting_ok_def)
    then have "b = a" using w(2) by (simp add: op_waiting_def)
    then have "own_w e = [con_fd c]" using a b own_w_request [of o2 b] by (simp add: op_waiting_def)
    then show ?thesis using w by (force simp: items_def)
  next
    case c
    have "\<not> (op_type o' = CLOSE_CONNECTION \<and> cqe_res q = 0)"
      using nc c a(2) by (auto simp: close_unreaped_def)
    then have "own_c (sh_ops sh) q = [con_fd c]" using a c(2) by (auto simp: own_c_def own_d_def)
    then show ?thesis using c by (force simp: items_def)
  qed
qed

lemma tracked_item:
  assumes K: "kinv u r n cn d (A \<union> clients (itracker s)) B (ishared s)" and T: "tinv S (itracker s) (iops s) xs"
    and a: "a \<in> clients (itracker s)" "\<not> close_unreaped r (ishared s) a"
  shows "(Some a, [client_fd (iops s) a]) \<in> set (items u r (ishared s))"
proof -
  obtain o' where o': "cells (iops s) a = Some o'" "is_con o'" using client_node [OF T a(1)] by metis
  then obtain c where "op_info o' = InfoCon c" by (cases "op_info o'") (simp_all add: is_con_def)
  then show ?thesis using client_item [OF K _ o'(1) _ a(2)] a(1) o'(1) by (simp add: client_fd_def)
qed

text \<open>A client owns its descriptor until a completed close of it waits in the ring.\<close>

lemma client_owns:
  assumes K: "kinv u r n cn d (A \<union> clients (itracker s)) B (ishared s)" and T: "tinv S (itracker s) (iops s) xs"
    and a: "a \<in> clients (itracker s)" "\<not> close_unreaped r (ishared s) a"
  shows "client_fd (iops s) a \<in> set (owned u r (ishared s))"
  unfolding items_simps(1) [symmetric] using tracked_item [OF K T a] by force

lemma client_fds:
  assumes I: "iinv cfg u r n cn S B s" and nc: "\<And>a. a \<in> clients (itracker s) \<Longrightarrow> \<not> close_unreaped r (ishared s) a"
  shows "inj_on (client_fd (iops s)) (clients (itracker s))"
    "client_fd (iops s) ` clients (itracker s) \<subseteq> kv_open (uv_view u) (iworld s) - B"
proof -
  obtain xs A where A: "sinv0 u r n cn (DEFAULT_SERVER_BUFFER_SIZE cfg) S (A \<union> clients (itracker s)) B xs s"
    using I by (auto simp: iinv_def)
  have K: "kinv u r n cn (DEFAULT_SERVER_BUFFER_SIZE cfg) (A \<union> clients (itracker s)) B (ishared s)"
    and T: "tinv S (itracker s) (iops s) xs" using A by (auto simp: sinv0_def)
  note it = tracked_item [OF K T _ nc]
  have D: "distinct (concat (map snd (items u r (ishared s))))" using kinvD(7) [OF K] by (simp add: items_simps)
  show "inj_on (client_fd (iops s)) (clients (itracker s))"
  proof
    fix a b assume ab: "a \<in> clients (itracker s)" "b \<in> clients (itracker s)" "client_fd (iops s) a = client_fd (iops s) b"
    show "a = b"
    proof (rule ccontr)
      assume "a \<noteq> b"
      then have "set [client_fd (iops s) a] \<inter> set [client_fd (iops s) b] = {}"
        using distinct_concat_disjoint [OF D it [OF ab(1) ab(1)] it [OF ab(2) ab(2)]] by simp
      then show False using ab(3) by simp
    qed
  qed
  show "client_fd (iops s) ` clients (itracker s) \<subseteq> kv_open (uv_view u) (iworld s) - B"
    using client_owns [OF K T _ nc] kinvD(8,9) [OF K] by auto
qed

subsection \<open>The cleanup\<close>

definition released ::
    "'w uview \<Rightarrow> iou \<Rightarrow> (nat \<Rightarrow> nat option) \<Rightarrow> 'w iou_state \<Rightarrow> 'w iou_state \<Rightarrow> bool" where
  "released u r before s s' \<longleftrightarrow> mt_head (itracker s') = None \<and> mt_tail (itracker s') = None
     \<and> cells (mt_nodes (itracker s')) = Map.empty
     \<and> (\<forall>a. cells (iops s') a = (if a \<in> clients (itracker s) then None else cells (iops s) a))
     \<and> kv_open (uv_view u) (iworld s') = kv_open (uv_view u) (iworld s) - {iou_ring_fd r} - client_fd (iops s) ` clients (itracker s)
     \<and> rm_maps (sh_mem (ishared s')) = before \<and> ibench s' = ibench s \<and> irunning s' = irunning s"

lemma cleanup_result:
  assumes C: "munmap_spec env (uv_view u)" "close_spec env (uv_view u)" "close_reliable env (uv_view u)"
    and I: "iinv cfg u r n cn S B s" and fd: "iou_ring_fd r \<in> B"
    and rec: "maps_recorded r before (rm_maps (sh_mem (ishared s)))" and fuel: "card (clients (itracker s)) \<le> k"
  shows "\<exists>m. ido_service_loop_cleanup k env r s = Some m
     \<and> safeE (\<lambda>s'. released u r before s s' \<and> client_fd (iops s) ` clients (itracker s) \<subseteq> kv_open (uv_view u) (iworld s)
          \<and> inj_on (client_fd (iops s)) (clients (itracker s))) m
     \<and> ((\<forall>a \<in> clients (itracker s). \<not> close_unreaped r (ishared s) a) \<longrightarrow> (\<exists>s'. m = Inr s'))"
proof -
  obtain xs A where A: "sinv0 u r n cn (DEFAULT_SERVER_BUFFER_SIZE cfg) S (A \<union> clients (itracker s)) B xs s"
    using I by (auto simp: iinv_def)
  have K: "kinv u r n cn (DEFAULT_SERVER_BUFFER_SIZE cfg) (A \<union> clients (itracker s)) B (ishared s)"
    and T: "tinv S (itracker s) (iops s) xs" using A by (auto simp: sinv0_def)
  have fo: "iou_ring_fd r \<in> kv_open (uv_view u) (iworld s)" using kinvD(9) [OF K] fd by simp
  obtain r' sh where f: "iou_free env r (ishared s) = Inr (r', sh)" "ring_released (uv_view u) (iou_ring_fd r) before (ishared s) (r', sh)"
    using free_ok [OF C(1-3) rec fo] by (auto simp: okE_iff)
  let ?s = "s\<lparr>ishared := sh\<rparr>" and ?zs = "tracked (itracker s) (iops s) xs"
  note Z = tracked_chain [OF T] and F = tracked_fds [OF T]
  have ops: "sh_ops sh = iops s" and opn: "kv_open (uv_view u) (sh_world sh) = kv_open (uv_view u) (iworld s) - {iou_ring_fd r}"
    and mp: "rm_maps (sh_mem sh) = before"
    using f(2) by (auto simp: ring_released_def)
  have ch: "tchain (mt_nodes (itracker ?s)) (iops ?s) (mt_head (itracker s)) ?zs" using Z(1) ops by simp
  obtain m where m: "close_tracked k env (mt_head (itracker s)) ?s = Some m"
    "safeE (\<lambda>s'. all_closed (uv_view u) ?zs ?s s' \<and> set (map (snd \<circ> snd) ?zs) \<subseteq> kv_open (uv_view u) (iworld ?s)
       \<and> distinct (map (snd \<circ> snd) ?zs)) m"
    "close_reliable env (uv_view u) \<and> set (map (snd \<circ> snd) ?zs) \<subseteq> kv_open (uv_view u) (iworld ?s)
       \<and> distinct (map (snd \<circ> snd) ?zs) \<longrightarrow> (\<exists>s'. m = Inr s')"
    using close_tracked_result [OF C(2) ch Z(2,3)] Z(6) fuel by metis
  define fin where "fin = (\<lambda>s :: 'a iou_state. s\<lparr>itracker := (itracker s)\<lparr>mt_head := None, mt_tail := None\<rparr>\<rparr>)"
  have eq: "ido_service_loop_cleanup k env r s = Some (bindE m (\<lambda>s. Inr (fin s)))"
    by (simp add: ido_service_loop_cleanup_def f(1) m(1) fin_def)
  have nodes: "cells (mt_nodes (itracker s)) nd = None" if "nd \<notin> set xs" for nd
    using that tinvD(3) [OF T, of nd] by (cases "cells (mt_nodes (itracker s)) nd") (auto simp: node_ops_def)
  have rel: "released u r before s (fin s')" if "all_closed (uv_view u) ?zs ?s s'" for s'
    using that nodes Z(4,5) F ops opn mp by (auto simp: released_def all_closed_def fin_def fun_eq_iff)
  have fds: "map (snd \<circ> snd) ?zs = map (client_fd (iops s)) (map (fst \<circ> snd) ?zs)" by (simp add: tracked_def)
  then have dist: "distinct (map (snd \<circ> snd) ?zs) \<longleftrightarrow> inj_on (client_fd (iops s)) (clients (itracker s))"
    using Z(3,4) by (simp only: distinct_map [of "client_fd (iops s)"] set_map simp_thms)
  have "safeE (\<lambda>s'. released u r before s s' \<and> client_fd (iops s) ` clients (itracker s) \<subseteq> kv_open (uv_view u) (iworld s)
        \<and> inj_on (client_fd (iops s)) (clients (itracker s))) (bindE m (\<lambda>s. Inr (fin s)))"
    unfolding safeE_bindE safeE_simps
    by (rule safeE_mono [OF m(2)]) (use rel F opn dist in auto)
  moreover have "\<exists>s'. bindE m (\<lambda>s. Inr (fin s)) = Inr s'"
    if nc: "\<forall>a \<in> clients (itracker s). \<not> close_unreaped r (ishared s) a"
  proof -
    note cf = client_fds [OF I, OF nc [rule_format]]
    have "set (map (snd \<circ> snd) ?zs) \<subseteq> kv_open (uv_view u) (iworld ?s)"
      using cf(2) F fd opn by auto
    then show ?thesis using m(3) C(3) cf(1) dist by auto
  qed
  ultimately show ?thesis using eq by blast
qed

end
