(* ===== verification/UringService.thy ===== *)
theory UringService
  imports UringStartup UringShutdown Loops
begin

text \<open>
  The whole of the io_uring server's \<open>service_loop\<close>: from a fresh process through start-up,
  any number of rounds and the shutdown, with everything it allocated given back.
\<close>

unbundle bit_operations_syntax

subsection \<open>The loop\<close>

definition loop_over ::
    "config \<Rightarrow> 'w uview \<Rightarrow> iou \<Rightarrow> nat \<Rightarrow> nat \<Rightarrow> nat set \<Rightarrow> int set \<Rightarrow> 'w iou_state \<Rightarrow> int \<times> 'w iou_state \<Rightarrow> bool" where
  "loop_over cfg u r n cn S B s = (\<lambda>(k', s'). iinv cfg u r n cn S B s' \<and> irunning s' = 0
     \<and> rm_maps (sh_mem (ishared s')) = rm_maps (sh_mem (ishared s)))"

lemma iinv_ring_ok: "iinv cfg u r n cn S B s \<Longrightarrow> ring_ok r n cn (sh_mem (ishared s))"
  by (auto simp: iinv_def sinv0_def dest: kinvD(1))

interpretation iou_run: server_loop "\<lambda>ks. (fst ks, signal_point bld env (snd ks))" "\<lambda>ks. irunning (snd ks) \<noteq> 0"
    "\<lambda>_ ks. Some (iou_round cfg env r ks)" "\<lambda>n. iou_loop n cfg bld env r" for cfg bld env r
  by unfold_locales (simp_all add: iou_loop.simps [of 0] iou_loop.simps [of "Suc _"] iou_loop.simps Let_def split: sum.splits)

text \<open>What a round finds when \<open>m\<close> more may follow: the counters still have room.\<close>

definition room_for ::
    "config \<Rightarrow> 'w uview \<Rightarrow> iou \<Rightarrow> nat \<Rightarrow> nat \<Rightarrow> nat set \<Rightarrow> int set \<Rightarrow> 'w iou_state \<Rightarrow> nat \<Rightarrow> int \<times> 'w iou_state \<Rightarrow> bool" where
  "room_for cfg u r n cn S B s0 m = (\<lambda>(k, s). iinv cfg u r n cn S B s \<and> (\<exists>base. counted u r base k s)
     \<and> k + 2 * int m + 2 < 2 ^ 31 \<and> (DO_BENCH cfg \<longrightarrow> client_no (ibench s) + int m + 1 < 2 ^ 31)
     \<and> rm_maps (sh_mem (ishared s)) = rm_maps (sh_mem (ishared s0)))"

lemma round_keeps_room:
  assumes S: "uring_spec env u r cn" and d: "DEFAULT_SERVER_BUFFER_SIZE cfg < 2 ^ 32"
    and P: "room_for cfg u r n cn S B s0 (Suc m) (k, s)"
  shows "outcome exits (room_for cfg u r n cn S B s0 m) (iou_round cfg env r (k, signal_point bld env s))"
proof -
  let ?s = "signal_point bld env s"
  obtain base where I: "iinv cfg u r n cn S B s" "counted u r base k s" using P by (auto simp: room_for_def)
  note Q = signal_point_inv [OF S I(1), of bld]
  have c: "counted u r base k ?s" using I(2) Q(3) by (simp add: counted_def)
  have "safeE (round_ok cfg u r n cn S B base (k, ?s)) (iou_round cfg env r (k, ?s))"
    using P Q(2) by (intro round_safe [OF S d Q(1) c]) (auto simp: room_for_def)
  then show ?thesis
    unfolding safeE_outcome
  proof (rule outcome_mono)
    fix x assume x: "iou_round cfg env r (k, ?s) = Inr x" "round_ok cfg u r n cn S B base (k, ?s) x"
    obtain k' s' where ks: "x = (k', s')" by force
    have "rm_maps (sh_mem (ishared s')) = rm_maps (sh_mem (ishared s))"
      using round_serves(2) [OF S iinv_ring_ok [OF Q(1)]] x(1) ks by simp
    moreover have "iinv cfg u r n cn S B s'" "k' \<le> k + 2" "client_no (ibench s') \<le> client_no (ibench s) + 1"
        "\<exists>base. counted u r base k' s'"
      using x(2) ks Q(2) by (auto simp: round_ok_def)
    ultimately show "room_for cfg u r n cn S B s0 m x" using P ks by (auto simp: room_for_def)
  qed
qed

lemma iou_loop_safe:
  assumes S: "uring_spec env u r cn" and d: "DEFAULT_SERVER_BUFFER_SIZE cfg < 2 ^ 32"
    and I: "iinv cfg u r n cn S B s" and k: "\<exists>base. counted u r base k s" "k + 2 * int m + 2 < 2 ^ 31"
    and cl: "DO_BENCH cfg \<Longrightarrow> client_no (ibench s) + int m + 1 < 2 ^ 31"
  shows "case iou_loop m cfg bld env r (k, s) of None \<Rightarrow> True | Some x \<Rightarrow> safeE (loop_over cfg u r n cn S B s) x"
proof -
  have step: "outcome_opt exits (room_for cfg u r n cn S B s j) (Some (iou_round cfg env r (fst ks, signal_point bld env (snd ks))))"
    if "room_for cfg u r n cn S B s (Suc j) ks" for j ks
    using round_keeps_room [OF S d, of n S B s j "fst ks" "snd ks" bld] that by simp
  have start: "room_for cfg u r n cn S B s m (k, s)" using assms by (simp add: room_for_def)
  have "outcome_opt exits (\<lambda>ks'. \<exists>j ks0. room_for cfg u r n cn S B s j ks0 \<and> ks' = (fst ks0, signal_point bld env (snd ks0))
      \<and> \<not> irunning (snd ks') \<noteq> 0) (iou_loop m cfg bld env r (k, s))"
    by (rule iou_run.loop_keeps [where I = "room_for cfg u r n cn S B s"]) (use step start in auto)
  moreover have "loop_over cfg u r n cn S B s (fst ks0, signal_point bld env (snd ks0))"
    if "room_for cfg u r n cn S B s j ks0" "irunning (signal_point bld env (snd ks0)) = 0" for j ks0
    using that signal_point_inv [OF S, of cfg n S B "snd ks0" bld] by (auto simp: room_for_def loop_over_def)
  ultimately show ?thesis
    by (auto simp: outcome_opt_def safeE_outcome outcome_def split: option.splits sum.splits)
qed

subsection \<open>After the loop\<close>

lemma end_stack_frees:
  assumes "distinct as" "\<And>a. a \<in> set as \<Longrightarrow> cells (iops s) a \<noteq> None"
  shows "\<exists>s'. end_stack_ops as s = Inr s' \<and> cells (iops s') = (\<lambda>a. if a \<in> set as then None else cells (iops s) a)
     \<and> itracker s' = itracker s \<and> sh_mem (ishared s') = sh_mem (ishared s) \<and> iworld s' = iworld s"
  using assms
proof (induction as arbitrary: s)
  case (Cons a as)
  let ?s = "set_ops ((iops s)\<lparr>cells := (cells (iops s))(a := None)\<rparr>) s"
  obtain o' where o': "cells (iops s) a = Some o'" using Cons.prems(2) [of a] by auto
  have "\<exists>s'. end_stack_ops as ?s = Inr s' \<and> cells (iops s') = (\<lambda>b. if b \<in> set as then None else cells (iops ?s) b)
     \<and> itracker s' = itracker ?s \<and> sh_mem (ishared s') = sh_mem (ishared ?s) \<and> iworld s' = iworld ?s"
    using Cons.prems by (intro Cons.IH) (auto simp: set_ops_def)
  then show ?case using o' by (auto simp: set_ops_def fun_eq_iff)
qed (simp add: fun_eq_iff)

text \<open>Nothing of what \<open>service_loop\<close> allocated or mapped is left.\<close>

definition all_released :: "'w iou_state \<Rightarrow> 'w iou_state \<Rightarrow> bool" where
  "all_released s s' \<longleftrightarrow> cells (iops s') = Map.empty \<and> cells (mt_nodes (itracker s')) = Map.empty
     \<and> mt_head (itracker s') = None \<and> rm_maps (sh_mem (ishared s')) = rm_maps (sh_mem (ishared s))"

lemma clients_le_nodes: "cells (mt_nodes t) = cells (mt_nodes t') \<Longrightarrow> clients t = clients t'"
  by (simp add: clients_def node_ops_def)

lemma end_of_service:
  assumes C: "munmap_spec env (uv_view u)" "close_spec env (uv_view u)" "close_reliable env (uv_view u)"
    and S: "uring_spec env u r cn" and I: "iinv cfg u r n cn (set stack) B s"
    and st: "distinct stack" and fd: "iou_ring_fd r \<in> B"
    and rec: "maps_recorded r (rm_maps (sh_mem (ishared s0))) (rm_maps (sh_mem (ishared s)))"
    and fuel: "card (clients (itracker s)) \<le> k"
  shows "\<exists>m. ido_service_loop_cleanup k env r s = Some m
     \<and> safeE (all_released s0) (bindE m (end_stack_ops stack))"
proof -
  obtain m where m: "ido_service_loop_cleanup k env r s = Some m"
    "safeE (\<lambda>s'. released u r (rm_maps (sh_mem (ishared s0))) s s'
       \<and> client_fd (iops s) ` clients (itracker s) \<subseteq> kv_open (uv_view u) (iworld s)
       \<and> inj_on (client_fd (iops s)) (clients (itracker s))) m"
    using cleanup_result [OF C I fd rec fuel] by blast
  obtain xs A where "sinv0 u r n cn (DEFAULT_SERVER_BUFFER_SIZE cfg) (set stack) (A \<union> clients (itracker s)) B xs s"
    using I by (auto simp: iinv_def)
  then have T: "tinv (set stack) (itracker s) (iops s) xs" by (simp add: sinv0_def)
  have "safeE (all_released s0) (end_stack_ops stack s')"
    if R: "released u r (rm_maps (sh_mem (ishared s0))) s s'" for s'
  proof -
    have ops: "cells (iops s') a = (if a \<in> clients (itracker s) then None else cells (iops s) a)" for a
      using R by (simp add: released_def)
    have "cells (iops s') a \<noteq> None" if "a \<in> set stack" for a
      using tinvD(5) [OF T that] client_not_stack [OF T, of a] that by (auto simp: ops)
    from end_stack_frees [OF st this] obtain s2 where s2: "end_stack_ops stack s' = Inr s2"
      "cells (iops s2) = (\<lambda>a. if a \<in> set stack then None else cells (iops s') a)"
      "itracker s2 = itracker s'" "sh_mem (ishared s2) = sh_mem (ishared s')" by blast
    have "cells (iops s2) a = None" for a
      using tinvD(6) [OF T, of a] by (cases "cells (iops s) a") (auto simp: s2(2) ops)
    then show ?thesis using R s2 by (simp add: all_released_def released_def fun_eq_iff)
  qed
  then have "safeE (all_released s0) (bindE m (end_stack_ops stack))"
    unfolding safeE_bindE by (intro safeE_mono [OF m(2)]) simp
  then show ?thesis using m(1) by blast
qed


text \<open>More fuel never changes what the cleanup returns.\<close>

lemma close_tracked_more: "close_tracked n env p s = Some m \<Longrightarrow> n \<le> k \<Longrightarrow> close_tracked k env p s = Some m"
proof (induction n arbitrary: k p s)
  case 0
  then show ?case by (cases k) (auto split: if_splits)
next
  case (Suc n)
  then obtain j where j: "k = Suc j" "n \<le> j" by (cases k) auto
  show ?case
    using Suc.prems(1) j Suc.IH [OF _ j(2)]
    by (simp split: option.split_asm option.split sum.split_asm sum.split prod.split_asm prod.split)
qed

lemma cleanup_more:
  assumes "ido_service_loop_cleanup n env r s = Some m" "n \<le> k"
  shows "ido_service_loop_cleanup k env r s = Some m"
proof (cases "iou_free env r (ishared s)")
  case (Inl e)
  then show ?thesis using assms(1) by (simp add: ido_service_loop_cleanup_def)
next
  case (Inr x)
  obtain r' sh where x: "x = (r', sh)" by force
  obtain z where z: "close_tracked n env (mt_head (itracker s)) (s\<lparr>ishared := sh\<rparr>) = Some z"
    using assms(1) by (auto simp: ido_service_loop_cleanup_def Inr x)
  then show ?thesis
    using assms(1) close_tracked_more [OF z assms(2)] by (simp add: ido_service_loop_cleanup_def Inr x)
qed

lemma stop_off: "do_measure (fst (sb_stop clock (b, w))) = 0"
  by simp

lemma stop_inv:
  assumes S: "uring_spec env u r cn" and I: "iinv cfg u r n cn St B s"
  shows "iinv cfg u r n cn St B (with_ibench cfg (sb_stop (e_clock env)) s)"
proof (cases "DO_BENCH cfg")
  case True
  obtain b w where e: "sb_stop (e_clock env) (ibench s, iworld s) = (b, w)" by force
  then have "snd (e_clock env (iworld s)) = w" by (auto simp: sb_stop_def split: prod.splits)
  then have w: "same_uview u (iworld s) w" using uring_specD(4) [OF S] by (metis prod.collapse)
  have "bench_inv (ibench s)" using I True by (simp add: iinv_def)
  then have b: "bench_inv b" using bench_inv_ops(2) [of "ibench s" "e_clock env" "iworld s"] e by simp
  have "iinv cfg u r n cn St B (set_world w (s\<lparr>ibench := b\<rparr>))"
    using iinv_world [OF iinv_bench [OF I], of b w] b w by simp
  then show ?thesis using True by (simp add: with_ibench_def e)
next
  case False
  then show ?thesis using I by (simp add: with_ibench_def)
qed

subsection \<open>service_loop\<close>

text \<open>What follows the loop: stopping the benchmark, saving it, the cleanup.\<close>

lemma after_loop_safe:
  assumes C: "munmap_spec env (uv_view u)" "close_spec env (uv_view u)" "close_reliable env (uv_view u)"
    and S: "uring_spec env u r cn" and I: "iinv cfg u r n cn (set stack) B s2" and st: "distinct stack"
    and fd: "iou_ring_fd r \<in> B"
    and rec: "maps_recorded r (rm_maps (sh_mem (ishared s))) (rm_maps (sh_mem (ishared s2)))"
  shows "case (let s = with_ibench cfg (sb_stop (e_clock env)) s2
     in case (if DO_BENCH cfg then sb_save_bench fopen (ibench s) else Inr None) of
          Inl e \<Rightarrow> Some (Inl e)
        | Inr out \<Rightarrow> map_option (\<lambda>res. bindE res (\<lambda>s. bindE (end_stack_ops stack s) (\<lambda>s. Inr (out, s))))
            (ido_service_loop_cleanup m env r s)) of None \<Rightarrow> True | Some x \<Rightarrow> safeE (\<lambda>(out, s'). all_released s s') x"
proof -
  define s3 where "s3 = with_ibench cfg (sb_stop (e_clock env)) s2"
  have I3: "iinv cfg u r n cn (set stack) B s3" unfolding s3_def by (rule stop_inv [OF S I])
  have rec3: "maps_recorded r (rm_maps (sh_mem (ishared s))) (rm_maps (sh_mem (ishared s3)))" using rec by (simp add: s3_def)
  have rest: "case map_option (\<lambda>res. bindE res (\<lambda>s. bindE (end_stack_ops stack s) (\<lambda>s. Inr (out, s))))
       (ido_service_loop_cleanup m env r s3) of None \<Rightarrow> True | Some x \<Rightarrow> safeE (\<lambda>(out, s'). all_released s s') x"
    for out :: "string option"
  proof (cases "ido_service_loop_cleanup m env r s3")
    case c: (Some q)
    obtain q' where q': "ido_service_loop_cleanup (max m (card (clients (itracker s3)))) env r s3 = Some q'"
        "safeE (all_released s) (bindE q' (end_stack_ops stack))"
      using end_of_service [OF C S I3 st fd rec3 max.cobounded2] by blast
    have "q' = q" using cleanup_more [OF c max.cobounded1] q'(1) by simp
    then show ?thesis using c q'(2) by simp
  qed simp
  have sv: "safeE (\<lambda>_. True) (if DO_BENCH cfg then sb_save_bench fopen (ibench s3) else Inr None)"
  proof (cases "DO_BENCH cfg")
    case True
    have "do_measure (ibench s3) = 0"
      using True stop_off [of "e_clock env" "ibench s2" "iworld s2"]
      by (cases "sb_stop (e_clock env) (ibench s2, iworld s2)") (simp add: s3_def with_ibench_def set_world_def)
    moreover have "bench_inv (ibench s3)" using I3 True by (simp add: iinv_def)
    ultimately show ?thesis using True save_bench_safe by simp
  qed simp
  show ?thesis
  proof (cases "if DO_BENCH cfg then sb_save_bench fopen (ibench s3) else Inr None")
    case (Inl e)
    then show ?thesis using sv unfolding Let_def s3_def [symmetric] Inl by (cases e) simp_all
  next
    case (Inr out)
    then show ?thesis unfolding Let_def s3_def [symmetric] Inr using rest by simp
  qed
qed

lemma iservice_loop_safe:
  assumes U: "setup_ring_spec env (uv_view u)" "mmap_spec env (uv_view u)" "sigmask_spec env u"
    and C: "munmap_spec env (uv_view u)" "close_spec env (uv_view u)" "close_reliable env (uv_view u)"
    and F: "ring_started env u (IO_URING_RING_SIZE bld) (IO_URING_RUN_IN_KERNEL_POLL_MODE bld) (ishared s)"
    and d: "DEFAULT_SERVER_BUFFER_SIZE cfg < 2 ^ 32"
    and s: "iops s = empty_heap" "itracker s = mem_t_create empty_heap" "DO_BENCH cfg \<Longrightarrow> bench_inv (ibench s)"
    and m: "2 * m + 4 < 2 ^ 31" "DO_BENCH cfg \<Longrightarrow> client_no (ibench s) + int m + 1 < 2 ^ 31"
  shows "case iservice_loop m cfg bld env fopen ls s of None \<Rightarrow> True | Some x \<Rightarrow> safeE (\<lambda>(out, s'). all_released s s') x"
proof -
  have init: "safeE (uring_ready cfg env u s) (iservice_loop_init cfg bld env ls s)"
    by (rule uring_init_safe [OF U F d s])
  show ?thesis
  proof (cases "iservice_loop_init cfg bld env ls s")
    case (Inl e)
    then show ?thesis using init by (cases e) (simp_all add: iservice_loop_def)
  next
    case i: (Inr x)
    obtain r stack k s1 where x: "x = (r, stack, k, s1)" by (cases x) auto
    define n cn B where "n = unat (sq_entries (iou_configuration r))" and "cn = unat (cq_entries (iou_configuration r))"
      and "B = insert (iou_ring_fd r) (kv_open (uv_view u) (iworld s))"
    have R: "uring_spec env u r cn" "iinv cfg u r n cn (set stack) B s1" "distinct stack" "k = int (length stack)"
        "length stack \<le> 2" "\<exists>base. counted u r base k s1"
        "maps_recorded r (rm_maps (sh_mem (ishared s))) (rm_maps (sh_mem (ishared s1)))" "ibench s1 = ibench s"
      using init by (auto simp: i x uring_ready_def Let_def n_def cn_def B_def)
    have L: "case iou_loop m cfg bld env r (k, s1) of None \<Rightarrow> True | Some x \<Rightarrow> safeE (loop_over cfg u r n cn (set stack) B s1) x"
      using R m by (intro iou_loop_safe [OF R(1) d R(2,6)]) auto
    show ?thesis
    proof (cases "iou_loop m cfg bld env r (k, s1)")
      case None
      then show ?thesis by (simp add: iservice_loop_def i x)
    next
      case l: (Some y)
      show ?thesis
      proof (cases y)
        case (Inl e)
        then show ?thesis using L l i by (cases e) (simp_all add: iservice_loop_def x)
      next
        case y: (Inr z)
        obtain k2 s2 where z: "z = (k2, s2)" by force
        have "iinv cfg u r n cn (set stack) B s2" "rm_maps (sh_mem (ishared s2)) = rm_maps (sh_mem (ishared s1))"
          using L l y z by (auto simp: loop_over_def)
        then show ?thesis
          using after_loop_safe [OF C R(1) _ R(3), where B = B and ?s2.0 = s2 and s = s and cfg = cfg and m = m and fopen = fopen and n = n] R(7)
          unfolding iservice_loop_def i x sum.case prod.case l y z option.case by (simp add: B_def)
      qed
    qed
  qed
qed

end
