(* ===== verification/UringSample.thy ===== *)
theory UringSample
  imports UringRounds SampleKernel
begin

text \<open>
  A small kernel with io_uring that satisfies the contracts of the io_uring theories, for
  applying theorems at concrete inputs: entering takes all requests and completes those it can
  (an accept when a connection waits, a receive when a message is there, every send and close;
  the timer never expires). The stop signal arrives at the first point of the loop at which it is
  unblocked, which is in the kernel-polled build only.
\<close>

unbundle bit_operations_syntax

record uworld =
  us_base :: "unit sworld"
  us_flight :: "io_uring_sqe list"
  us_taken :: "io_uring_sqe list"
  us_posted :: "io_uring_cqe list"

definition suview :: "uworld uview" where
  "suview = \<lparr>uv_view = \<lparr>kv_open = (\<lambda>w. set (sw_open (us_base w))), kv_in = (\<lambda>w. sw_got (us_base w)),
       kv_out = (\<lambda>w. sw_sent (us_base w))\<rparr>,
     uv_flight = us_flight, uv_taken = us_taken, uv_posted = us_posted\<rparr>"

definition lift :: "(unit sworld \<Rightarrow> 'a \<times> unit sworld) \<Rightarrow> uworld \<Rightarrow> 'a \<times> uworld" where
  "lift f w = (case f (us_base w) of (x, b) \<Rightarrow> (x, w\<lparr>us_base := b\<rparr>))"

subsection \<open>Completing requests\<close>

definition can_complete :: "io_uring_sqe \<Rightarrow> uworld \<Rightarrow> bool" where
  "can_complete e w = (case sqe_opcode e of
     IORING_OP_ACCEPT \<Rightarrow> sw_backlog (us_base w) \<noteq> 0
   | IORING_OP_CLOSE \<Rightarrow> sqe_fd e \<in> set (sw_open (us_base w))
   | IORING_OP_RECV \<Rightarrow> sw_mail (us_base w) (sqe_fd e) \<noteq> []
   | IORING_OP_SEND \<Rightarrow> True
   | _ \<Rightarrow> False)"

definition send_bytes :: "io_uring_sqe \<Rightarrow> iou_op heap \<Rightarrow> byte list" where
  "send_bytes e ops = (case sqe_addr e of
     AddrOfBuf a \<Rightarrow> (case cells ops a of None \<Rightarrow> [] | Some o' \<Rightarrow> (case op_info o' of
       InfoCon c \<Rightarrow> take (unat (sqe_len e)) (con_buf c) | _ \<Rightarrow> []))
   | _ \<Rightarrow> [])"

definition complete_req :: "io_uring_sqe \<Rightarrow> iou_op heap \<times> uworld \<Rightarrow> int \<times> iou_op heap \<times> uworld" where
  "complete_req e = (\<lambda>(ops, w). case sqe_opcode e of
     IORING_OP_ACCEPT \<Rightarrow> (case lift (s_accept (sqe_fd e)) w of ((fd, _), w) \<Rightarrow> (fd, ops, w))
   | IORING_OP_CLOSE \<Rightarrow> (case lift (s_close (sqe_fd e)) w of (rc, w) \<Rightarrow> (rc, ops, w))
   | IORING_OP_RECV \<Rightarrow> (case lift (s_read (sqe_fd e) (unat (sqe_len e))) w of ((rc, bs), w) \<Rightarrow>
       (rc, (if rc \<le> 0 then ops else case sqe_addr e of AddrOfBuf a \<Rightarrow> k_write_buf a bs ops | _ \<Rightarrow> ops), w))
   | IORING_OP_SEND \<Rightarrow> (case lift (s_write (sqe_fd e) (send_bytes e ops)) w of (rc, w) \<Rightarrow> (rc, ops, w))
   | _ \<Rightarrow> (0, ops, w))"

lemma complete_effect:
  assumes "can_complete e w" "complete_req e (ops, w) = (rc, ops', w')"
  shows "k_effect (uv_view suview) e rc (ops, w) (ops', w') \<and> us_flight w' = us_flight w
     \<and> us_taken w' = us_taken w \<and> us_posted w' = us_posted w"
proof (cases "sqe_opcode e")
  case IORING_OP_ACCEPT
  then show ?thesis
    using assms by (auto simp: can_complete_def complete_req_def lift_def s_accept_def s_open_def k_effect_def
        opened_def suview_def)
next
  case IORING_OP_CLOSE
  then show ?thesis
    using assms by (auto simp: can_complete_def complete_req_def lift_def s_close_def k_effect_def suview_def)
next
  case IORING_OP_RECV
  obtain m ms where m: "sw_mail (us_base w) (sqe_fd e) = m # ms"
    using assms(1) IORING_OP_RECV by (cases "sw_mail (us_base w) (sqe_fd e)") (auto simp: can_complete_def)
  then have r: "rc = int (length (take (unat (sqe_len e)) m))"
    using assms(2) IORING_OP_RECV by (auto simp: complete_req_def lift_def s_read_def split: if_splits)
  show ?thesis
  proof (cases "take (unat (sqe_len e)) m = []")
    case True
    then show ?thesis
      using assms(2) IORING_OP_RECV m r
      by (auto simp: complete_req_def lift_def s_read_def k_effect_def suview_def same_view_def fun_eq_iff)
  next
    case False
    define bs where "bs = take (unat (sqe_len e)) m"
    have bs: "length bs \<le> unat (sqe_len e)" "\<not> int (length bs) \<le> 0" using False by (auto simp: bs_def)
    then show ?thesis
      using assms(2) IORING_OP_RECV m r unfolding bs_def [symmetric]
      by (auto simp: complete_req_def lift_def s_read_def k_effect_def suview_def bs_def [symmetric] split: uaddr.splits if_splits)
  qed
next
  case IORING_OP_SEND
  have l: "length (send_bytes e ops) \<le> unat (sqe_len e)"
    by (simp add: send_bytes_def split: uaddr.splits option.splits op_info.splits)
  have b: "send_bytes e ops = take (length (send_bytes e ops)) (con_buf c)"
    if "sqe_addr e = AddrOfBuf a" "cells ops a = Some o'" "op_info o' = InfoCon c" for a o' c
    using that by (simp add: send_bytes_def min_def)
  show ?thesis
  proof (cases "send_bytes e ops = []")
    case True
    then show ?thesis
      using assms(2) IORING_OP_SEND
      by (auto simp: complete_req_def lift_def s_write_def k_effect_def suview_def same_view_def fun_eq_iff)
  next
    case False
    then show ?thesis
      using assms(2) IORING_OP_SEND l b
      by (auto simp: complete_req_def lift_def s_write_def k_effect_def suview_def)
  qed
qed (use assms in \<open>simp_all add: can_complete_def\<close>)

subsection \<open>The kernel\<close>

definition kernel_once :: "iou \<Rightarrow> nat \<Rightarrow> uworld ushared \<Rightarrow> uworld ushared" where
  "kernel_once r cn sh = (case sq_list r (sh_mem sh) of
     e # q \<Rightarrow> sh\<lparr>sh_mem := k_take r (sh_mem sh), sh_world := (sh_world sh)\<lparr>
         us_flight := us_flight (sh_world sh) @ [e], us_taken := us_taken (sh_world sh) @ [e]\<rparr>\<rparr>
   | [] \<Rightarrow>
     (let w = sh_world sh; xs = takeWhile (\<lambda>e. \<not> can_complete e w) (us_flight w)
      in case dropWhile (\<lambda>e. \<not> can_complete e w) (us_flight w) of
           [] \<Rightarrow> sh
         | e # ys \<Rightarrow> if length (cq_list r (sh_mem sh)) < cn
             then (case complete_req e (sh_ops sh, w) of (rc, ops, w) \<Rightarrow>
               let c = \<lparr>cqe_user_data = sqe_user_data e, cqe_res = rc, cqe_flags = 0\<rparr>
               in sh\<lparr>sh_mem := k_post r c (sh_mem sh), sh_ops := ops,
                    sh_world := w\<lparr>us_flight := xs @ ys, us_posted := us_posted w @ [c]\<rparr>\<rparr>)
             else sh))"

lemma suview_simps [simp]:
  "uv_flight suview = us_flight" "uv_taken suview = us_taken" "uv_posted suview = us_posted"
  "kv_open (uv_view suview) w = set (sw_open (us_base w))" "kv_in (uv_view suview) w = sw_got (us_base w)"
  "kv_out (uv_view suview) w = sw_sent (us_base w)"
  by (simp_all add: suview_def)

lemma k_effect_ghost:
  "k_effect (uv_view suview) e rc (ops, w) (ops', w') \<Longrightarrow>
   k_effect (uv_view suview) e rc (ops, w) (ops', w'\<lparr>us_flight := f, us_posted := p\<rparr>)"
  by (cases "sqe_opcode e") (auto simp: k_effect_def opened_def same_view_def split: if_splits)

lemma kernel_once_step: "ksteps suview r cn sh (kernel_once r cn sh)"
proof (cases "sq_list r (sh_mem sh)")
  case (Cons e q)
  have "kstep suview r cn sh (kernel_once r cn sh)"
    unfolding kernel_once_def Cons list.case
    by (rule k_step_take [OF Cons]) (simp_all add: same_view_def)
  then show ?thesis by (rule r_into_rtranclp)
next
  case Nil
  let ?w = "sh_world sh"
  let ?P = "\<lambda>e. \<not> can_complete e ?w"
  show ?thesis
  proof (cases "dropWhile ?P (us_flight ?w)")
    case Nil2: Nil
    show ?thesis unfolding kernel_once_def Nil list.case Let_def Nil2 by simp
  next
    case (Cons e ys)
    have fl: "us_flight ?w = takeWhile ?P (us_flight ?w) @ e # ys"
      using takeWhile_dropWhile_id [of ?P "us_flight ?w"] Cons by simp
    have ce: "can_complete e ?w" using hd_dropWhile [of ?P "us_flight ?w"] Cons by simp
    show ?thesis
    proof (cases "length (cq_list r (sh_mem sh)) < cn")
      case False
      then show ?thesis by (simp add: kernel_once_def Nil Cons)
    next
      case True
      obtain rc ops w where c: "complete_req e (sh_ops sh, ?w) = (rc, ops, w)"
        by (cases "complete_req e (sh_ops sh, ?w)") auto
      note E = complete_effect [OF ce c]
      let ?c = "\<lparr>cqe_user_data = sqe_user_data e, cqe_res = rc, cqe_flags = 0\<rparr>"
      have "kstep suview r cn sh (sh\<lparr>sh_mem := k_post r ?c (sh_mem sh), sh_ops := ops,
          sh_world := w\<lparr>us_flight := takeWhile ?P (us_flight ?w) @ ys, us_posted := us_posted w @ [?c]\<rparr>\<rparr>)"
        by (rule k_step_complete [where xs = "takeWhile ?P (us_flight ?w)" and e = e and ys = ys])
          (use fl True E k_effect_ghost in auto)
      then show ?thesis using True c by (simp add: kernel_once_def Nil Cons Let_def r_into_rtranclp)
    qed
  qed
qed

lemma kernel_pump: "ksteps suview r cn sh ((kernel_once r cn ^^ k) sh)"
proof (induction k)
  case (Suc k)
  then show ?case using kernel_once_step [of r cn "(kernel_once r cn ^^ k) sh"] by (simp add: rtranclp_trans)
qed simp

subsection \<open>The environment\<close>

text \<open>Rings of 4 requests and 8 completions in one mapping of 208 bytes.\<close>

definition sample_params :: io_uring_params where
  "sample_params = zero_params\<lparr>sq_entries := 4, cq_entries := 8, features := 129,
     sq_off := \<lparr>so_head = 0, so_tail = 4, so_ring_mask = 8, so_ring_entries = 36, so_flags = 12, so_array = 192\<rparr>,
     cq_off := \<lparr>co_head = 20, co_tail = 24, co_ring_mask = 28, co_ring_entries = 32, co_cqes = 64\<rparr>\<rparr>"

definition sample_ring :: "32 word \<Rightarrow> iou" where
  "sample_ring k = mapped_iou 4 sample_params k 1 208 1 0 0 3"

definition map_number :: "mmap_offset \<Rightarrow> nat" where
  "map_number off = (case off of IORING_OFF_SQ_RING \<Rightarrow> 1 | IORING_OFF_CQ_RING \<Rightarrow> 2 | IORING_OFF_SQES \<Rightarrow> 3)"

definition s_mmap :: "nat \<Rightarrow> int \<Rightarrow> mmap_offset \<Rightarrow> uworld ushared \<Rightarrow> nat option \<times> uworld ushared" where
  "s_mmap len fd off sh = (let a = map_number off; m = sh_mem sh in
     if rm_maps m a \<noteq> None then (None, sh)
     else (Some a, sh\<lparr>sh_mem := m\<lparr>rm_maps := (rm_maps m)(a := Some len),
       rm_u32 := (\<lambda>p. if fst p = a then (if p = (1, 8) then 3 else if p = (1, 28) then 7 else 0) else rm_u32 m p)\<rparr>\<rparr>))"

definition s_munmap :: "nat \<Rightarrow> nat \<Rightarrow> uworld ushared \<Rightarrow> int \<times> uworld ushared" where
  "s_munmap a len sh = (let m = sh_mem sh in
     if rm_maps m a = Some len then (0, sh\<lparr>sh_mem := m\<lparr>rm_maps := (rm_maps m)(a := None)\<rparr>\<rparr>) else (- 1, sh))"

definition sample_uring :: "iou \<Rightarrow> nat \<Rightarrow> uworld uring_env" where
  "sample_uring r cn = \<lparr>
     e_malloc = (\<lambda>n w. (Some (\<lambda>_. 0), w)), e_clock = lift s_clock,
     e_read = (\<lambda>fd n. lift (s_read fd n)), e_write = (\<lambda>fd bs. lift (s_write fd bs)),
     e_accept4 = (\<lambda>fd. lift (s_accept fd)), e_close = (\<lambda>fd. lift (s_close fd)),
     e_socket = lift s_open, e_fcntl_nonblock = (\<lambda>fd w. (0, w)), e_bind = (\<lambda>fd p a w. (0, w)),
     e_listen = (\<lambda>fd n w. (0, w)), e_timerfd_create = lift s_open,
     e_timerfd_settime = (\<lambda>fd a b w. (0, w)), e_sigaction_usr1 = (\<lambda>w. (0, w)),
     e_sigemptyset = (\<lambda>w. (0, w)), e_sigaddset_usr1 = (\<lambda>w. (0, w)), e_sigprocmask = (\<lambda>b w. (0, w)),
     e_uring_setup = (\<lambda>k p sh. case lift s_open (sh_world sh) of (fd, w) \<Rightarrow>
       ((fd, 0, sample_params), sh\<lparr>sh_world := w\<rparr>)),
     e_uring_enter = (\<lambda>fd k m f sig sh. ((int (unat k), 0, False), (kernel_once r cn ^^ 4) sh)),
     e_uring_async = (\<lambda>sh. sh), e_mmap = s_mmap, e_munmap = s_munmap, e_signal = (\<lambda>w. (True, w))\<rparr>"

lemma sample_uring_spec: "uring_spec (sample_uring r cn) suview r cn"
  by (auto simp: uring_spec_def sample_uring_def kernel_pump lift_def s_clock_def same_uview_def same_view_def
      clock_ts_def)

lemma lift_open: "lift s_open w = (fd, w') \<Longrightarrow> opened (uv_view suview) w fd w'"
  by (auto simp: lift_def s_open_def opened_def not_less [symmetric])

lemma sample_params_ok: "params_ok sample_params"
  by (simp add: params_ok_def sample_params_def ring_areas_def sq_words_def cq_words_def zero_params_def)

lemma sample_setup_ring: "setup_ring_spec (sample_uring r cn) (uv_view suview)"
  unfolding setup_ring_spec_def
proof (intro allI impI)
  fix k p sh ret er p' sh'
  assume "e_uring_setup (sample_uring r cn) k p sh = ((ret, er, p'), sh')"
  then obtain w where w: "lift s_open (sh_world sh) = (ret, w)" "p' = sample_params" "sh' = sh\<lparr>sh_world := w\<rparr>"
    by (auto simp: sample_uring_def split: prod.splits)
  have o: "opened (uv_view suview) (sh_world sh) ret w" by (rule lift_open [OF w(1)])
  then have "\<not> ret < 0" by (simp add: opened_def)
  then show "rm_maps (sh_mem sh') = rm_maps (sh_mem sh)
     \<and> (if ret < 0 then 0 < er else params_ok p' \<and> opened (uv_view suview) (sh_world sh) ret (sh_world sh'))"
    using o w sample_params_ok by simp
qed

lemma sample_mmap: "mmap_spec (sample_uring r cn) (uv_view suview)"
  by (auto simp: mmap_spec_def sample_uring_def s_mmap_def Let_def map_number_def split: if_splits mmap_offset.splits)

definition sample_regions :: "uworld ushared \<Rightarrow> nat \<Rightarrow> mmap_offset option" where
  "sample_regions sh a = (if rm_maps (sh_mem sh) a = None then None
     else if a = 1 then Some IORING_OFF_SQ_RING else if a = 2 then Some IORING_OFF_CQ_RING else Some IORING_OFF_SQES)"

lemma sample_region_spec: "region_spec (sample_uring r cn) sample_regions"
  by (auto simp: region_spec_def sample_uring_def s_mmap_def Let_def map_number_def sample_regions_def fun_eq_iff
      split: if_splits mmap_offset.splits)

lemma sample_munmap: "munmap_spec (sample_uring r cn) (uv_view suview)"
  by (auto simp: munmap_spec_def sample_uring_def s_munmap_def Let_def)

lemma sample_uring_close:
  "close_spec (sample_uring r cn) (uv_view suview)" "close_reliable (sample_uring r cn) (uv_view suview)"
  by (auto simp: close_spec_def close_reliable_def sample_uring_def lift_def s_close_def)

text \<open>A ring just created, with nothing in it.\<close>

definition fresh_mem :: ring_mem where
  "fresh_mem = \<lparr>rm_maps = [1 \<mapsto> 208, 3 \<mapsto> 256], rm_u32 = (\<lambda>p. if p = (1, 8) then 3 else if p = (1, 28) then 7 else 0),
     rm_sqe = (\<lambda>_. zero_sqe), rm_cqe = (\<lambda>_. \<lparr>cqe_user_data = None, cqe_res = 0, cqe_flags = 0\<rparr>)\<rparr>"

lemma sample_layout: "rm_maps m = [1 \<mapsto> 208, 3 \<mapsto> 256] \<Longrightarrow> ring_layout (sample_ring k) 4 8 (rm_maps m)"
proof -
  assume m: "rm_maps m = [1 \<mapsto> 208, 3 \<mapsto> 256]"
  have "ring_layout (sample_ring k) (unat (sq_entries sample_params)) (unat (cq_entries sample_params)) (rm_maps m)"
    unfolding sample_ring_def
    by (rule layout_over_maps [OF sample_params_ok mapped_placed, where la = 208 and lb = 208])
      (simp_all add: m sample_params_def zero_params_def)
  then show ?thesis by (simp add: sample_params_def zero_params_def)
qed

lemma sample_ring_words:
  "sq_head (sq_ring (sample_ring k)) = (1, 0)" "sq_tail (sq_ring (sample_ring k)) = (1, 4)"
  "sq_ring_mask (sq_ring (sample_ring k)) = (1, 8)" "sq_flags (sq_ring (sample_ring k)) = (1, 12)"
  "cq_head (cq_ring (sample_ring k)) = (1, 20)" "cq_tail (cq_ring (sample_ring k)) = (1, 24)"
  "cq_ring_mask (cq_ring (sample_ring k)) = (1, 28)" "iou_ring_size (sample_ring k) = k"
  "iou_ring_fd (sample_ring k) = 4" "iou_configuration (sample_ring k) = sample_params"
  by (simp_all add: sample_ring_def mapped_iou_def sample_params_def zero_params_def)

lemma sample_masks: "ring_mask_ok 3 4" "ring_mask_ok 7 8"
proof -
  have m: "(3 :: 32 word) = mask 2" "(7 :: 32 word) = mask 3" by (simp_all add: mask_eq_decr_exp)
  show "ring_mask_ok 3 4" unfolding ring_mask_ok_def m(1) by (intro exI [of _ 2]) simp
  show "ring_mask_ok 7 8" unfolding ring_mask_ok_def m(2) by (intro exI [of _ 3]) simp
qed

lemma fresh_ring_ok: "unat k \<le> 4 \<Longrightarrow> ring_ok (sample_ring k) 4 8 fresh_mem"
  using sample_layout [of fresh_mem k] sample_masks
  by (simp add: ring_ok_def sample_ring_words fresh_mem_def sq_used_def cq_used_def array_ok_def)

end
