(* ===== verification/UringClaims.thy ===== *)
theory UringClaims
  imports UringSample
begin

text \<open>
  The theorems about the rings (UringKernel, UringSetup) at concrete inputs, on the sample kernel:
  a ring whose counters are about to wrap around, and a ring created and freed.
\<close>

unbundle bit_operations_syntax

subsection \<open>A ring whose counters are about to wrap around\<close>

definition late_mem :: ring_mem where
  "late_mem = fresh_mem\<lparr>rm_u32 := (rm_u32 fresh_mem)((1, 0) := - 1, (1, 4) := - 1, (1, 20) := - 1, (1, 24) := - 1)\<rparr>"

definition accept_op :: iou_op where
  "accept_op = \<lparr>op_type = ACCEPTED_CONNECTION, op_info = InfoAccept \<lparr>acc_fd = 3, acc_addr = replicate 16 0,
     acc_addrlen = 16\<rparr>, op_mem_tracker = None\<rparr>"

definition quiet_world :: uworld where
  "quiet_world = \<lparr>us_base = (sample_world (\<lambda>_. []) [])\<lparr>sw_open := [4, 3, 2, 1, 0]\<rparr>, us_flight = [], us_taken = [], us_posted = []\<rparr>"

definition late_shared :: "uworld ushared" where
  "late_shared = \<lparr>sh_mem = late_mem, sh_ops = \<lparr>cells = [0 \<mapsto> accept_op], next_addr = 1\<rparr>, sh_world = quiet_world\<rparr>"

lemma late_ring_ok: "unat k \<le> 4 \<Longrightarrow> ring_ok (sample_ring k) 4 8 late_mem"
  using sample_layout [of late_mem k] sample_masks
  by (simp add: ring_ok_def sample_ring_words late_mem_def fresh_mem_def sq_used_def cq_used_def array_ok_def)

lemma async_sample [simp]: "e_uring_async (sample_uring r cn) sh = sh"
  by (simp add: sample_uring_def)

theorem submit_refines_queue_witness:
  "\<exists>sh'. iou_config_and_submit (sample_uring (sample_ring 4) 8) (sample_ring 4) 0 late_shared = Inr (0, sh')
     \<and> sq_list (sample_ring 4) (sh_mem sh') = [request 0 accept_op] \<and> rm_u32 (sh_mem sh') (1, 4) = 0"
proof -
  let ?r = "sample_ring 4"
  have ok: "ring_ok ?r 4 8 (sh_mem late_shared)" using late_ring_ok [of 4] by (simp add: late_shared_def)
  have c: "cells (sh_ops (e_uring_async (sample_uring ?r 8) late_shared)) 0 = Some accept_op"
    by (simp add: late_shared_def)
  have t: "tag_fits accept_op" by (simp add: tag_fits_def accept_op_def)
  have e: "sq_list ?r (sh_mem late_shared) = []" "uv_taken suview (sh_world late_shared) = []"
    by (simp_all add: sq_list_def ring_entries_def late_shared_def sample_ring_words late_mem_def quiet_world_def)
  obtain sh' where sh': "iou_config_and_submit (sample_uring ?r 8) ?r 0 late_shared = Inr (0, sh')"
      "us_taken (sh_world sh') @ sq_list ?r (sh_mem sh') = [request 0 accept_op]"
    using submit_refines_queue [OF sample_uring_spec ok c t] e by (auto simp: sample_ring_words)
  have "sh' = late_shared\<lparr>sh_mem := p_push ?r (request 0 accept_op) (sh_mem late_shared)\<rparr>"
    using sh'(1) e c t
    by (simp add: submit_eq [OF sample_uring_spec ok] Let_def prep_fits sample_ring_words del: length_sq_list)
  then have "us_taken (sh_world sh') = []" "rm_u32 (sh_mem sh') (1, 4) = 0"
    by (simp_all add: late_shared_def quiet_world_def p_push_def Let_def sample_ring_words late_mem_def)
  then show ?thesis using sh' by auto
qed

text \<open>A completion waiting in the last slot before the wrap-around.\<close>

definition done_cqe :: io_uring_cqe where
  "done_cqe = \<lparr>cqe_user_data = Some 0, cqe_res = 5, cqe_flags = 0\<rparr>"

definition posted_shared :: "uworld ushared" where
  "posted_shared = late_shared\<lparr>sh_mem := k_post (sample_ring 4) done_cqe (sh_mem late_shared)\<rparr>"

theorem get_cqe_refines_queue_witness:
  "\<exists>sh'. iou_get_cqe (sample_uring (sample_ring 4) 8) (sample_ring 4) posted_shared = Inr (Some done_cqe, sh')"
proof -
  let ?r = "sample_ring 4"
  have ok: "ring_ok ?r 4 8 late_mem" using late_ring_ok [of 4] by simp
  have e: "cq_list ?r late_mem = []"
    by (simp add: cq_list_def ring_entries_def sample_ring_words late_mem_def)
  then have l: "length (cq_list ?r late_mem) < 8" by (metis list.size(3) zero_less_numeral)
  have p: "ring_ok ?r 4 8 (sh_mem posted_shared)" "cq_list ?r (sh_mem posted_shared) = [done_cqe]"
    using k_post_ok [OF ok l, of done_cqe] e by (simp_all add: posted_shared_def late_shared_def)
  show ?thesis
    using get_cqe_refines_queue [OF sample_uring_spec p(1)] p(2)
    by (auto split: option.splits)
qed

subsection \<open>Creating and freeing a ring\<close>

definition empty_shared :: "uworld ushared" where
  "empty_shared = late_shared\<lparr>sh_mem := fresh_mem\<lparr>rm_maps := Map.empty\<rparr>,
     sh_world := quiet_world\<lparr>us_base := (us_base quiet_world)\<lparr>sw_open := [3, 2, 1, 0]\<rparr>\<rparr>\<rparr>"

lemma sample_create:
  "\<exists>sh'. iou_create (sample_uring (sample_ring k) 8) k poll empty_shared = Inr (sample_ring k, sh')
     \<and> rm_maps (sh_mem sh') = [1 \<mapsto> 208, 3 \<mapsto> 256] \<and> rm_u32 (sh_mem sh') (1, 8) = 3 \<and> rm_u32 (sh_mem sh') (1, 28) = 7
     \<and> (\<forall>p. p \<noteq> (1, 8) \<longrightarrow> p \<noteq> (1, 28) \<longrightarrow> rm_u32 (sh_mem sh') p = 0) \<and> sh_ops sh' = sh_ops empty_shared
     \<and> us_flight (sh_world sh') = [] \<and> us_taken (sh_world sh') = [] \<and> set (sw_open (us_base (sh_world sh'))) = {0, 1, 2, 3, 4}"
proof -
  have f: "lift s_open (sh_world empty_shared) = (4, (sh_world empty_shared)\<lparr>us_base := snd (s_open (us_base (sh_world empty_shared)))\<rparr>)"
    by (simp add: lift_def s_open_def s_fresh_def empty_shared_def quiet_world_def)
  show ?thesis
    by (simp add: iou_create_def io_uring_setup_def sample_uring_def f iou_check_features_def sample_params_def
        zero_params_def iou_mmap_rings_def Let_def s_mmap_def map_number_def assert_nnull_def sample_ring_def mapped_iou_def)
      (auto simp: empty_shared_def late_shared_def fresh_mem_def quiet_world_def s_open_def s_fresh_def)
qed

theorem create_maps_whole_ring_witness:
  "\<exists>r sh'. iou_create (sample_uring (sample_ring 4) 8) 4 False empty_shared = Inr (r, sh')
     \<and> ring_layout r 4 8 (rm_maps (sh_mem sh')) \<and> sample_regions sh' (fst (cq_cqes (cq_ring r))) = Some IORING_OFF_SQ_RING
     \<and> iou_ring_fd r = 4"
proof -
  obtain sh' where c: "iou_create (sample_uring (sample_ring 4) 8) 4 False empty_shared = Inr (sample_ring 4, sh')"
    using sample_create [of 4 False] by blast
  note T = create_maps_whole_ring [OF sample_setup_ring [of "sample_ring 4" 8] sample_mmap sample_region_spec,
      where k = 4 and poll = False and sh = empty_shared, unfolded c]
  have p: "snd (snd (fst (e_uring_setup (sample_uring (sample_ring 4) 8) 4 (iou_config_params False) empty_shared))) = sample_params"
    by (simp add: sample_uring_def split: prod.splits)
  have n: "sq_entries sample_params = 4" "cq_entries sample_params = 8" "features sample_params AND IORING_FEAT_SINGLE_MMAP \<noteq> 0"
    by (simp_all add: sample_params_def zero_params_def)
  show ?thesis using T [unfolded p Let_def] c n by (auto simp: ring_placed_def sample_ring_words)
qed

theorem create_free_roundtrip_witness:
  "\<exists>r sh' r2 sh2. iou_create (sample_uring (sample_ring 4) 8) 4 False empty_shared = Inr (r, sh')
     \<and> iou_free (sample_uring (sample_ring 4) 8) r sh' = Inr (r2, sh2)
     \<and> rm_maps (sh_mem sh2) = Map.empty \<and> kv_open (uv_view suview) (sh_world sh2) = {0, 1, 2, 3}"
proof -
  obtain sh' where c: "iou_create (sample_uring (sample_ring 4) 8) 4 False empty_shared = Inr (sample_ring 4, sh')"
    using sample_create [of 4 False] by blast
  have "okE (\<lambda>(r', sh2). iou_ring_fd r' = - 1 \<and> sq_ptr_mapped r' = 0
       \<and> rm_maps (sh_mem sh2) = rm_maps (sh_mem empty_shared)
       \<and> kv_open (uv_view suview) (sh_world sh2) = kv_open (uv_view suview) (sh_world empty_shared))
     (iou_free (sample_uring (sample_ring 4) 8) (sample_ring 4) sh')"
    using create_free_roundtrip [OF sample_setup_ring [of "sample_ring 4" 8] sample_mmap sample_munmap
        sample_uring_close, where k = 4 and poll = False and sh = empty_shared] c by simp
  moreover have "rm_maps (sh_mem empty_shared) = Map.empty" "set (sw_open (us_base (sh_world empty_shared))) = {0, 1, 2, 3}"
    by (auto simp: empty_shared_def quiet_world_def)
  ultimately show ?thesis using c by (auto simp: okE_iff)
qed

end
