(* ===== verification/UringTraffic.thy ===== *)
theory UringTraffic
  imports UringClaims
begin

text \<open>
  Any sequence of calls of the program on the rings (submitting, entering the kernel, taking a
  completion) with any kernel activity in between: each ring is one queue over the whole history.
\<close>

subsection \<open>Sequences of calls\<close>

datatype ring_call = Submit nat | Enter "32 word" | GetCqe

text \<open>The operations whose submission was not refused and the completions taken, both in order.\<close>

primrec ring_run ::
    "('w, 'x) uring_env_scheme \<Rightarrow> iou \<Rightarrow> ring_call list \<Rightarrow> 'w ushared
     \<Rightarrow> (nat list \<times> io_uring_cqe list \<times> 'w ushared) res" where
  "ring_run env r [] sh = Inr ([], [], sh)"
| "ring_run env r (c # cs) sh = (case c of
     Submit a \<Rightarrow> bindE (iou_config_and_submit env r a sh) (\<lambda>(rc, sh).
       bindE (ring_run env r cs sh) (\<lambda>(subs, cqes, sh). Inr (if rc = 0 then a # subs else subs, cqes, sh)))
   | Enter k \<Rightarrow> bindE (iou_enter_or_wake env r k sh) (\<lambda>(_, sh). ring_run env r cs sh)
   | GetCqe \<Rightarrow> bindE (iou_get_cqe env r sh) (\<lambda>(got, sh).
       bindE (ring_run env r cs sh) (\<lambda>(subs, cqes, sh).
       Inr (subs, case got of None \<Rightarrow> cqes | Some x \<Rightarrow> x # cqes, sh))))"

subsection \<open>One call\<close>

text \<open>The kernel leaves the tags of the operation objects as they are.\<close>

definition tags_of :: "'w ushared \<Rightarrow> nat \<Rightarrow> bool option" where
  "tags_of sh a = map_option tag_fits (cells (sh_ops sh) a)"

lemma k_write_tags:
  "map_option tag_fits (cells (k_write_buf a bs ops) b) = map_option tag_fits (cells ops b)"
  "map_option tag_fits (cells (k_write_addr a bs l ops) b) = map_option tag_fits (cells ops b)"
  by (auto simp: k_write_buf_def k_write_addr_def tag_fits_def split: option.splits op_info.splits)

lemma k_effect_tags:
  assumes "k_effect v e rc (ops, w) (ops', w')"
  shows "map_option tag_fits (cells ops' b) = map_option tag_fits (cells ops b)"
  using assms by (cases "sqe_opcode e"; cases "sqe_addr e") (auto simp: k_effect_def k_write_tags split: if_splits)

lemma ksteps_tags: "ksteps u r cn sh sh' \<Longrightarrow> tags_of sh' = tags_of sh"
proof (induction rule: rtranclp_induct)
  case (step sh1 sh2)
  from step.hyps(2) have "tags_of sh2 = tags_of sh1"
    by cases (auto simp: tags_of_def fun_eq_iff dest: k_effect_tags)
  then show ?case using step.IH by simp
qed simp

text \<open>What the queues are before and after: the addresses submitted, and the completions, of which
  those in \<open>got\<close> were taken.\<close>

definition queued :: "'w uview \<Rightarrow> iou \<Rightarrow> 'w ushared \<Rightarrow> ptr list" where
  "queued u r sh = map sqe_user_data (submitted u r sh)"

definition ring_step ::
    "'w uview \<Rightarrow> iou \<Rightarrow> nat \<Rightarrow> nat \<Rightarrow> 'w ushared \<Rightarrow> nat list \<times> io_uring_cqe list \<times> 'w ushared \<Rightarrow> bool" where
  "ring_step u r n cn sh = (\<lambda>(subs, got, sh'). ring_ok r n cn (sh_mem sh') \<and> tags_of sh' = tags_of sh
     \<and> queued u r sh' = queued u r sh @ map Some subs
     \<and> (\<exists>new. uv_posted u (sh_world sh') = uv_posted u (sh_world sh) @ new
           \<and> cq_list r (sh_mem sh) @ new = got @ cq_list r (sh_mem sh')))"

lemma ring_step_refl: "ring_ok r n cn (sh_mem sh) \<Longrightarrow> ring_step u r n cn sh ([], [], sh)"
  by (simp add: ring_step_def)

lemma ring_step_trans:
  assumes "ring_step u r n cn sh (subs, got, sh1)" "ring_step u r n cn sh1 (subs', got', sh2)"
  shows "ring_step u r n cn sh (subs @ subs', got @ got', sh2)"
proof -
  obtain new new' where n: "uv_posted u (sh_world sh1) = uv_posted u (sh_world sh) @ new"
      "cq_list r (sh_mem sh) @ new = got @ cq_list r (sh_mem sh1)"
      "uv_posted u (sh_world sh2) = uv_posted u (sh_world sh1) @ new'"
      "cq_list r (sh_mem sh1) @ new' = got' @ cq_list r (sh_mem sh2)"
    using assms by (auto simp: ring_step_def)
  have "cq_list r (sh_mem sh) @ new @ new' = (got @ got') @ cq_list r (sh_mem sh2)"
    using n(2,4) by (metis append.assoc)
  then show ?thesis using assms n(1,3) by (auto simp: ring_step_def)
qed

lemma kernel_ring_step:
  assumes "ksteps u r cn sh sh'" "ring_ok r n cn (sh_mem sh)"
  shows "ring_step u r n cn sh ([], [], sh')"
proof -
  note P = ksteps_progress [OF assms, unfolded kernel_progress_def]
  have "queued u r sh' = queued u r sh" using P by (simp add: queued_def submitted_def)
  then show ?thesis using P ksteps_tags [OF assms(1)] by (auto simp: ring_step_def)
qed

lemma submit_ring_step:
  assumes S: "uring_spec env u r cn" and ok: "ring_ok r n cn (sh_mem sh)" and t: "tags_of sh a = Some True"
  shows "safeE (\<lambda>(rc, sh'). ring_step u r n cn sh (if rc = 0 then [a] else [], [], sh')) (iou_config_and_submit env r a sh)"
proof -
  define sh1 where "sh1 = e_uring_async env sh"
  have k: "ring_step u r n cn sh ([], [], sh1)"
    unfolding sh1_def by (rule kernel_ring_step [OF uring_specD(1) [OF S] ok])
  have ok1: "ring_ok r n cn (sh_mem sh1)" using k by (simp add: ring_step_def)
  have "tags_of sh1 a = Some True" using k t by (simp add: ring_step_def)
  then obtain o' where o: "cells (sh_ops sh1) a = Some o'" "tag_fits o'" by (auto simp: tags_of_def)
  show ?thesis
  proof (cases "unat (iou_ring_size r) \<le> length (sq_list r (sh_mem sh1))")
    case True
    then show ?thesis using k by (simp add: submit_eq [OF S ok] sh1_def [symmetric] Let_def del: length_sq_list)
  next
    case False
    then have lt: "length (sq_list r (sh_mem sh1)) < unat (iou_ring_size r)" by simp
    note P = p_push_ok [OF ok1 lt, of "request a o'"]
    have "ring_step u r n cn sh1 ([a], [], sh1\<lparr>sh_mem := p_push r (request a o') (sh_mem sh1)\<rparr>)"
      using P o(2) by (simp add: ring_step_def queued_def submitted_def tags_of_def fun_eq_iff del: length_sq_list)
    from ring_step_trans [OF k this] show ?thesis
      using False o by (simp add: submit_eq [OF S ok] sh1_def [symmetric] Let_def prep_fits del: length_sq_list)
  qed
qed

lemma get_ring_step:
  assumes S: "uring_spec env u r cn" and ok: "ring_ok r n cn (sh_mem sh)"
  shows "safeE (\<lambda>(got, sh'). ring_step u r n cn sh ([], case got of None \<Rightarrow> [] | Some x \<Rightarrow> [x], sh')) (iou_get_cqe env r sh)"
proof -
  define sh1 where "sh1 = e_uring_async env sh"
  have k: "ring_step u r n cn sh ([], [], sh1)"
    unfolding sh1_def by (rule kernel_ring_step [OF uring_specD(1) [OF S] ok])
  have ok1: "ring_ok r n cn (sh_mem sh1)" using k by (simp add: ring_step_def)
  show ?thesis
  proof (cases "cq_list r (sh_mem sh1)")
    case Nil
    then show ?thesis using k by (simp add: get_cqe_eq [OF S ok] sh1_def [symmetric] Let_def)
  next
    case (Cons x xs)
    then have ne: "cq_list r (sh_mem sh1) \<noteq> []" by simp
    have "ring_step u r n cn sh1 ([], [x], sh1\<lparr>sh_mem := p_pop r (sh_mem sh1)\<rparr>)"
      using p_pop_ok [OF ok1 ne] Cons by (simp add: ring_step_def queued_def submitted_def tags_of_def fun_eq_iff p_pop_def)
    from ring_step_trans [OF k this] show ?thesis
      by (simp add: get_cqe_eq [OF S ok] sh1_def [symmetric] Let_def Cons)
  qed
qed

subsection \<open>Claim\<close>

lemma ring_run_steps:
  assumes S: "uring_spec env u r cn"
  shows "ring_ok r n cn (sh_mem sh) \<Longrightarrow> (\<forall>a. Submit a \<in> set cs \<longrightarrow> tags_of sh a = Some True) \<Longrightarrow>
     safeE (ring_step u r n cn sh) (ring_run env r cs sh)"
proof (induction cs arbitrary: sh)
  case Nil
  then show ?case by (simp add: ring_step_refl)
next
  case (Cons c cs)
  have rest: "safeE (\<lambda>(subs', got', sh2). ring_step u r n cn sh (subs @ subs', got @ got', sh2)) (ring_run env r cs sh1)"
    if 1: "ring_step u r n cn sh (subs, got, sh1)" for subs got sh1
  proof -
    have "ring_ok r n cn (sh_mem sh1)" "\<forall>a. Submit a \<in> set cs \<longrightarrow> tags_of sh1 a = Some True"
      using 1 Cons.prems(2) by (simp_all add: ring_step_def)
    from Cons.IH [OF this] show ?thesis by (rule safeE_mono) (use ring_step_trans [OF 1] in auto)
  qed
  show ?case
  proof (cases c)
    case (Submit a)
    have "safeE (ring_step u r n cn sh) (bindE (ring_run env r cs sh1) (\<lambda>(subs, cqes, sh). Inr (if rc = 0 then a # subs else subs, cqes, sh)))"
      if "ring_step u r n cn sh (if rc = 0 then [a] else [], [], sh1)" for rc :: int and sh1
      unfolding safeE_bindE by (rule safeE_mono [OF rest [OF that]]) auto
    then show ?thesis
      using submit_ring_step [OF S Cons.prems(1), of a] Cons.prems(2) Submit
      by (auto simp: safeE_bindE elim!: safeE_mono)
  next
    case (Enter k)
    have "safeE (ring_step u r n cn sh) (ring_run env r cs sh1)" if "ksteps u r cn sh sh1" for sh1
      using rest [OF kernel_ring_step [OF that Cons.prems(1)]] by (rule safeE_mono) auto
    then show ?thesis
      using enter_ksteps [OF S Cons.prems(1), of k] Enter by (auto simp: safeE_bindE elim!: safeE_mono)
  next
    case GetCqe
    have "safeE (ring_step u r n cn sh) (bindE (ring_run env r cs sh1) (\<lambda>(subs, cqes, sh).
        Inr (subs, case got of None \<Rightarrow> cqes | Some x \<Rightarrow> x # cqes, sh)))"
      if "ring_step u r n cn sh ([], case got of None \<Rightarrow> [] | Some x \<Rightarrow> [x], sh1)" for got sh1
      unfolding safeE_bindE by (rule safeE_mono [OF rest [OF that]]) (auto split: option.splits)
    then show ?thesis
      using get_ring_step [OF S Cons.prems(1)] GetCqe by (auto simp: safeE_bindE elim!: safeE_mono)
  qed
qed

text \<open>C10: Whatever calls the program makes on the rings, in whatever order, and whatever the kernel does
  between and during them: no call has undefined behaviour; the operations whose submission was
  accepted are, in that order, what the kernel has taken in addition or will take; and the
  completions taken, followed by those still in the ring, are those that were there at the start
  followed by those the kernel has posted since. Nothing is lost, repeated or reordered.\<close>

theorem ring_traffic_in_order:
  assumes "uring_spec env u r cn" "ring_ok r n cn (sh_mem sh)"
    and "\<forall>a. Submit a \<in> set calls \<longrightarrow> (\<exists>o'. cells (sh_ops sh) a = Some o' \<and> tag_fits o')"
  shows "safeE (\<lambda>(subs, got, sh'). ring_ok r n cn (sh_mem sh')
     \<and> map sqe_user_data (uv_taken u (sh_world sh') @ sq_list r (sh_mem sh'))
         = map sqe_user_data (uv_taken u (sh_world sh) @ sq_list r (sh_mem sh)) @ map Some subs
     \<and> (\<exists>new. uv_posted u (sh_world sh') = uv_posted u (sh_world sh) @ new
           \<and> cq_list r (sh_mem sh) @ new = got @ cq_list r (sh_mem sh'))) (ring_run env r calls sh)"
proof -
  have "\<forall>a. Submit a \<in> set calls \<longrightarrow> tags_of sh a = Some True" using assms(3) by (fastforce simp: tags_of_def)
  from ring_run_steps [OF assms(1,2) this] show ?thesis
    by (rule safeE_mono) (auto simp: ring_step_def queued_def submitted_def)
qed

subsection \<open>A run across the wrap-around\<close>

text \<open>The accept request is submitted where both counters of its ring are about to wrap around, the
  kernel takes and completes it, and its completion is taken.\<close>

definition accepted_cqe :: io_uring_cqe where
  "accepted_cqe = \<lparr>cqe_user_data = Some 0, cqe_res = 5, cqe_flags = 0\<rparr>"

lemma four_times: "(f ^^ 4) x = f (f (f (f x)))"
  by (simp add: numeral_eq_Suc)

lemma late_traffic:
  "\<exists>sh'. ring_run (sample_uring (sample_ring 4) 8) (sample_ring 4) [Submit 0, Enter 1, GetCqe] late_shared
     = Inr ([0], [accepted_cqe], sh')"
proof -
  let ?r = "sample_ring 4" and ?e = "request 0 accept_op"
  let ?env = "sample_uring ?r 8"
  have ok: "ring_ok ?r 4 8 late_mem" using late_ring_ok [of 4] by simp
  have l0: "sq_list ?r late_mem = []" "cq_list ?r late_mem = []"
    by (simp_all add: sq_list_def cq_list_def ring_entries_def sample_ring_words late_mem_def)
  have t: "tag_fits accept_op" by (simp add: tag_fits_def accept_op_def)
  have e: "sqe_opcode ?e = IORING_OP_ACCEPT" "sqe_user_data ?e = Some 0" "sqe_fd ?e = 3"
    by (simp_all add: request_simps accept_op_def)
  have n: "length (sq_list ?r late_mem) < unat (iou_ring_size ?r)" unfolding l0 by (simp add: sample_ring_words)
  note p = p_push_ok [OF ok n, of ?e, unfolded l0, simplified]
  have ne: "sq_list ?r (p_push ?r ?e late_mem) \<noteq> []" by (simp only: p list.distinct not_False_eq_True)
  note k = k_take_ok [OF p(1) ne, unfolded p, simplified]
  let ?m2 = "k_take ?r (p_push ?r ?e late_mem)"
  have "length (cq_list ?r ?m2) < 8" unfolding k by simp
  note c = k_post_ok [OF k(1) this, of accepted_cqe, unfolded k, simplified]
  let ?m3 = "k_post ?r accepted_cqe ?m2"
  define sh1 where "sh1 = late_shared\<lparr>sh_mem := p_push ?r ?e late_mem\<rparr>"
  define w2 where "w2 = quiet_world\<lparr>us_flight := [?e], us_taken := [?e]\<rparr>"
  define sh2 where "sh2 = sh1\<lparr>sh_mem := ?m2, sh_world := w2\<rparr>"
  obtain w3 where w3: "complete_req ?e (sh_ops late_shared, w2) = (5, sh_ops late_shared, w3)" "us_flight w3 = [?e]"
    by (simp add: complete_req_def e lift_def s_accept_def s_open_def w2_def quiet_world_def sample_world_def s_fresh_def)
  define sh3 where "sh3 = sh2\<lparr>sh_mem := ?m3, sh_world := w3\<lparr>us_flight := [], us_posted := us_posted w3 @ [accepted_cqe]\<rparr>\<rparr>"
  have 1: "iou_config_and_submit ?env ?r 0 late_shared = Inr (0, sh1)"
    using n t by (simp add: submit_eq [OF sample_uring_spec, of _ 4] ok late_shared_def sh1_def Let_def prep_fits
        del: length_sq_list One_nat_def)
  have k1: "kernel_once ?r 8 sh1 = sh2"
    by (simp add: kernel_once_def sh1_def sh2_def w2_def late_shared_def quiet_world_def p)
  have cc: "can_complete ?e w2"
    by (simp add: can_complete_def e w2_def quiet_world_def sample_world_def)
  have f2: "us_flight w2 = [?e]" by (simp add: w2_def)
  have k2: "kernel_once ?r 8 sh2 = sh3"
    by (simp add: kernel_once_def sh2_def sh3_def sh1_def k f2 cc Let_def w3 [unfolded late_shared_def, simplified]
        late_shared_def e accepted_cqe_def)
  have k3: "kernel_once ?r 8 sh3 = sh3"
    by (simp add: kernel_once_def sh3_def c)
  have e4: "(kernel_once ?r 8 ^^ 4) sh1 = sh3"
    by (simp add: four_times k1 k2 k3)
  have 2: "iou_enter_or_wake ?env ?r 1 sh1 = Inr (False, sh3)"
    by (simp add: iou_enter_or_wake_def io_uring_enter_def sample_ring_words sample_params_def zero_params_def
        io_uring_assert_def sample_uring_def e4)
  have ok3: "ring_ok ?r 4 8 (sh_mem sh3)" "cq_list ?r (sh_mem sh3) = [accepted_cqe]" using c by (simp_all add: sh3_def)
  have 3: "iou_get_cqe ?env ?r sh3 = Inr (Some accepted_cqe, sh3\<lparr>sh_mem := p_pop ?r (sh_mem sh3)\<rparr>)"
    by (simp add: get_cqe_eq [OF sample_uring_spec, of _ 4] ok3)
  show ?thesis by (simp add: 1 2 3)
qed

theorem ring_traffic_in_order_witness:
  "\<exists>sh'. ring_run (sample_uring (sample_ring 4) 8) (sample_ring 4) [Submit 0, Enter 1, GetCqe] late_shared
       = Inr ([0], [accepted_cqe], sh')
     \<and> map sqe_user_data (us_taken (sh_world sh') @ sq_list (sample_ring 4) (sh_mem sh')) = [Some 0]
     \<and> us_posted (sh_world sh') = accepted_cqe # cq_list (sample_ring 4) (sh_mem sh')"
proof -
  let ?r = "sample_ring 4"
  obtain sh' where r: "ring_run (sample_uring ?r 8) ?r [Submit 0, Enter 1, GetCqe] late_shared
      = Inr ([0], [accepted_cqe], sh')"
    using late_traffic by blast
  have ok: "ring_ok ?r 4 8 (sh_mem late_shared)" using late_ring_ok [of 4] by (simp add: late_shared_def)
  have c: "\<forall>a. Submit a \<in> set [Submit 0, Enter 1, GetCqe] \<longrightarrow> (\<exists>o'. cells (sh_ops late_shared) a = Some o' \<and> tag_fits o')"
    by (simp add: late_shared_def tag_fits_def accept_op_def)
  have l: "sq_list ?r (sh_mem late_shared) = []" "cq_list ?r (sh_mem late_shared) = []"
      "us_taken (sh_world late_shared) = []" "us_posted (sh_world late_shared) = []"
    by (simp_all add: sq_list_def cq_list_def ring_entries_def sample_ring_words late_mem_def late_shared_def quiet_world_def)
  show ?thesis
    using ring_traffic_in_order [OF sample_uring_spec ok c, unfolded r safeE_simps] r l
    by (auto simp del: ring_run.simps)
qed

end
