(* ===== verification/UringResults.thy ===== *)
theory UringResults
  imports UringClaims UringService
begin

text \<open>
  The claims on the parts of the io_uring server: its rounds, the tags of its operations, the order
  in which completions are served, the receive handler, and the shutdown.
\<close>

unbundle bit_operations_syntax

subsection \<open>States with one client\<close>

definition uring_cfg :: config where
  "uring_cfg = \<lparr>DO_BENCH = False, MEASURE_LATENCY = False, DEFAULT_BUFFER_SIZE = 2\<rparr>"

lemma uring_cfg_simps [simp]: "\<not> DO_BENCH uring_cfg" "DEFAULT_BUFFER_SIZE uring_cfg = 2" "\<not> latency_on uring_cfg"
  "DEFAULT_SERVER_BUFFER_SIZE uring_cfg = 10"
  by (simp_all add: uring_cfg_def latency_on_def DEFAULT_SERVER_BUFFER_SIZE_def)

definition con5 :: client_con where
  "con5 = \<lparr>con_fd = 5, con_busy = 1, con_buf_send_len = 0, con_buf = replicate 10 0, con_bench_start_send = zero_ts\<rparr>"

definition client_op :: "io_operation_types \<Rightarrow> iou_op" where
  "client_op t = \<lparr>op_type = t, op_info = InfoCon con5, op_mem_tracker = Some 0\<rparr>"

definition idle_bench :: server_bench where
  "idle_bench = \<lparr>do_measure = 0, client_no = 0, request_no = 0, meas_start_time = zero_ts, meas_end_time = zero_ts,
     event_latency = \<lparr>mc_entry_size = 0, mc_capacity = 0, mc_size = 0, mc_ptr = None\<rparr>\<rparr>"

text \<open>The accept request and the client's operation \<open>t\<close>; what is in flight, the ring memory and the
  open descriptors.\<close>

definition one_client ::
    "io_operation_types \<Rightarrow> io_uring_sqe list \<Rightarrow> ring_mem \<Rightarrow> int list \<Rightarrow> uworld iou_state" where
  "one_client t flight m fds = \<lparr>ibench = idle_bench,
     itracker = \<lparr>mt_head = Some 0, mt_tail = Some 0,
       mt_nodes = \<lparr>cells = [0 \<mapsto> \<lparr>mt_allocated_op = Some 7, mt_next = None, mt_prev = None\<rparr>], next_addr = 5\<rparr>\<rparr>,
     irunning = 1,
     ishared = \<lparr>sh_mem = m, sh_ops = \<lparr>cells = [0 \<mapsto> accept_op, 7 \<mapsto> client_op t], next_addr = 8\<rparr>,
       sh_world = quiet_world\<lparr>us_base := (us_base quiet_world)\<lparr>sw_open := fds\<rparr>, us_flight := flight\<rparr>\<rparr>\<rparr>"

lemma one_client_clients: "clients (itracker (one_client t fl m fds)) = {7}"
  by (auto simp: clients_def node_ops_def one_client_def split: if_splits)

lemma one_client_tinv: "tinv {0} (itracker (one_client t fl m fds)) (iops (one_client t fl m fds)) [0]"
proof -
  have c: "clients \<lparr>mt_head = Some 0, mt_tail = Some 0,
       mt_nodes = \<lparr>cells = [0 \<mapsto> \<lparr>mt_allocated_op = Some 7, mt_next = None, mt_prev = None\<rparr>], next_addr = 5\<rparr>\<rparr> = {7}"
    by (auto simp: clients_def node_ops_def split: if_splits)
  show ?thesis
    by (auto simp: tinv_def one_client_def c heap_ok_def tracks_def dlist_def mn_def mp_def node_ops_def tshape_def
        is_con_def client_op_def accept_op_def split: if_splits)
qed

lemma one_client_simps [simp]:
  "sh_mem (ishared (one_client t fl m fds)) = m" "us_flight (iworld (one_client t fl m fds)) = fl"
  "us_taken (iworld (one_client t fl m fds)) = []" "sw_open (us_base (iworld (one_client t fl m fds))) = fds"
  "sw_got (us_base (iworld (one_client t fl m fds))) = (\<lambda>_. [])"
  "sw_sent (us_base (iworld (one_client t fl m fds))) = (\<lambda>_. [])"
  "cells (iops (one_client t fl m fds)) = [0 \<mapsto> accept_op, 7 \<mapsto> client_op t]" "heap_ok (iops (one_client t fl m fds))"
  by (auto simp: one_client_def quiet_world_def sample_world_def heap_ok_def)

lemma fresh_lists [simp]: "sq_list (sample_ring k) fresh_mem = []" "cq_list (sample_ring k) fresh_mem = []"
  by (simp_all add: sq_list_def cq_list_def ring_entries_def sample_ring_words fresh_mem_def)

lemma accept_fits: "tag_fits accept_op" "own_w (request 0 accept_op) = []"
  by (simp_all add: tag_fits_def accept_op_def own_w_request)

lemma client_fits: "tag_fits (client_op RECV_FROM_CLIENT)" "tag_fits (client_op CLOSE_CONNECTION)"
  "own_w (request 7 (client_op RECV_FROM_CLIENT)) = [5]"
  by (simp_all add: tag_fits_def client_op_def own_w_request con5_def)

text \<open>The client waits for a message.\<close>

definition receiving :: "uworld iou_state" where
  "receiving = one_client RECV_FROM_CLIENT [request 0 accept_op, request 7 (client_op RECV_FROM_CLIENT)] fresh_mem
     [5, 4, 3, 2, 1, 0]"

lemma receiving_inv: "iinv uring_cfg suview (sample_ring 4) 4 8 {0} {0, 1, 2, 3, 4} receiving"
proof -
  have "kinv suview (sample_ring 4) 4 8 10 {0, 7} {0, 1, 2, 3, 4} (ishared receiving)"
    unfolding kinv_def
  proof (intro conjI ballI)
    show "ring_ok (sample_ring 4) 4 8 (sh_mem (ishared receiving))" using fresh_ring_ok [of 4] by (simp add: receiving_def)
    show "heap_ok (iops receiving)" by (simp add: receiving_def)
    show "distinct (outstanding suview (sample_ring 4) (ishared receiving))"
      "set (outstanding suview (sample_ring 4) (ishared receiving)) = Some ` {0, 7}"
      by (simp_all add: outstanding_def waiting_def receiving_def accept_fits client_fits)
    show "waiting_ok suview 10 (ishared receiving) e" if "e \<in> set (waiting suview (sample_ring 4) (ishared receiving))" for e
    proof -
      have "e = request 0 accept_op \<or> e = request 7 (client_op RECV_FROM_CLIENT)"
        using that by (auto simp: waiting_def receiving_def)
      moreover have "op_waiting (uv_view suview) 10 (iworld receiving) accept_op"
        using accept_fits by (simp add: op_waiting_def accept_op_def)
      moreover have "op_waiting (uv_view suview) 10 (iworld receiving) (client_op RECV_FROM_CLIENT)"
        using client_fits by (simp add: op_waiting_def client_op_def con5_def receiving_def clock_ts_def)
      ultimately show ?thesis unfolding waiting_ok_def receiving_def by fastforce
    qed
    show "done_ok suview 10 (ishared receiving) c" if "c \<in> set (cq_list (sample_ring 4) (sh_mem (ishared receiving)))" for c
      using that by (simp add: receiving_def)
    show "distinct (owned suview (sample_ring 4) (ishared receiving))"
      "set (owned suview (sample_ring 4) (ishared receiving)) \<inter> {0, 1, 2, 3, 4} = {}"
      "kv_open (uv_view suview) (iworld receiving) = {0, 1, 2, 3, 4} \<union> set (owned suview (sample_ring 4) (ishared receiving))"
      by (auto simp: owned_def waiting_def receiving_def accept_fits client_fits)
  qed
  then have "sinv0 suview (sample_ring 4) 4 8 (DEFAULT_SERVER_BUFFER_SIZE uring_cfg) {0} ({0} \<union> clients (itracker receiving))
      {0, 1, 2, 3, 4} [0] receiving"
    using one_client_tinv one_client_clients by (simp add: sinv0_def receiving_def insert_commute)
  then show ?thesis unfolding iinv_def by (intro conjI exI [of _ "[0]"] exI [of _ "{0}"]) (auto simp: accept_out_def)
qed

subsection \<open>The server started on the sample kernel\<close>

definition fresh_state :: "uworld iou_state" where
  "fresh_state = \<lparr>ibench = idle_bench, itracker = mem_t_create empty_heap, irunning = 1,
     ishared = empty_shared\<lparr>sh_ops := empty_heap\<rparr>\<rparr>"

definition uring_bld :: iou_build where
  "uring_bld = \<lparr>IO_URING_RING_SIZE = 4, IO_URING_RUN_IN_KERNEL_POLL_MODE = False\<rparr>"

lemma sample_sigmask: "sigmask_spec (sample_uring r cn) suview"
  by (simp add: sigmask_spec_def sample_uring_def)

lemma sample_create_fresh:
  "\<exists>sh'. iou_create (sample_uring (sample_ring k) 8) k poll (ishared fresh_state) = Inr (sample_ring k, sh')
     \<and> rm_maps (sh_mem sh') = [1 \<mapsto> 208, 3 \<mapsto> 256] \<and> rm_u32 (sh_mem sh') (1, 8) = 3 \<and> rm_u32 (sh_mem sh') (1, 28) = 7
     \<and> (\<forall>p. p \<noteq> (1, 8) \<longrightarrow> p \<noteq> (1, 28) \<longrightarrow> rm_u32 (sh_mem sh') p = 0) \<and> sh_ops sh' = empty_heap
     \<and> us_flight (sh_world sh') = [] \<and> us_taken (sh_world sh') = []"
proof -
  have f: "lift s_open (sh_world empty_shared) = (4, (sh_world empty_shared)\<lparr>us_base := snd (s_open (us_base (sh_world empty_shared)))\<rparr>)"
    by (simp add: lift_def s_open_def s_fresh_def empty_shared_def quiet_world_def)
  show ?thesis
    by (simp add: fresh_state_def iou_create_def io_uring_setup_def sample_uring_def f iou_check_features_def sample_params_def
        zero_params_def iou_mmap_rings_def Let_def s_mmap_def map_number_def assert_nnull_def sample_ring_def mapped_iou_def)
      (auto simp: empty_shared_def late_shared_def fresh_mem_def quiet_world_def s_open_def s_fresh_def)
qed

lemma sample_ring_entries:
  "unat (sq_entries (iou_configuration (sample_ring k))) = 4" "unat (cq_entries (iou_configuration (sample_ring k))) = 8"
  by (simp_all add: sample_ring_words sample_params_def zero_params_def)

lemma sample_started: "unat k \<le> 4 \<Longrightarrow> ring_started (sample_uring (sample_ring k) 8) suview k poll (ishared fresh_state)"
  unfolding ring_started_def
proof (intro allI impI)
  fix r sh'
  assume k: "unat k \<le> 4" and e: "iou_create (sample_uring (sample_ring k) 8) k poll (ishared fresh_state) = Inr (r, sh')"
  obtain sh2 where sh2: "iou_create (sample_uring (sample_ring k) 8) k poll (ishared fresh_state) = Inr (sample_ring k, sh2)"
     "rm_u32 (sh_mem sh2) (1, 8) = 3" "rm_u32 (sh_mem sh2) (1, 28) = 7" "us_flight (sh_world sh2) = []"
     "\<And>p. p \<noteq> (1, 8) \<Longrightarrow> p \<noteq> (1, 28) \<Longrightarrow> rm_u32 (sh_mem sh2) p = 0" "sh_ops sh2 = empty_heap"
    using sample_create_fresh [of k poll] by blast
  have "r = sample_ring k" "sh' = sh2" using e sh2(1) by auto
  moreover have "sh_ops (ishared fresh_state) = empty_heap" by (simp add: fresh_state_def)
  ultimately show "uring_spec (sample_uring (sample_ring k) 8) suview r (unat (cq_entries (iou_configuration r)))
     \<and> ring_mask_ok (rm_u32 (sh_mem sh') (sq_ring_mask (sq_ring r))) (unat (sq_entries (iou_configuration r)))
     \<and> ring_mask_ok (rm_u32 (sh_mem sh') (cq_ring_mask (cq_ring r))) (unat (cq_entries (iou_configuration r)))
     \<and> unat k \<le> unat (sq_entries (iou_configuration r))
     \<and> rm_u32 (sh_mem sh') (sq_head (sq_ring r)) = rm_u32 (sh_mem sh') (sq_tail (sq_ring r))
     \<and> rm_u32 (sh_mem sh') (cq_head (cq_ring r)) = rm_u32 (sh_mem sh') (cq_tail (cq_ring r))
     \<and> uv_flight suview (sh_world sh') = [] \<and> sh_ops sh' = sh_ops (ishared fresh_state)"
    using k sh2 sample_masks sample_uring_spec [of "sample_ring k" 8]
    by (simp add: sample_ring_entries) (simp add: sample_ring_words)
qed

lemma sample_init_any:
  assumes "IO_URING_RING_SIZE bld = 4"
  shows "\<exists>s0. iservice_loop_init uring_cfg bld (sample_uring (sample_ring 4) 8) 3 fresh_state = Inr (sample_ring 4, [0], 1, s0)
     \<and> itracker s0 = mem_t_create empty_heap \<and> cells (iops s0) 0 = Some accept_op"
proof -
  let ?e = "sample_uring (sample_ring 4) 8" and ?r = "sample_ring 4"
  let ?p = "IO_URING_RUN_IN_KERNEL_POLL_MODE bld"
  obtain sh2 where sh2: "iou_create ?e 4 ?p (ishared fresh_state) = Inr (?r, sh2)"
     "rm_maps (sh_mem sh2) = [1 \<mapsto> 208, 3 \<mapsto> 256]" "rm_u32 (sh_mem sh2) (1, 8) = 3" "rm_u32 (sh_mem sh2) (1, 28) = 7"
     "\<And>p. p \<noteq> (1, 8) \<Longrightarrow> p \<noteq> (1, 28) \<Longrightarrow> rm_u32 (sh_mem sh2) p = 0" "sh_ops sh2 = empty_heap"
    using sample_create_fresh [of 4 ?p] by blast
  have ok: "ring_ok ?r 4 8 (sh_mem sh2)"
    using sample_layout [OF sh2(2)] sample_masks sh2
    by (simp add: ring_ok_def sample_ring_words sq_used_def cq_used_def array_ok_def)
  define s1 where "s1 = fresh_state\<lparr>ishared := sh2\<lparr>sh_ops := \<lparr>cells = [0 \<mapsto> accept_op], next_addr = 1\<rparr>\<rparr>\<rparr>"
  have sq: "sq_list ?r (sh_mem sh2) = []" using sh2(5) by (simp add: sq_list_def ring_entries_def sample_ring_words)
  have "iou_config_and_submit ?e ?r 0 (ishared s1) = Inr (0, (ishared s1)\<lparr>sh_mem := p_push ?r (request 0 accept_op) (sh_mem sh2)\<rparr>)"
    using submit_eq [OF sample_uring_spec [of ?r 8], of 4 "ishared s1" 0] ok sq accept_fits
    by (simp add: s1_def Let_def prep_fits sample_ring_words del: length_sq_list)
  then obtain s2 where s2: "submit_asserted ?e ?r 0 ''iou_config_and_submit(accept_req)'' s1 = Inr s2"
      "itracker s2 = mem_t_create empty_heap" "cells (iops s2) 0 = Some accept_op"
    by (simp add: submit_asserted_def) (simp add: s1_def fresh_state_def)
  have st: "stack_op (fresh_state\<lparr>ishared := sh2\<rparr>) = (0, set_ops (snd (halloc \<lparr>op_type = ACCEPTED_CONNECTION,
     op_info = InfoAccept \<lparr>acc_fd = 0, acc_addr = replicate 16 0, acc_addrlen = 0\<rparr>, op_mem_tracker = None\<rparr> empty_heap))
       (fresh_state\<lparr>ishared := sh2\<rparr>))"
    using sh2(6) by (simp add: stack_op_def halloc_def empty_heap_def)
  have "create_accept_sqe ?e ?r 0 3 (snd (stack_op (fresh_state\<lparr>ishared := sh2\<rparr>))) = bindE (submit_asserted ?e ?r 0 ''iou_config_and_submit(accept_req)'' s1) (\<lambda>s. Inr (1, s))"
    unfolding st
    by (simp add: create_accept_sqe_def halloc_def empty_heap_def set_ops_def info_accept_def s1_def accept_op_def)
  then have ca: "create_accept_sqe ?e ?r 0 3 (set_ops (snd (halloc \<lparr>op_type = ACCEPTED_CONNECTION,
     op_info = InfoAccept \<lparr>acc_fd = 0, acc_addr = replicate 16 0, acc_addrlen = 0\<rparr>, op_mem_tracker = None\<rparr> empty_heap))
       (fresh_state\<lparr>ishared := sh2\<rparr>)) = Inr (1, s2)"
    using s2(1) st by simp
  have masks: "create_signal_masks ?e w = Inr w" "e_sigprocmask ?e True w = (0, w)" for w
    by (simp_all add: create_signal_masks_def sample_uring_def)
  show ?thesis
    using s2(2,3) by (simp add: iservice_loop_init_def assms sh2(1) st ca masks set_world_def)
qed

lemma sample_init:
  "\<exists>s0. iservice_loop_init uring_cfg uring_bld (sample_uring (sample_ring 4) 8) 3 fresh_state = Inr (sample_ring 4, [0], 1, s0)"
  using sample_init_any [of uring_bld] by (auto simp: uring_bld_def)


subsection \<open>Claims: the rounds\<close>

text \<open>The descriptors of the requests the kernel has not completed, with all bytes read written back.\<close>

definition echoed_waiting :: "'w uview \<Rightarrow> iou \<Rightarrow> 'w ushared \<Rightarrow> bool" where
  "echoed_waiting u r sh \<longleftrightarrow> (\<forall>e \<in> set (waiting u r sh). sqe_opcode e \<in> {IORING_OP_RECV, IORING_OP_CLOSE} \<longrightarrow>
     sqe_fd e \<in> kv_open (uv_view u) (sh_world sh)
     \<and> kv_in (uv_view u) (sh_world sh) (sqe_fd e) = kv_out (uv_view u) (sh_world sh) (sqe_fd e))"

lemma kinv_echoed:
  assumes K: "kinv u r n cn d Os B sh"
  shows "echoed_waiting u r sh"
  unfolding echoed_waiting_def
proof (intro ballI impI)
  fix e assume e: "e \<in> set (waiting u r sh)" and o: "sqe_opcode e \<in> {IORING_OP_RECV, IORING_OP_CLOSE}"
  obtain a o' where a: "e = request a o'" "op_waiting (uv_view u) d (sh_world sh) o'"
    using kinvD(5) [OF K e] by (auto simp: waiting_ok_def)
  have "tag_fits o'" using a(2) by (simp add: op_waiting_def)
  then show "sqe_fd e \<in> kv_open (uv_view u) (sh_world sh)
     \<and> kv_in (uv_view u) (sh_world sh) (sqe_fd e) = kv_out (uv_view u) (sh_world sh) (sqe_fd e)"
    by (cases rule: tag_fits_cases) (use a o in \<open>auto simp: op_waiting_def request_simps\<close>)
qed

lemma ready_rounds:
  assumes U: "setup_ring_spec env (uv_view u)" "mmap_spec env (uv_view u)" "sigmask_spec env u"
    and F: "ring_started env u (IO_URING_RING_SIZE bld) (IO_URING_RUN_IN_KERNEL_POLL_MODE bld) (ishared s)"
    and d: "DEFAULT_SERVER_BUFFER_SIZE cfg < 2 ^ 32"
    and s: "iops s = empty_heap" "itracker s = mem_t_create empty_heap" "DO_BENCH cfg \<Longrightarrow> bench_inv (ibench s)"
    and init: "iservice_loop_init cfg bld env ls s = Inr (r, stack, k0, s0)"
    and reach: "iou_rounds cfg bld env r (k0, s0) (k, s1)"
  obtains n cn B where "uring_spec env u r cn" "iinv cfg u r n cn (set stack) B s1" "\<exists>base. counted u r base k s1"
    "B = insert (iou_ring_fd r) (kv_open (uv_view u) (iworld s))"
proof -
  let ?n = "unat (sq_entries (iou_configuration r))" and ?cn = "unat (cq_entries (iou_configuration r))"
  let ?B = "insert (iou_ring_fd r) (kv_open (uv_view u) (iworld s))"
  have R: "uring_spec env u r ?cn" "iinv cfg u r ?n ?cn (set stack) ?B s0" "\<exists>base. counted u r base k0 s0"
    using uring_init_safe [OF U F d s, of ls] by (auto simp: init uring_ready_def Let_def)
  have "iinv cfg u r ?n ?cn (set stack) ?B s1 \<and> (\<exists>base. counted u r base k s1)"
    using iou_rounds_inv [OF reach R(1) d, of ?n "set stack" ?B] R(2,3) by auto
  then show ?thesis using that R(1) by blast
qed

lemma allocated_objects:
  assumes "tinv S t ops xs"
  shows "{a. cells ops a \<noteq> None} = S \<union> clients t"
proof -
  have "cells ops a \<noteq> None" if "a \<in> S" for a using tinvD(5) [OF assms that] by auto
  moreover have "cells ops a \<noteq> None" if "a \<in> clients t" for a using client_node [OF assms that] by auto
  ultimately show ?thesis using tinvD(6) [OF assms] by blast
qed

text \<open>C3: In every state the server reaches by rounds from its start-up, each client, and the accept
  request, has exactly one request: waiting in the submission ring, in the kernel, or completed;
  nothing else is outstanding. The operation objects allocated are those of the loop and the tracked
  clients', the tracker's list and the objects' nodes agree (\<open>tinv\<close>), and the descriptors open are
  those open before the loop, the ring's, and one for each request, connection or accepted client,
  no two the same: nothing is shared, leaked or untracked. On every connection waiting for a message
  all bytes received have been sent back, and while the counters stay within an int the next round
  has no undefined behaviour.\<close>

theorem uring_rounds_correct:
  assumes "setup_ring_spec env (uv_view u)" "mmap_spec env (uv_view u)" "sigmask_spec env u"
    and "ring_started env u (IO_URING_RING_SIZE bld) (IO_URING_RUN_IN_KERNEL_POLL_MODE bld) (ishared s)"
    and d: "DEFAULT_SERVER_BUFFER_SIZE cfg < 2 ^ 32"
    and "iops s = empty_heap" "itracker s = mem_t_create empty_heap" "DO_BENCH cfg \<Longrightarrow> bench_inv (ibench s)"
    and init: "iservice_loop_init cfg bld env ls s = Inr (r, stack, k0, s0)"
    and reach: "iou_rounds cfg bld env r (k0, s0) (k, s1)"
  shows "distinct (outstanding u r (ishared s1)) \<and> Some ` clients (itracker s1) \<subseteq> set (outstanding u r (ishared s1))
     \<and> (\<forall>a \<in> set stack. \<forall>o' i. cells (iops s1) a = Some o' \<and> op_info o' = InfoAccept i
          \<longrightarrow> Some a \<in> set (outstanding u r (ishared s1)))
     \<and> set (outstanding u r (ishared s1)) \<subseteq> Some ` (set stack \<union> clients (itracker s1))
     \<and> {a. cells (iops s1) a \<noteq> None} = set stack \<union> clients (itracker s1)
     \<and> (\<exists>xs. tinv (set stack) (itracker s1) (iops s1) xs)
     \<and> distinct (owned u r (ishared s1))
     \<and> set (owned u r (ishared s1)) \<inter> insert (iou_ring_fd r) (kv_open (uv_view u) (iworld s)) = {}
     \<and> kv_open (uv_view u) (iworld s1)
         = insert (iou_ring_fd r) (kv_open (uv_view u) (iworld s)) \<union> set (owned u r (ishared s1))
     \<and> (\<forall>a \<in> clients (itracker s1). \<not> close_unreaped r (ishared s1) a
          \<longrightarrow> client_fd (iops s1) a \<in> set (owned u r (ishared s1)))
     \<and> echoed_waiting u r (ishared s1)
     \<and> (small_counts cfg (k, s1) \<longrightarrow> safeE (\<lambda>_. True) (iou_round cfg env r (k, signal_point bld env s1)))"
proof (rule ready_rounds [OF assms])
  fix n cn B
  assume S: "uring_spec env u r cn" and I: "iinv cfg u r n cn (set stack) B s1" and c: "\<exists>base. counted u r base k s1"
    and B: "B = insert (iou_ring_fd r) (kv_open (uv_view u) (iworld s))"
  obtain xs A where A: "sinv0 u r n cn (DEFAULT_SERVER_BUFFER_SIZE cfg) (set stack) (A \<union> clients (itracker s1)) B xs s1"
    "accept_out (set stack) A (iops s1)" "A \<subseteq> set stack" using I by (auto simp: iinv_def)
  then have K: "kinv u r n cn (DEFAULT_SERVER_BUFFER_SIZE cfg) (A \<union> clients (itracker s1)) B (ishared s1)"
    and T: "tinv (set stack) (itracker s1) (iops s1) xs" by (simp_all add: sinv0_def)
  note P = signal_point_inv [OF S I, of bld]
  obtain base where base: "counted u r base k (signal_point bld env s1)" using c P(3) by (auto simp: counted_def)
  have "safeE (\<lambda>_. True) (iou_round cfg env r (k, signal_point bld env s1))" if "small_counts cfg (k, s1)"
    using that P(2) by (intro safeE_mono [OF round_safe [OF S d P(1) base]]) (auto simp: small_counts_def)
  moreover have "\<forall>a \<in> set stack. \<forall>o' i. cells (iops s1) a = Some o' \<and> op_info o' = InfoAccept i
      \<longrightarrow> Some a \<in> set (outstanding u r (ishared s1))"
    using A(2) kinvD(4) [OF K] unfolding accept_out_def by blast
  moreover have "Some ` clients (itracker s1) \<subseteq> set (outstanding u r (ishared s1))"
    "set (outstanding u r (ishared s1)) \<subseteq> Some ` (set stack \<union> clients (itracker s1))"
    using A(3) unfolding kinvD(4) [OF K] by auto
  moreover have "\<forall>a \<in> clients (itracker s1). \<not> close_unreaped r (ishared s1) a
      \<longrightarrow> client_fd (iops s1) a \<in> set (owned u r (ishared s1))" using client_owns [OF K T] by blast
  ultimately show ?thesis
    using kinvD(3,7) [OF K] kinvD(8,9) [OF K, unfolded B] kinv_echoed [OF K] allocated_objects [OF T]
    by (intro conjI exI [of _ xs] impI T; assumption?) simp_all
qed

text \<open>The server as it has just started on the sample kernel.\<close>

theorem uring_rounds_correct_witness:
  "\<exists>s0 k s1. iou_rounds uring_cfg uring_bld (sample_uring (sample_ring 4) 8) (sample_ring 4) (1, s0) (k, s1)
     \<and> distinct (outstanding suview (sample_ring 4) (ishared s1)) \<and> echoed_waiting suview (sample_ring 4) (ishared s1)
     \<and> safeE (\<lambda>_. True) (iou_round uring_cfg (sample_uring (sample_ring 4) 8) (sample_ring 4)
           (k, signal_point uring_bld (sample_uring (sample_ring 4) 8) s1))"
proof -
  let ?e = "sample_uring (sample_ring 4) 8" and ?r = "sample_ring 4"
  obtain s0 where s0: "iservice_loop_init uring_cfg uring_bld ?e 3 fresh_state = Inr (?r, [0], 1, s0)"
    using sample_init by blast
  have st: "iou_rounds uring_cfg uring_bld ?e ?r (1, s0) (1, s0)" by (rule iou_rounds_start)
  have F: "ring_started ?e suview (IO_URING_RING_SIZE uring_bld) (IO_URING_RUN_IN_KERNEL_POLL_MODE uring_bld) (ishared fresh_state)"
    using sample_started [of 4 False] by (simp add: uring_bld_def)
  have "distinct (outstanding suview ?r (ishared s0)) \<and> echoed_waiting suview ?r (ishared s0)
     \<and> (small_counts uring_cfg (1, s0) \<longrightarrow> safeE (\<lambda>_. True) (iou_round uring_cfg ?e ?r (1, signal_point uring_bld ?e s0)))"
    using uring_rounds_correct [OF sample_setup_ring [of ?r 8] sample_mmap sample_sigmask F _ _ _ _ s0 st]
    by (simp add: fresh_state_def)
  then show ?thesis using st by (auto simp: small_counts_def)
qed

text \<open>C12: The tags are sound: in every reachable state the \<open>user_data\<close> of each waiting request and
  of each completion points to a live operation object whose tag selects the member its union
  holds, a waiting request is the one its object describes, and handlers so never read another member.\<close>

theorem uring_tags_sound:
  assumes "setup_ring_spec env (uv_view u)" "mmap_spec env (uv_view u)" "sigmask_spec env u"
    and "ring_started env u (IO_URING_RING_SIZE bld) (IO_URING_RUN_IN_KERNEL_POLL_MODE bld) (ishared s)"
    and "DEFAULT_SERVER_BUFFER_SIZE cfg < 2 ^ 32"
    and "iops s = empty_heap" "itracker s = mem_t_create empty_heap" "DO_BENCH cfg \<Longrightarrow> bench_inv (ibench s)"
    and "iservice_loop_init cfg bld env ls s = Inr (r, stack, k0, s0)"
    and "iou_rounds cfg bld env r (k0, s0) (k, s1)"
  shows "(\<forall>e \<in> set (waiting u r (ishared s1)). \<exists>a o'. sqe_user_data e = Some a \<and> cells (iops s1) a = Some o'
        \<and> tag_fits o' \<and> e = request a o')
     \<and> (\<forall>c \<in> set (cq_list r (sh_mem (ishared s1))). \<exists>a o'. cqe_user_data c = Some a \<and> cells (iops s1) a = Some o'
        \<and> tag_fits o')"
proof (rule ready_rounds [OF assms])
  fix n cn B
  assume "iinv cfg u r n cn (set stack) B s1"
  then obtain Os where K: "kinv u r n cn (DEFAULT_SERVER_BUFFER_SIZE cfg) Os B (ishared s1)" by (auto simp: iinv_def sinv0_def)
  have "\<exists>a o'. sqe_user_data e = Some a \<and> cells (iops s1) a = Some o' \<and> tag_fits o' \<and> e = request a o'"
    if "e \<in> set (waiting u r (ishared s1))" for e
    using kinvD(5) [OF K that] by (auto simp: waiting_ok_def op_waiting_def)
  moreover have "\<exists>a o'. cqe_user_data c = Some a \<and> cells (iops s1) a = Some o' \<and> tag_fits o'"
    if "c \<in> set (cq_list r (sh_mem (ishared s1)))" for c
    using kinvD(6) [OF K that] by (auto simp: done_ok_def op_done_def)
  ultimately show ?thesis by blast
qed

theorem uring_tags_sound_witness:
  "\<exists>s0. iservice_loop_init uring_cfg uring_bld (sample_uring (sample_ring 4) 8) 3 fresh_state = Inr (sample_ring 4, [0], 1, s0)
     \<and> (\<forall>e \<in> set (waiting suview (sample_ring 4) (ishared s0)). \<exists>a o'. sqe_user_data e = Some a
          \<and> cells (iops s0) a = Some o' \<and> tag_fits o' \<and> e = request a o')"
proof -
  let ?e = "sample_uring (sample_ring 4) 8" and ?r = "sample_ring 4"
  obtain s0 where s0: "iservice_loop_init uring_cfg uring_bld ?e 3 fresh_state = Inr (?r, [0], 1, s0)"
    using sample_init by blast
  have F: "ring_started ?e suview (IO_URING_RING_SIZE uring_bld) (IO_URING_RUN_IN_KERNEL_POLL_MODE uring_bld) (ishared fresh_state)"
    using sample_started [of 4 False] by (simp add: uring_bld_def)
  show ?thesis
    using uring_tags_sound [OF sample_setup_ring [of ?r 8] sample_mmap sample_sigmask F _ _ _ _ s0 iou_rounds_start] s0
    by (simp add: fresh_state_def)
qed

subsection \<open>Claims: serving completions\<close>

text \<open>C13: Every completion is served, in its turn: one that stands behind \<open>length cs\<close> others in the
  completion ring is taken and given to its handler in round \<open>length cs\<close> + 1 from there, however
  many more the kernel posts meanwhile, unless the server stops before.\<close>

theorem completion_served_in_turn:
  assumes S: "uring_spec env u r cn" and ok: "ring_ok r n cn (sh_mem (ishared s))"
    and cq: "cq_list r (sh_mem (ishared s)) = cs @ c # ds"
    and run: "rounds_n (length cs) cfg bld env r (k, s) = Inr (k1, s1)"
  shows "\<exists>sh. iou_get_cqe env r (ishared (signal_point bld env s1)) = Inr (Some c, sh)
     \<and> iou_round cfg env r (k1, signal_point bld env s1)
       = bindE (service_cqe_events cfg env r c ((signal_point bld env s1)\<lparr>ishared := sh\<rparr>)) (\<lambda>(j, s).
          bindE (c_int (k1 + j)) (\<lambda>n. Inr (n, s)))"
proof -
  have "ring_ok r n cn (sh_mem (ishared s1)) \<and> (\<exists>new. cq_list r (sh_mem (ishared s1)) = (c # ds) @ new)"
    using rounds_n_front [OF S _ _ run, of n "c # ds"] ok cq by simp
  then show ?thesis using front_served [OF S, where s = "signal_point bld env s1"] by auto
qed

text \<open>A timer completion before a message: the second round serves the message.\<close>

definition timer_cqe :: io_uring_cqe where
  "timer_cqe = \<lparr>cqe_user_data = Some 9, cqe_res = - 62, cqe_flags = 0\<rparr>"

definition recv_cqe :: io_uring_cqe where
  "recv_cqe = \<lparr>cqe_user_data = Some 7, cqe_res = 2, cqe_flags = 0\<rparr>"

definition timer_op :: iou_op where
  "timer_op = \<lparr>op_type = TIMER_EXPIRED, op_info = InfoTimer \<lparr>tv_sec = 10, tv_nsec = 0\<rparr>, op_mem_tracker = None\<rparr>"

definition two_posted :: "uworld iou_state" where
  "two_posted = one_client RECV_FROM_CLIENT [request 0 accept_op]
     (k_post (sample_ring 4) recv_cqe (k_post (sample_ring 4) timer_cqe fresh_mem)) [5, 4, 3, 2, 1, 0]"

definition two_posted_timer :: "uworld iou_state" where
  "two_posted_timer = set_ops ((iops two_posted)\<lparr>cells := (cells (iops two_posted))(9 := Some timer_op)\<rparr>) two_posted"

lemma posted_lists:
  "ring_ok (sample_ring 4) 4 8 (k_post (sample_ring 4) c fresh_mem)"
  "cq_list (sample_ring 4) (k_post (sample_ring 4) c fresh_mem) = [c]"
  "sq_list (sample_ring 4) (k_post (sample_ring 4) c fresh_mem) = []"
  "ring_ok (sample_ring 4) 4 8 (k_post (sample_ring 4) c2 (k_post (sample_ring 4) c fresh_mem))"
  "cq_list (sample_ring 4) (k_post (sample_ring 4) c2 (k_post (sample_ring 4) c fresh_mem)) = [c, c2]"
proof -
  have ok: "ring_ok (sample_ring 4) 4 8 fresh_mem" using fresh_ring_ok [of 4] by simp
  have "length (cq_list (sample_ring 4) fresh_mem) < 8" by (subst fresh_lists) simp
  note 1 = k_post_ok [OF ok this, of c]
  show one: "ring_ok (sample_ring 4) 4 8 (k_post (sample_ring 4) c fresh_mem)"
    "cq_list (sample_ring 4) (k_post (sample_ring 4) c fresh_mem) = [c]"
    "sq_list (sample_ring 4) (k_post (sample_ring 4) c fresh_mem) = []"
    using 1 by simp_all
  have "length (cq_list (sample_ring 4) (k_post (sample_ring 4) c fresh_mem)) < 8" unfolding one(2) by simp
  from k_post_ok [OF one(1) this, of c2] show "ring_ok (sample_ring 4) 4 8 (k_post (sample_ring 4) c2 (k_post (sample_ring 4) c fresh_mem))"
    "cq_list (sample_ring 4) (k_post (sample_ring 4) c2 (k_post (sample_ring 4) c fresh_mem)) = [c, c2]"
    using one(2) by simp_all
qed

theorem completion_served_in_turn_witness:
  "\<exists>k1 s1 sh. rounds_n 1 uring_cfg uring_bld (sample_uring (sample_ring 4) 8) (sample_ring 4) (0, two_posted_timer) = Inr (k1, s1)
     \<and> iou_get_cqe (sample_uring (sample_ring 4) 8) (sample_ring 4) (ishared s1) = Inr (Some recv_cqe, sh)"
proof -
  let ?e = "sample_uring (sample_ring 4) 8" and ?r = "sample_ring 4"
  have ok: "ring_ok ?r 4 8 (sh_mem (ishared two_posted_timer))"
    and cq: "cq_list ?r (sh_mem (ishared two_posted_timer)) = [timer_cqe] @ recv_cqe # []"
    by (simp_all add: two_posted_timer_def two_posted_def set_ops_def posted_lists)
  have sp: "signal_point uring_bld ?e s = s" for s by (simp add: signal_point_def uring_bld_def)
  have g: "iou_get_cqe ?e ?r (ishared two_posted_timer) = Inr (Some timer_cqe, (ishared two_posted_timer)\<lparr>sh_mem :=
      p_pop ?r (sh_mem (ishared two_posted_timer))\<rparr>)"
    using get_cqe_eq [OF sample_uring_spec [of ?r 8] ok] cq by (simp add: Let_def)
  have c9: "cells (iops two_posted_timer) 9 = Some timer_op" by (simp add: two_posted_timer_def set_ops_def)
  obtain s1 where run: "rounds_n (length [timer_cqe]) uring_cfg uring_bld ?e ?r (0, two_posted_timer) = Inr (0, s1)"
    using g c9 by (simp add: sp iou_round_def service_cqe_events_def Let_def timer_cqe_def timer_op_def
        handle_cqe_timer_def io_uring_assert_def c_int_def)
  from completion_served_in_turn [OF sample_uring_spec [of ?r 8] ok cq run] run show ?thesis by (auto simp: sp)
qed

text \<open>The client's message has arrived and its completion has been taken.\<close>

definition received :: "uworld iou_state" where
  "received = one_client RECV_FROM_CLIENT [request 0 accept_op] fresh_mem [5, 4, 3, 2, 1, 0]"

text \<open>The operation the receive handler turns \<open>o'\<close> into, after a receive of \<open>rc\<close> bytes.\<close>

definition after_recv :: "iou_op \<Rightarrow> client_con \<Rightarrow> int \<Rightarrow> iou_op" where
  "after_recv o' c rc = (if rc = 0 then o'\<lparr>op_info := InfoCon (c\<lparr>con_busy := 0\<rparr>), op_type := CLOSE_CONNECTION\<rparr>
     else o'\<lparr>op_info := InfoCon (c\<lparr>con_buf_send_len := word_of_int rc, con_busy := 1\<rparr>), op_type := SEND_TO_CLIENT\<rparr>)"

lemma op_upd_comm: "o'\<lparr>op_type := t, op_info := i\<rparr> = o'\<lparr>op_info := i, op_type := t\<rparr>"
  by simp

lemma submit_asserted_eq:
  assumes S: "uring_spec env u r cn" and ok: "ring_ok r n cn (sh_mem (ishared s))"
    and c: "cells (sh_ops (e_uring_async env (ishared s))) a = Some o'" and t: "tag_fits o'"
  shows "submit_asserted env r a msg s = (let sh = e_uring_async env (ishared s) in
     if length (sq_list r (sh_mem sh)) < unat (iou_ring_size r)
     then Inr (s\<lparr>ishared := sh\<lparr>sh_mem := p_push r (request a o') (sh_mem sh)\<rparr>\<rparr>)
     else Inl (ExitFailure msg))"
  using c t by (simp add: submit_asserted_def submit_eq [OF S ok] Let_def prep_fits not_less [symmetric] del: length_sq_list)

text \<open>Measuring latency, a whole message is stamped with a reading of the clock.\<close>

definition stamped ::
    "config \<Rightarrow> ('w, 'x) uring_env_scheme \<Rightarrow> int \<Rightarrow> client_con \<Rightarrow> 'w iou_state \<Rightarrow> client_con \<times> 'w iou_state" where
  "stamped cfg env rc c s = (if latency_on cfg \<and> rc \<noteq> 0
     then case now_monotonic (e_clock env) (iworld s) of (t, w) \<Rightarrow> (c\<lparr>con_bench_start_send := t\<rparr>, set_world w s)
     else (c, s))"

lemma con_upd_comm: "c\<lparr>con_busy := b, con_bench_start_send := t\<rparr> = c\<lparr>con_bench_start_send := t, con_busy := b\<rparr>"
  by simp

lemma put_set_world: "set_world w (put a x s) = put a x (set_world w s)"
  by (simp add: put_def set_ops_def set_world_def)

text \<open>C16: The receive handler on every branch, in every build. A failed receive, and a
  message shorter or longer than expected, exit; the end of the stream turns the object into a
  close request, and a whole message, with the time it arrived when latency is measured, into a
  send request for exactly the bytes received; the request joins the submission ring, or the server
  exits when the ring is full.\<close>

theorem recv_handler_exact:
  assumes S: "uring_spec env u r cn" and ok: "ring_ok r n cn (sh_mem (ishared s))"
    and o': "cells (iops s) a = Some o'" "op_info o' = InfoCon c"
    and rc: "rc < 2 ^ 32" and D: "0 < DEFAULT_BUFFER_SIZE cfg" and st: "stamped cfg env rc c s = (c1, s1)"
    and own: "cells (sh_ops (e_uring_async env (ishared (put a (after_recv o' c1 rc) s1)))) a = Some (after_recv o' c1 rc)"
  shows "handle_cqe_recv cfg env r a rc s =
    (if rc < 0 then Inl (ExitFailure ''CQE recv'')
     else if rc \<noteq> 0 \<and> int (DEFAULT_BUFFER_SIZE cfg) < rc then Inl (ExitFailure ''recv: got more than expected'')
     else if rc \<noteq> 0 \<and> rc < int (DEFAULT_BUFFER_SIZE cfg) then Inl (ExitFailure ''recv: got less than expected'')
     else let sh = e_uring_async env (ishared (put a (after_recv o' c1 rc) s1)) in
       if length (sq_list r (sh_mem sh)) < unat (iou_ring_size r)
       then Inr (1, s1\<lparr>ishared := sh\<lparr>sh_mem := p_push r (request a (after_recv o' c1 rc)) (sh_mem sh)\<rparr>\<rparr>)
       else Inl (ExitFailure (if rc = 0 then ''iou_config_and_submit(close_req)'' else ''iou_config_and_submit(send_req)'')))"
proof (cases "rc < 0")
  case True
  then show ?thesis using con_upd_eq [OF o'] by (simp add: handle_cqe_recv_def io_uring_assert_nonn_def assertion_defs)
next
  case False
  let ?o0 = "o'\<lparr>op_info := InfoCon (c\<lparr>con_busy := 0\<rparr>)\<rparr>" and ?o1 = "o'\<lparr>op_info := InfoCon (c1\<lparr>con_busy := 0\<rparr>)\<rparr>"
  have u: "unat (word_of_int rc :: 32 word) = nat rc" using False rc by (simp add: unsigned_of_int take_bit_int_eq_self)
  have z: "(word_of_int rc :: 32 word) = 0 \<longleftrightarrow> rc = 0" using False u by (auto simp: unat_eq_0 [symmetric])
  have e0: "con_upd a (\<lambda>c. c\<lparr>con_busy := 0\<rparr>) s = Inr (put a ?o0 s)" using con_upd_eq [OF o'] by simp
  have t: "tag_fits (after_recv o' c1 rc)" by (simp add: after_recv_def tag_fits_def)
  have okp: "ring_ok r n cn (sh_mem (ishared (put a x s1)))" for x
    using ok st by (auto simp: stamped_def set_world_def split: if_splits prod.splits)
  note E = submit_asserted_eq [OF S okp own t]
  have sh: "(put a x s1)\<lparr>ishared := y\<rparr> = s1\<lparr>ishared := y\<rparr>" for x y by (simp add: put_def set_ops_def)
  show ?thesis
  proof (cases "rc = 0")
    case True
    then have s1: "c1 = c" "s1 = s" using st by (simp_all add: stamped_def)
    have "type_upd a CLOSE_CONNECTION (put a ?o0 s) = Inr (put a (after_recv o' c rc) s)"
      using type_upd_eq [of "put a ?o0 s" a ?o0 CLOSE_CONNECTION] True by (simp add: after_recv_def)
    then show ?thesis using True e0 unfolding s1
      by (simp add: handle_cqe_recv_def prep_close_client_req_def E [unfolded True s1] Let_def sh [unfolded s1] del: length_sq_list)
  next
    case nz: False
    have cu: "con_upd a f (put a ?o0 s2) = Inr (put a (?o0\<lparr>op_info := InfoCon (f (c\<lparr>con_busy := 0\<rparr>))\<rparr>) s2)"
      for f and s2 :: "'a iou_state"
      using con_upd_eq [of "put a ?o0 s2" a ?o0 "c\<lparr>con_busy := 0\<rparr>" f] by simp
    have stamp: "(if latency_on cfg
        then (case now_monotonic (e_clock env) (iworld (put a ?o0 s)) of (t, w) \<Rightarrow>
          con_upd a (\<lambda>c. c\<lparr>con_bench_start_send := t\<rparr>) (set_world w (put a ?o0 s)))
        else Inr (put a ?o0 s)) = Inr (put a ?o1 s1)"
      using st nz by (auto simp: stamped_def put_set_world cu con_upd_comm split: prod.splits if_splits)
    have "type_upd a SEND_TO_CLIENT (put a ?o1 s1) = Inr (put a (?o1\<lparr>op_type := SEND_TO_CLIENT\<rparr>) s1)"
      using type_upd_eq [of "put a ?o1 s1" a ?o1 SEND_TO_CLIENT] by simp
    moreover have "con_upd a (\<lambda>c. c\<lparr>con_buf_send_len := word_of_int rc, con_busy := 1\<rparr>) (put a (?o1\<lparr>op_type := SEND_TO_CLIENT\<rparr>) s1)
        = Inr (put a (after_recv o' c1 rc) s1)"
      using con_upd_eq [of "put a (?o1\<lparr>op_type := SEND_TO_CLIENT\<rparr>) s1" a "?o1\<lparr>op_type := SEND_TO_CLIENT\<rparr>" "c1\<lparr>con_busy := 0\<rparr>"] nz
      by (simp add: after_recv_def op_upd_comm)
    ultimately show ?thesis
      using nz False e0 u z by (simp add: handle_cqe_recv_def stamp E Let_def sh nat_less_iff del: length_sq_list) auto
  qed
qed

definition timed_cfg :: config where
  "timed_cfg = \<lparr>DO_BENCH = True, MEASURE_LATENCY = True, DEFAULT_BUFFER_SIZE = 2\<rparr>"

theorem recv_handler_exact_witness:
  "let o2 = after_recv (client_op RECV_FROM_CLIENT) (con5\<lparr>con_bench_start_send := \<lparr>tv_sec = 7, tv_nsec = 0\<rparr>\<rparr>) 2 in
   handle_cqe_recv timed_cfg (sample_uring (sample_ring 4) 8) (sample_ring 4) 7 2 received
     = Inr (1, received\<lparr>ishared := (ishared received)\<lparr>sh_ops := sh_ops (ishared (put 7 o2 received)),
         sh_mem := p_push (sample_ring 4) (request 7 o2) fresh_mem\<rparr>\<rparr>)"
proof -
  let ?e = "sample_uring (sample_ring 4) 8" and ?c = "con5\<lparr>con_bench_start_send := \<lparr>tv_sec = 7, tv_nsec = 0\<rparr>\<rparr>"
  let ?o2 = "after_recv (client_op RECV_FROM_CLIENT) ?c 2"
  have as: "e_uring_async ?e sh = sh" for sh by (simp add: sample_uring_def)
  have st: "stamped timed_cfg ?e 2 con5 received = (?c, received)"
    by (simp add: stamped_def timed_cfg_def latency_on_def now_monotonic_def sample_uring_def lift_def s_clock_def set_world_def)
  have "ring_ok (sample_ring 4) 4 8 (sh_mem (ishared received))" using fresh_ring_ok [of 4] by (simp add: received_def)
  note E = recv_handler_exact [OF sample_uring_spec this, of 7 "client_op RECV_FROM_CLIENT" con5 2 timed_cfg ?c received]
  have m: "sh_mem (ishared received) = fresh_mem" by (simp add: received_def)
  have eq: "ishared (put 7 x received) = (ishared received)\<lparr>sh_ops := sh_ops (ishared (put 7 x received))\<rparr>" for x
    by (simp add: put_def set_ops_def)
  have c: "cells (sh_ops (ishared (put 7 x received))) 7 = Some x" for x by (simp add: put_def set_ops_def)
  have h: "cells (iops received) 7 = Some (client_op RECV_FROM_CLIENT)" "op_info (client_op RECV_FROM_CLIENT) = InfoCon con5"
    by (simp_all add: received_def client_op_def)
  have "handle_cqe_recv timed_cfg ?e (sample_ring 4) 7 2 received
     = Inr (1, received\<lparr>ishared := (ishared (put 7 ?o2 received))\<lparr>sh_mem := p_push (sample_ring 4) (request 7 ?o2) fresh_mem\<rparr>\<rparr>)"
    by (subst E) (use h st in \<open>simp_all add: as c m sample_ring_words Let_def timed_cfg_def del: length_sq_list\<close>)
  then show ?thesis unfolding Let_def by (subst (asm) eq) simp
qed

subsection \<open>Claims: the shutdown\<close>

text \<open>C14: The shutdown of the io_uring server comes to its end and gives everything back: the rings are
  unmapped and closed, every client's connection is closed, every operation object and every
  tracker node is freed and nothing else is, provided that no completed close is still waiting
  in the completion ring.\<close>

theorem uring_shutdown_releases:
  assumes "munmap_spec env (uv_view u)" "close_spec env (uv_view u)" "close_reliable env (uv_view u)"
    and "iinv cfg u r n cn S B s" "iou_ring_fd r \<in> B" "maps_recorded r before (rm_maps (sh_mem (ishared s)))"
    and "card (clients (itracker s)) \<le> k" "\<forall>a \<in> clients (itracker s). \<not> close_unreaped r (ishared s) a"
  shows "\<exists>s'. ido_service_loop_cleanup k env r s = Some (Inr s') \<and> released u r before s s'"
  using cleanup_result [OF assms(1-7)] assms(8) by fastforce

lemma sample_recorded: "rm_maps m = [1 \<mapsto> 208, 3 \<mapsto> 256] \<Longrightarrow> maps_recorded (sample_ring 4) Map.empty (rm_maps m)"
  by (simp add: maps_recorded_def sample_ring_def mapped_iou_def sample_params_def Let_def)

theorem uring_shutdown_releases_witness:
  "\<exists>s'. ido_service_loop_cleanup 1 (sample_uring (sample_ring 4) 8) (sample_ring 4) receiving = Some (Inr s')
     \<and> released suview (sample_ring 4) Map.empty receiving s'"
proof (rule uring_shutdown_releases [OF sample_munmap sample_uring_close receiving_inv])
  have c: "clients (itracker receiving) = {7}" unfolding receiving_def by (rule one_client_clients)
  show "iou_ring_fd (sample_ring 4) \<in> {0, 1, 2, 3, 4}" by (simp add: sample_ring_def mapped_iou_def)
  show "maps_recorded (sample_ring 4) Map.empty (rm_maps (sh_mem (ishared receiving)))"
    by (rule sample_recorded) (simp add: receiving_def fresh_mem_def)
  show "card (clients (itracker receiving)) \<le> 1" unfolding c by simp
  show "\<forall>a \<in> clients (itracker receiving). \<not> close_unreaped (sample_ring 4) (ishared receiving) a"
    unfolding c by (simp add: close_unreaped_def receiving_def)
qed

lemma heap_never_exits:
  "hget p h \<noteq> Inl (ExitFailure msg)" "hfree p h \<noteq> Inl (ExitFailure msg)" "info_con o' \<noteq> Inl (ExitFailure msg)"
  by (cases p; simp split: option.splits)+ (simp add: info_con_def split: op_info.splits)

lemma close_tracked_exit: "close_tracked k env p s = Some (Inl (ExitFailure msg)) \<Longrightarrow> msg = ''close(client_socket)''"
proof (induction k arbitrary: p s)
  case (Suc k)
  then show ?case
    by (auto simp: bindE_eq_Inl heap_never_exits assert_zero_def assertion_prints_and_exit_def Let_def case_prod_unfold
        split: option.splits sum.splits if_splits)
qed (simp split: if_splits)

text \<open>The kernel has closed the client's connection on request; its completion is in the ring.\<close>

definition closed_unreaped :: "uworld iou_state" where
  "closed_unreaped = one_client CLOSE_CONNECTION [request 0 accept_op]
     (k_post (sample_ring 4) \<lparr>cqe_user_data = Some 7, cqe_res = 0, cqe_flags = 0\<rparr> fresh_mem) [4, 3, 2, 1, 0]"

text \<open>Who owns the descriptor of a client whose completed close waits: another client, or an accepted
  connection whose completion waits as well.\<close>

lemma unreaped_owner:
  assumes K: "kinv u r n cn d (A \<union> clients (itracker s)) B (ishared s)" and T: "tinv S (itracker s) (iops s) xs"
    and A: "A \<subseteq> S" and a: "a \<in> clients (itracker s)" "close_unreaped r (ishared s) a"
    and fd: "fd \<in> set (owned u r (ishared s))"
  shows "(\<exists>b \<in> clients (itracker s). b \<noteq> a \<and> client_fd (iops s) b = fd)
     \<or> (\<exists>c \<in> set (cq_list r (sh_mem (ishared s))). \<exists>b o' i. cqe_user_data c = Some b \<and> cells (iops s) b = Some o'
          \<and> op_info o' = InfoAccept i \<and> cqe_res c = fd)"
proof -
  obtain q o1 where q: "q \<in> set (cq_list r (sh_mem (ishared s)))" "cqe_user_data q = Some a" "cqe_res q = 0"
    "cells (iops s) a = Some o1" "op_type o1 = CLOSE_CONNECTION" using a(2) by (auto simp: close_unreaped_def)
  have dist: "distinct (map sqe_user_data (waiting u r (ishared s)) @ map cqe_user_data (cq_list r (sh_mem (ishared s))))"
    using kinvD(3) [OF K] by (simp add: outstanding_def)
  have mem: "b \<in> clients (itracker s)" if "cells (iops s) b = Some o'" "op_info o' = InfoCon c" for b o' c
    using tinvD(5,6) [OF T, of b] that by (auto simp: tshape_def is_con_def)
  have cf: "client_fd (iops s) b = con_fd c" if "cells (iops s) b = Some o'" "op_info o' = InfoCon c" for b o' c
    using that by (simp add: client_fd_def)
  from fd consider (w) e where "e \<in> set (waiting u r (ishared s))" "fd \<in> set (own_w e)"
    | (c) x where "x \<in> set (cq_list r (sh_mem (ishared s)))" "fd \<in> set (own_c (iops s) x)"
    unfolding owned_def by auto
  then show ?thesis
  proof cases
    case w
    obtain b o' where b: "cells (iops s) b = Some o'" "e = request b o'" "tag_fits o'"
      using kinvD(5) [OF K w(1)] by (auto simp: waiting_ok_def op_waiting_def)
    have u: "sqe_user_data e = Some b" using b by simp
    obtain c where c: "op_info o' = InfoCon c" "con_fd c = fd"
      using b(3) w(2) unfolding b(2) by (cases rule: tag_fits_cases) (auto simp: own_w_def request_simps)
    have "b \<noteq> a" using dist w(1) q(1,2) u by force
    then show ?thesis using mem [OF b(1) c(1)] cf [OF b(1) c(1)] c(2) by blast
  next
    case c
    have "\<exists>b o'. cqe_user_data x = Some b \<and> cells (iops s) b = Some o' \<and> fd \<in> set (own_d o' (cqe_res x))"
      using c(2) by (cases "cqe_user_data x"; cases "cells (iops s) (the (cqe_user_data x))") (simp_all add: own_c_def)
    then obtain b o' where b: "cqe_user_data x = Some b" "cells (iops s) b = Some o'" "fd \<in> set (own_d o' (cqe_res x))"
      by blast
    show ?thesis
    proof (cases "op_info o'")
      case (InfoCon k)
      then have k: "con_fd k = fd" "\<not> (op_type o' = CLOSE_CONNECTION \<and> cqe_res x = 0)"
        using b(3) by (auto simp: own_d_def split: if_splits)
      have "b \<noteq> a"
      proof
        assume "b = a"
        then have "x = q" using dist c(1) q(1,2) b(1) by (auto simp: distinct_map inj_on_def)
        then show False using k(2) q b(2) \<open>b = a\<close> by simp
      qed
      then show ?thesis using mem [OF b(2) InfoCon] cf [OF b(2) InfoCon] k(1) by blast
    next
      case (InfoAccept i)
      then have "cqe_res x = fd" using b(3) by (simp add: own_d_def split: if_splits)
      then show ?thesis using b(1,2) c(1) InfoAccept by blast
    qed (use b(3) in \<open>simp add: own_d_def\<close>)
  qed
qed

text \<open>C27: A shutdown while a completed close of a tracked client is still in the completion ring ends
  at the assertion on close, as that client's descriptor is closed a second time. The one exception:
  the kernel has given its number to a connection whose accept completion waits in the ring as well;
  then it is that connection which the second close hits. (\<open>B\<close>: the server's own descriptors.)\<close>

theorem unreaped_close_blocks_shutdown:
  assumes "munmap_spec env (uv_view u)" "close_spec env (uv_view u)" "close_reliable env (uv_view u)"
    and "iinv cfg u r n cn S B s" "iou_ring_fd r \<in> B" "maps_recorded r before (rm_maps (sh_mem (ishared s)))"
    and "card (clients (itracker s)) \<le> k" "a \<in> clients (itracker s)" "close_unreaped r (ishared s) a"
    and "client_fd (iops s) a \<notin> B"
  shows "ido_service_loop_cleanup k env r s = Some (Inl (ExitFailure ''close(client_socket)''))
     \<or> (\<exists>c \<in> set (cq_list r (sh_mem (ishared s))). \<exists>b o' i. cqe_user_data c = Some b \<and> cells (iops s) b = Some o'
          \<and> op_info o' = InfoAccept i \<and> cqe_res c = client_fd (iops s) a)"
    (is "_ \<or> ?reused")
proof (cases ?reused)
  case False
  obtain m where m: "ido_service_loop_cleanup k env r s = Some m"
    "safeE (\<lambda>s'. released u r before s s' \<and> client_fd (iops s) ` clients (itracker s) \<subseteq> kv_open (uv_view u) (iworld s)
       \<and> inj_on (client_fd (iops s)) (clients (itracker s))) m"
    using cleanup_result [OF assms(1-7)] by blast
  obtain xs A where A: "sinv0 u r n cn (DEFAULT_SERVER_BUFFER_SIZE cfg) S (A \<union> clients (itracker s)) B xs s" "A \<subseteq> S"
    using assms(4) by (auto simp: iinv_def)
  then have K: "kinv u r n cn (DEFAULT_SERVER_BUFFER_SIZE cfg) (A \<union> clients (itracker s)) B (ishared s)"
    and T: "tinv S (itracker s) (iops s) xs" by (simp_all add: sinv0_def)
  have "iou_ring_fd r \<in> kv_open (uv_view u) (iworld s)" using kinvD(9) [OF K] assms(5) by simp
  then obtain r' sh where f: "iou_free env r (ishared s) = Inr (r', sh)"
    using free_ok [OF assms(1-3,6)] by (auto simp: okE_iff)
  have "\<not> (client_fd (iops s) a \<in> kv_open (uv_view u) (iworld s) \<and> inj_on (client_fd (iops s)) (clients (itracker s)))"
  proof
    assume o: "client_fd (iops s) a \<in> kv_open (uv_view u) (iworld s) \<and> inj_on (client_fd (iops s)) (clients (itracker s))"
    then have "client_fd (iops s) a \<in> set (owned u r (ishared s))" using assms(10) kinvD(9) [OF K] by blast
    from unreaped_owner [OF K T A(2) assms(8,9) this] False
    obtain b where "b \<in> clients (itracker s)" "b \<noteq> a" "client_fd (iops s) b = client_fd (iops s) a" by blast
    then show False using o assms(8) inj_onD by metis
  qed
  then obtain msg where "m = Inl (ExitFailure msg)"
    using m(2) assms(8) by (auto simp: safeE_def split: sum.splits stop.splits)
  with m(1) have e: "ido_service_loop_cleanup k env r s = Some (Inl (ExitFailure msg))" by simp
  then obtain y where "close_tracked k env (mt_head (itracker s)) (s\<lparr>ishared := sh\<rparr>) = Some y"
    "bindE y (\<lambda>s. Inr (s\<lparr>itracker := (itracker s)\<lparr>mt_head := None, mt_tail := None\<rparr>\<rparr>)) = Inl (ExitFailure msg)"
    by (auto simp: ido_service_loop_cleanup_def f)
  then have "msg = ''close(client_socket)''" using close_tracked_exit by (cases y) auto
  then show ?thesis using e by simp
qed blast

lemma client_close_fits: "own_c ops \<lparr>cqe_user_data = Some 7, cqe_res = 0, cqe_flags = 0\<rparr> = []"
  if "cells ops 7 = Some (client_op CLOSE_CONNECTION)"
  using that by (simp add: own_c_def own_d_def client_op_def)

lemma closed_unreaped_inv: "iinv uring_cfg suview (sample_ring 4) 4 8 {0} {0, 1, 2, 3, 4} closed_unreaped"
proof -
  let ?c = "\<lparr>cqe_user_data = Some 7, cqe_res = 0, cqe_flags = 0\<rparr>"
  have ops: "cells (iops closed_unreaped) 7 = Some (client_op CLOSE_CONNECTION)" by (simp add: closed_unreaped_def)
  have "kinv suview (sample_ring 4) 4 8 10 {0, 7} {0, 1, 2, 3, 4} (ishared closed_unreaped)"
    unfolding kinv_def
  proof (intro conjI ballI)
    show "ring_ok (sample_ring 4) 4 8 (sh_mem (ishared closed_unreaped))" by (simp add: closed_unreaped_def posted_lists)
    show "heap_ok (iops closed_unreaped)" by (simp add: closed_unreaped_def)
    show "distinct (outstanding suview (sample_ring 4) (ishared closed_unreaped))"
      "set (outstanding suview (sample_ring 4) (ishared closed_unreaped)) = Some ` {0, 7}"
      by (simp_all add: outstanding_def waiting_def closed_unreaped_def posted_lists accept_fits)
    show "waiting_ok suview 10 (ishared closed_unreaped) e"
      if "e \<in> set (waiting suview (sample_ring 4) (ishared closed_unreaped))" for e
    proof -
      have "e = request 0 accept_op" using that by (auto simp: waiting_def closed_unreaped_def posted_lists)
      moreover have "op_waiting (uv_view suview) 10 (iworld closed_unreaped) accept_op"
        using accept_fits by (simp add: op_waiting_def accept_op_def)
      ultimately show ?thesis unfolding waiting_ok_def closed_unreaped_def by fastforce
    qed
    show "done_ok suview 10 (ishared closed_unreaped) c"
      if "c \<in> set (cq_list (sample_ring 4) (sh_mem (ishared closed_unreaped)))" for c
    proof -
      have "c = ?c" using that by (simp add: closed_unreaped_def posted_lists)
      moreover have "op_done (uv_view suview) 10 (iworld closed_unreaped) (client_op CLOSE_CONNECTION) 0"
        using client_fits(2) by (simp add: op_done_def client_op_def con5_def clock_ts_def)
      ultimately show ?thesis using ops by (simp add: done_ok_def)
    qed
    show "distinct (owned suview (sample_ring 4) (ishared closed_unreaped))"
      "set (owned suview (sample_ring 4) (ishared closed_unreaped)) \<inter> {0, 1, 2, 3, 4} = {}"
      "kv_open (uv_view suview) (iworld closed_unreaped) = {0, 1, 2, 3, 4} \<union> set (owned suview (sample_ring 4) (ishared closed_unreaped))"
      using client_close_fits [OF ops]
      by (auto simp: owned_def waiting_def closed_unreaped_def posted_lists accept_fits)
  qed
  then have "sinv0 suview (sample_ring 4) 4 8 (DEFAULT_SERVER_BUFFER_SIZE uring_cfg) {0} ({0} \<union> clients (itracker closed_unreaped))
      {0, 1, 2, 3, 4} [0] closed_unreaped"
    using one_client_tinv one_client_clients by (simp add: sinv0_def closed_unreaped_def insert_commute)
  then show ?thesis unfolding iinv_def by (intro conjI exI [of _ "[0]"] exI [of _ "{0}"]) (auto simp: accept_out_def)
qed

theorem unreaped_close_blocks_shutdown_witness:
  "close_unreaped (sample_ring 4) (ishared closed_unreaped) 7
     \<and> ido_service_loop_cleanup 1 (sample_uring (sample_ring 4) 8) (sample_ring 4) closed_unreaped
       = Some (Inl (ExitFailure ''close(client_socket)''))"
proof
  have c: "clients (itracker closed_unreaped) = {7}" unfolding closed_unreaped_def by (rule one_client_clients)
  have ops: "cells (iops closed_unreaped) 7 = Some (client_op CLOSE_CONNECTION)" by (simp add: closed_unreaped_def)
  then show u: "close_unreaped (sample_ring 4) (ishared closed_unreaped) 7"
    by (simp add: close_unreaped_def closed_unreaped_def posted_lists client_op_def)
  have fd: "client_fd (iops closed_unreaped) 7 \<notin> {0, 1, 2, 3, 4}" using ops by (simp add: client_fd_def client_op_def con5_def)
  have r: "iou_ring_fd (sample_ring 4) \<in> {0, 1, 2, 3, 4}" by (simp add: sample_ring_def mapped_iou_def)
  have m: "maps_recorded (sample_ring 4) Map.empty (rm_maps (sh_mem (ishared closed_unreaped)))"
    by (rule sample_recorded) (simp add: closed_unreaped_def fresh_mem_def k_post_def)
  have k: "card (clients (itracker closed_unreaped)) \<le> 1" "7 \<in> clients (itracker closed_unreaped)" unfolding c by simp_all
  have only: "cqe_user_data x = Some 7" if "x \<in> set (cq_list (sample_ring 4) (sh_mem (ishared closed_unreaped)))" for x
    using that by (auto simp: closed_unreaped_def posted_lists)
  show "ido_service_loop_cleanup 1 (sample_uring (sample_ring 4) 8) (sample_ring 4) closed_unreaped
       = Some (Inl (ExitFailure ''close(client_socket)''))"
    using unreaped_close_blocks_shutdown [OF sample_munmap sample_uring_close closed_unreaped_inv r m k u fd] only ops
    by (auto simp: client_op_def)
qed

end
