(* ===== verification/UringMain.thy ===== *)
theory UringMain
  imports UringResults
begin

text \<open>
  The io_uring server as a whole: a run of \<open>main\<close> from a fresh process through \<open>service_loop\<close> to the
  end, with everything it allocated and mapped given back.
\<close>

subsection \<open>Start-up and exit\<close>

definition fresh_server :: "config \<Rightarrow> 'w kview \<Rightarrow> ring_mem \<Rightarrow> 'w \<Rightarrow> int \<times> 'w iou_state \<Rightarrow> bool" where
  "fresh_server cfg v m w = (\<lambda>(ls, s). opened v w ls (iworld s) \<and> iops s = empty_heap
     \<and> itracker s = mem_t_create empty_heap \<and> sh_mem (ishared s) = m
     \<and> (DO_BENCH cfg \<longrightarrow> bench_inv (ibench s) \<and> client_no (ibench s) = 0))"

lemma iou_setup_safe:
  assumes K: "setup_spec env v" and M: "malloc_spec malloc"
  shows "safeE (fresh_server cfg v m w) (iou_server_setup cfg env malloc port m w)"
proof -
  let ?B = "\<lambda>b. DO_BENCH cfg \<longrightarrow> bench_inv b \<and> client_no b = 0"
  have bench: "safeE ?B (if DO_BENCH cfg then sb_create malloc 10000000
            else Inr \<lparr>do_measure = 0, client_no = 0, request_no = 0, meas_start_time = zero_ts,
              meas_end_time = zero_ts, event_latency = \<lparr>mc_entry_size = 0, mc_capacity = 0,
              mc_size = 0, mc_ptr = None\<rparr>\<rparr>)"
    by (rule bench_setup_safe [OF M])
  have sock: "safeE (fresh_server cfg v m w) (bindE (create_ipv4_listening_socket env port w1) (\<lambda>(ls, w).
     Inr (ls, \<lparr>ibench = b, itracker = mem_t_create empty_heap, irunning = 1,
       ishared = \<lparr>sh_mem = m, sh_ops = empty_heap, sh_world = w\<rparr>\<rparr>)))"
    if "?B b" "same_view v w w1" for b w1
    unfolding safeE_bindE
    by (rule safeE_mono [OF listening_socket_safe [OF K]])
      (use that same_then_opened in \<open>auto simp: fresh_server_def\<close>)
  have rest: "safeE (fresh_server cfg v m w) (bindE (register_signal_handler env w) (\<lambda>w.
     bindE (create_ipv4_listening_socket env port w) (\<lambda>(ls, w).
     Inr (ls, \<lparr>ibench = b, itracker = mem_t_create empty_heap, irunning = 1,
       ishared = \<lparr>sh_mem = m, sh_ops = empty_heap, sh_world = w\<rparr>\<rparr>))))"
    if "?B b" for b
    unfolding safeE_bindE [of _ "register_signal_handler env w"]
    by (rule safeE_mono [OF signal_handler_safe [OF K]]) (use that sock in simp)
  show ?thesis
    unfolding iou_server_setup_def safeE_bindE [of _ "if DO_BENCH cfg then _ else _"]
    by (rule safeE_mono [OF bench]) (rule rest)
qed

text \<open>Nothing the process allocated or mapped is left when \<open>main\<close> returns.\<close>

definition uring_ended :: "config \<Rightarrow> ring_mem \<Rightarrow> 'w iou_state \<Rightarrow> bool" where
  "uring_ended cfg m s' \<longleftrightarrow> cells (iops s') = Map.empty \<and> cells (mt_nodes (itracker s')) = Map.empty
     \<and> mt_head (itracker s') = None \<and> rm_maps (sh_mem (ishared s')) = rm_maps m
     \<and> (DO_BENCH cfg \<longrightarrow> mc_ptr (event_latency (ibench s')) = None)"

lemma iou_exit_safe:
  assumes "all_released s s1" "sh_mem (ishared s) = m"
  shows "safeE (uring_ended cfg m) (ido_exit_cleanup cfg env ls s1)"
  using assms
  by (cases "e_close env ls (iworld s1)")
    (auto simp: ido_exit_cleanup_def all_released_def uring_ended_def Let_def set_world_def sb_free_def meas_pcontainer_free_def)

subsection \<open>Claim\<close>

text \<open>C6: Whatever the kernel does within its contract, a run of the whole io_uring server has no
  undefined behaviour while the counters fit an int: for every bound on the number of rounds it is
  still going, exits at an assertion, or has returned from \<open>main\<close>, and then every operation object,
  tracker node, mapping and the benchmark's log have been given back.\<close>

theorem uring_main_safe:
  assumes U: "setup_ring_spec env (uv_view u)" "mmap_spec env (uv_view u)" "sigmask_spec env u"
    and C: "munmap_spec env (uv_view u)" "close_spec env (uv_view u)" "close_reliable env (uv_view u)"
    and K: "setup_spec env (uv_view u)" "malloc_spec malloc"
    and F: "\<And>ls s. iou_server_setup cfg env malloc port m w = Inr (ls, s)
      \<Longrightarrow> ring_started env u (IO_URING_RING_SIZE bld) (IO_URING_RUN_IN_KERNEL_POLL_MODE bld) (ishared s)"
    and d: "DEFAULT_SERVER_BUFFER_SIZE cfg < 2 ^ 32" and n: "2 * n + 4 < 2 ^ 31"
  shows "case iou_main n cfg bld env malloc fopen port m w of None \<Rightarrow> True
     | Some x \<Rightarrow> safeE (\<lambda>(out, s'). uring_ended cfg m s') x"
proof -
  note S = iou_setup_safe [OF K, of cfg m w port]
  show ?thesis
  proof (cases "iou_server_setup cfg env malloc port m w")
    case (Inl e)
    then show ?thesis using S by (cases e) (simp_all add: iou_main_def)
  next
    case (Inr x)
    obtain ls s where x: "x = (ls, s)" by force
    have s: "iops s = empty_heap" "itracker s = mem_t_create empty_heap" "DO_BENCH cfg \<Longrightarrow> bench_inv (ibench s)"
        "DO_BENCH cfg \<Longrightarrow> client_no (ibench s) + int n + 1 < 2 ^ 31" "sh_mem (ishared s) = m"
      using S n by (auto simp: Inr x fresh_server_def)
    have L: "case iservice_loop n cfg bld env fopen ls s of None \<Rightarrow> True | Some x \<Rightarrow> safeE (\<lambda>(out, s'). all_released s s') x"
      by (rule iservice_loop_safe [OF U C F d s(1-3) n s(4)]) (use Inr x in auto)
    show ?thesis
    proof (cases "iservice_loop n cfg bld env fopen ls s")
      case (Some r)
      have "safeE (\<lambda>(out, s'). uring_ended cfg m s') (bindE r (\<lambda>(file, s).
          bindE (ido_exit_cleanup cfg env ls s) (\<lambda>s. Inr (file, s))))"
        unfolding safeE_bindE [of _ r]
      proof (rule safeE_mono)
        show "safeE (\<lambda>(out, s'). all_released s s') r" using L Some by simp
      next
        fix y assume "case y of (out, s') \<Rightarrow> all_released s s'"
        then show "safeE (\<lambda>(out, s'). uring_ended cfg m s') (case y of (file, s) \<Rightarrow>
            bindE (ido_exit_cleanup cfg env ls s) (\<lambda>s. Inr (file, s)))"
          using iou_exit_safe [OF _ s(5)] by (auto simp: safeE_bindE elim: safeE_mono)
      qed
      then show ?thesis by (simp add: iou_main_def Inr x Some)
    qed (simp add: iou_main_def Inr x)
  qed
qed

subsection \<open>A run on the sample kernel\<close>

definition polled_bld :: iou_build where
  "polled_bld = \<lparr>IO_URING_RING_SIZE = 4, IO_URING_RUN_IN_KERNEL_POLL_MODE = True\<rparr>"

text \<open>In the kernel-polled build the signal stops the sample server before its first round.\<close>

lemma polled_run:
  "\<exists>s'. iservice_loop 1 uring_cfg polled_bld (sample_uring (sample_ring 4) 8) (Some ()) 3 fresh_state = Some (Inr (None, s'))
     \<and> 3 \<in> kv_open (uv_view suview) (iworld s')"
proof -
  let ?e = "sample_uring (sample_ring 4) 8" and ?r = "sample_ring 4"
  obtain s0 where s0: "iservice_loop_init uring_cfg polled_bld ?e 3 fresh_state = Inr (?r, [0], 1, s0)"
      "itracker s0 = mem_t_create empty_heap" "cells (iops s0) 0 = Some accept_op"
    using sample_init_any [of polled_bld] by (auto simp: polled_bld_def)
  have "safeE (uring_ready uring_cfg ?e suview fresh_state) (iservice_loop_init uring_cfg polled_bld ?e 3 fresh_state)"
    by (rule uring_init_safe [OF sample_setup_ring sample_mmap sample_sigmask])
      (use sample_started [of 4 True] in \<open>simp_all add: polled_bld_def fresh_state_def\<close>)
  moreover have op: "3 \<in> kv_open (uv_view suview) (iworld fresh_state)"
    by (simp add: fresh_state_def empty_shared_def quiet_world_def suview_def)
  ultimately obtain n cn B where R: "uring_spec ?e suview ?r cn" "iinv uring_cfg suview ?r n cn {0} B s0" "iou_ring_fd ?r \<in> B" "3 \<in> B"
      "maps_recorded ?r (rm_maps (sh_mem (ishared fresh_state))) (rm_maps (sh_mem (ishared s0)))"
    using op by (auto simp: s0(1) uring_ready_def Let_def)
  define s1 where "s1 = signal_point polled_bld ?e s0"
  have s1: "iinv uring_cfg suview ?r n cn {0} B s1" "itracker s1 = mem_t_create empty_heap"
    unfolding s1_def using signal_point_inv [OF R(1,2), of polled_bld] s0(2) by simp_all
  have st: "irunning s1 = 0" "rm_maps (sh_mem (ishared s1)) = rm_maps (sh_mem (ishared s0))" "cells (iops s1) 0 = Some accept_op"
    using s0(3) by (simp_all add: s1_def signal_point_def polled_bld_def got_signal_def sample_uring_def set_world_def
        stop_server_signal_handler_def)
  have none: "clients (itracker s1) = {}" by (simp add: s1(2) clients_def node_ops_def mem_t_create_def empty_heap_def)
  obtain s2 where s2: "ido_service_loop_cleanup 1 ?e ?r s1 = Some (Inr s2)"
      "released suview ?r (rm_maps (sh_mem (ishared fresh_state))) s1 s2"
    using cleanup_result [where env = ?e and before = "rm_maps (sh_mem (ishared fresh_state))" and k = 1,
        OF sample_munmap sample_uring_close s1(1) R(3)] R(5)
    unfolding none st(2) by auto
  have "3 \<in> kv_open (uv_view suview) (iworld s1)"
    using s1(1) R(4) by (auto simp: iinv_def sinv0_def dest!: kinvD(9))
  then have fd: "3 \<in> kv_open (uv_view suview) (iworld s2)"
    using s2(2) none by (simp add: released_def sample_ring_words)
  have c: "cells (iops s2) 0 = Some accept_op" using s2(2) none st(3) by (simp add: released_def)
  have "iou_loop 1 uring_cfg polled_bld ?e ?r (1, s0) = Some (Inr (1, s1))"
    using iou_run.over [where bld = polled_bld and env = ?e and s = "(1, s0)"] st(1) by (simp add: s1_def)
  then show ?thesis
    using s2(1) c fd by (simp add: iservice_loop_def s0(1) with_ibench_def set_ops_def)
qed

definition no_descriptors :: uworld where
  "no_descriptors = (sh_world (ishared fresh_state))\<lparr>us_base := (us_base (sh_world (ishared fresh_state)))\<lparr>sw_open := [2, 1, 0]\<rparr>\<rparr>"

lemma polled_setup:
  "iou_server_setup uring_cfg (sample_uring (sample_ring 4) 8) (\<lambda>n. None) 8080 (sh_mem (ishared fresh_state)) no_descriptors
     = Inr (3, fresh_state)"
  by (simp add: iou_server_setup_def register_signal_handler_def create_ipv4_listening_socket_def sample_uring_def
      no_descriptors_def fresh_state_def lift_def s_open_def s_fresh_def idle_bench_def empty_shared_def
      late_shared_def quiet_world_def sample_world_def fun_upd_def fun_eq_iff)

theorem uring_main_safe_witness:
  "\<exists>s'. iou_main 1 uring_cfg polled_bld (sample_uring (sample_ring 4) 8) (\<lambda>n. None) (Some ()) 8080
       (sh_mem (ishared fresh_state)) no_descriptors = Some (Inr (None, s'))
     \<and> uring_ended uring_cfg (sh_mem (ishared fresh_state)) s'"
proof -
  let ?e = "sample_uring (sample_ring 4) 8"
  obtain s where s: "iservice_loop 1 uring_cfg polled_bld ?e (Some ()) 3 fresh_state = Some (Inr (None, s))"
      "3 \<in> kv_open (uv_view suview) (iworld s)"
    using polled_run by blast
  have "fst (e_close ?e 3 (iworld s)) = 0" using s(2) by (simp add: sample_uring_def lift_def s_close_def suview_def)
  then obtain s' where s': "iou_main 1 uring_cfg polled_bld ?e (\<lambda>n. None) (Some ()) 8080
       (sh_mem (ishared fresh_state)) no_descriptors = Some (Inr (None, s'))"
    by (cases "e_close ?e 3 (iworld s)") (auto simp: iou_main_def polled_setup s(1) ido_exit_cleanup_def simp del: One_nat_def)
  have K: "setup_spec ?e (uv_view suview)" "malloc_spec (\<lambda>n. None)"
    by (auto simp: setup_spec_def opens_fresh_def sample_uring_def lift_def s_open_def suview_def malloc_spec_def same_view_def)
  have "case iou_main 1 uring_cfg polled_bld ?e (\<lambda>n. None) (Some ()) 8080 (sh_mem (ishared fresh_state)) no_descriptors of
      None \<Rightarrow> True | Some x \<Rightarrow> safeE (\<lambda>(out, s'). uring_ended uring_cfg (sh_mem (ishared fresh_state)) s') x"
    by (rule uring_main_safe [OF sample_setup_ring sample_mmap sample_sigmask sample_munmap sample_uring_close K])
      (use sample_started [of 4 True] in \<open>auto simp: polled_setup polled_bld_def\<close>)
  then show ?thesis using s' by simp
qed

end
