(* ===== verification/Client.thy ===== *)
theory Client
  imports ServerUtils
begin

text \<open>
  code/c/client: the client, which connects to the server and exchanges messages with it, once
  or for ever; and one exchange of the client with a server that serves it by \<open>read_n_echo\<close>.
\<close>

subsection \<open>The build\<close>

text \<open>defines.h turns \<open>CLIENT_MODE\<close> into the definition of one empty macro (\<open>None\<close>: \<open>#error\<close>).\<close>

datatype client_mode = REQUEST_RESPONSE_MODE | FIREHOSE_MODE | IDLE_MODE

definition mode_macro :: "int \<Rightarrow> client_mode option" where
  "mode_macro CLIENT_MODE = (if CLIENT_MODE = 0 then Some REQUEST_RESPONSE_MODE
     else if CLIENT_MODE = 1 then Some FIREHOSE_MODE
     else if CLIENT_MODE = 3 then Some IDLE_MODE else None)"

text \<open>The branch of the \<open>#ifdef\<close> in the loop. \<open>#elif FIREHOSE_MODE\<close> has no expression when the macro
  is defined as nothing, and the compiler refuses it (\<open>None\<close>); the same holds for \<open>IDLE_MODE\<close>.\<close>

datatype loop_call = CallSendNWait

fun loop_branch :: "client_mode \<Rightarrow> loop_call option" where
  "loop_branch REQUEST_RESPONSE_MODE = Some CallSendNWait"
| "loop_branch FIREHOSE_MODE = None"
| "loop_branch IDLE_MODE = None"

lemma only_request_response_builds: "Option.bind (mode_macro m) loop_branch \<noteq> None \<longleftrightarrow> m = 0"
  by (simp add: mode_macro_def)

record client_build =
  SERVER_PORT :: "16 word"
  SERVER_ADDRESS :: string
  DEBUG :: bool
  LOG_LEVEL :: log_level_t

subsection \<open>The calls and the state\<close>

record 'w client_env = "'w env" +
  e_inet_pton :: "string \<Rightarrow> int \<times> 32 word"
  e_connect :: "int \<Rightarrow> 16 word \<Rightarrow> 32 word \<Rightarrow> 'w \<Rightarrow> int \<times> 'w"

text \<open>The global \<open>buffer\<close>, what \<open>dlog\<close> has printed (the format of each message), the world.\<close>

record 'w client =
  cbuffer :: "byte list"
  clog :: "string list"
  cworld :: 'w

definition client_log :: "client_build \<Rightarrow> log_level_t \<Rightarrow> string \<Rightarrow> 'w client \<Rightarrow> 'w client" where
  "client_log bld level format s = s\<lparr>clog := clog s @ (case dlog (DEBUG bld) (LOG_LEVEL bld) level format of
     None \<Rightarrow> [] | Some m \<Rightarrow> [m])\<rparr>"

subsection \<open>The operations\<close>

definition create_ipv4_socket :: "('w, 'x) env_scheme \<Rightarrow> 'w \<Rightarrow> (int \<times> 'w) res" where
  "create_ipv4_socket env w = (case e_socket env w of (socket_fd, w) \<Rightarrow>
     bindE (assert_nonn socket_fd ''socket'') (\<lambda>_. Inr (socket_fd, w)))"

definition connect_to_server ::
    "client_build \<Rightarrow> ('w, 'x) client_env_scheme \<Rightarrow> int \<Rightarrow> 'w \<Rightarrow> 'w res" where
  "connect_to_server bld env socket_fd w =
     (let sin_port = htons (SERVER_PORT bld)
      in case e_inet_pton env (SERVER_ADDRESS bld) of (rc, sin_addr) \<Rightarrow>
      bindE (c_int (rc - 1)) (\<lambda>code.
      bindE (assert_nonn code ''inet_pton'') (\<lambda>_.
      case e_connect env socket_fd sin_port sin_addr w of (rc, w) \<Rightarrow>
      bindE (assert_nonn rc ''connect'') (\<lambda>_. Inr w))))"

definition send_message ::
    "client_build \<Rightarrow> ('w, 'x) env_scheme \<Rightarrow> int \<Rightarrow> 'w client \<Rightarrow> 'w client res" where
  "send_message bld env socket_fd s =
     (let buffer_size = int (length (cbuffer s))
      in case e_write env socket_fd (cbuffer s) (cworld s) of (rc, w) \<Rightarrow>
      bindE (assert_nonn rc ''write'') (\<lambda>_.
      let s = s\<lparr>cworld := w\<rparr>
      in Inr (if rc < buffer_size then client_log bld LOG_CRIT ''write didn't finish in one call: %d bytes'' s
         else s)))"

definition recv_message ::
    "client_build \<Rightarrow> ('w, 'x) env_scheme \<Rightarrow> int \<Rightarrow> 'w client \<Rightarrow> 'w client res" where
  "recv_message bld env socket_fd s =
     (let buffer_size = int (length (cbuffer s))
      in case e_read env socket_fd (length (cbuffer s)) (cworld s) of ((rc, data), w) \<Rightarrow>
      bindE (mem_write (cbuffer s) 0 data) (\<lambda>buffer.
      bindE (assert_nonn rc ''read'') (\<lambda>_.
      let s = s\<lparr>cbuffer := buffer, cworld := w\<rparr>
      in Inr (if rc \<noteq> buffer_size then client_log bld LOG_CRIT ''we lost data on read: expected %d bytes, got %d bytes'' s
         else s))))"

definition send_n_wait ::
    "client_build \<Rightarrow> ('w, 'x) env_scheme \<Rightarrow> int \<Rightarrow> 'w client \<Rightarrow> 'w client res" where
  "send_n_wait bld env socket_fd s =
     bindE (send_message bld env socket_fd s) (\<lambda>s. recv_message bld env socket_fd s)"

text \<open>\<open>while (1)\<close>; \<open>None\<close> stands for a loop that does not end.\<close>

partial_function (option) client_loop ::
    "client_build \<Rightarrow> ('w, 'x) env_scheme \<Rightarrow> int \<Rightarrow> int \<Rightarrow> 'w client \<Rightarrow> 'w client res option" where
  "client_loop bld env socket_fd single_shot s =
     (case send_n_wait bld env socket_fd s of
        Inl e \<Rightarrow> Some (Inl e)
      | Inr s \<Rightarrow> if single_shot \<noteq> 0 then Some (Inr s) else client_loop bld env socket_fd single_shot s)"

definition client_main ::
    "config \<Rightarrow> client_build \<Rightarrow> ('w, 'x) client_env_scheme \<Rightarrow> int \<Rightarrow> 'w \<Rightarrow> (int \<times> 'w client) res option" where
  "client_main cfg bld env argc w =
     (case create_ipv4_socket env w of
        Inl e \<Rightarrow> Some (Inl e)
      | Inr (socket_fd, w) \<Rightarrow>
     (case connect_to_server bld env socket_fd w of
        Inl e \<Rightarrow> Some (Inl e)
      | Inr w \<Rightarrow>
        let s = client_log bld LOG_DEBUG ''Client connected to server''
              \<lparr>cbuffer = replicate (DEFAULT_BUFFER_SIZE cfg) 0, clog = [], cworld = w\<rparr>
        in map_option (\<lambda>res. bindE res (\<lambda>s.
             case e_close env socket_fd (cworld s) of (_, w) \<Rightarrow> Inr (0, s\<lparr>cworld := w\<rparr>)))
           (client_loop bld env socket_fd (argc - 1) s)))"

subsection \<open>One exchange\<close>

lemma client_log_simps [simp]:
  "cbuffer (client_log bld l m s) = cbuffer s" "cworld (client_log bld l m s) = cworld s"
  by (simp_all add: client_log_def)

text \<open>What an exchange does to the buffer and the descriptors: some first bytes of the buffer are
  sent, and what is received overwrites its front.\<close>

definition exchanged :: "'w kview \<Rightarrow> int \<Rightarrow> 'w client \<Rightarrow> 'w client \<Rightarrow> bool" where
  "exchanged v fd s s' \<longleftrightarrow> kv_open v (cworld s') = kv_open v (cworld s) \<and> (\<exists>k got.
     length got \<le> length (cbuffer s) \<and> cbuffer s' = got @ drop (length got) (cbuffer s)
     \<and> kv_out v (cworld s') = (kv_out v (cworld s))(fd := kv_out v (cworld s) fd @ take k (cbuffer s))
     \<and> kv_in v (cworld s') = (kv_in v (cworld s))(fd := kv_in v (cworld s) fd @ got))"

lemma exchanged_length: "exchanged v fd s s' \<Longrightarrow> length (cbuffer s') = length (cbuffer s)"
  by (auto simp: exchanged_def)

lemma send_n_wait_safe:
  assumes R: "read_spec env v" and W: "write_spec env v"
  shows "safeE (exchanged v fd s) (send_n_wait bld env fd s)"
proof -
  obtain rc w1 where w: "e_write env fd (cbuffer s) (cworld s) = (rc, w1)" by force
  obtain rd data w2 where r: "e_read env fd (length (cbuffer s)) w1 = ((rd, data), w2)" by (metis prod.collapse)
  note S = W [unfolded write_spec_def, rule_format, OF w] and T = R [unfolded read_spec_def, rule_format, OF r]
  have fit: "0 + length data \<le> length (cbuffer s)" using T by auto
  have "exchanged v fd s s'" if "cbuffer s' = data @ drop (length data) (cbuffer s)" "cworld s' = w2" for s'
    using that S T fit unfolding exchanged_def by (intro conjI exI [of _ "nat rc"] exI [of _ data]) auto
  then show ?thesis
    using w r fit by (auto simp: send_n_wait_def send_message_def recv_message_def Let_def)
qed

subsection \<open>The loop\<close>

lemma loop_once: "single_shot \<noteq> 0 \<Longrightarrow> client_loop bld env fd single_shot s = Some (send_n_wait bld env fd s)"
  by (subst client_loop.simps) (simp split: sum.splits)

text \<open>Without an argument the loop ends at an assertion or not at all.\<close>

lemma loop_exits:
  assumes "read_spec env v" "write_spec env v" "client_loop bld env fd 0 s = Some m"
  shows "\<exists>msg. m = Inl (ExitFailure msg)"
proof -
  have "read_spec env v \<Longrightarrow> write_spec env v \<Longrightarrow> single = 0 \<Longrightarrow> \<exists>msg. m = Inl (ExitFailure msg)"
    if "client_loop bld env fd single s = Some m" for single
    using that
  proof (induction rule: client_loop.raw_induct [rotated, consumes 1, case_names step])
    case (step loop bld env fd single s m)
    show ?case
    proof (cases "send_n_wait bld env fd s")
      case (Inl e)
      then show ?thesis using send_n_wait_safe [OF step(3,4), of fd s bld] step(2) by (cases e) (auto intro: sym)
    next
      case (Inr s')
      then show ?thesis using step(1) [of bld env fd single s' m] step(2-5) by simp
    qed
  qed
  then show ?thesis using assms by blast
qed

text \<open>A peer that answers every message of \<open>n\<close> bytes with the same bytes, as long as \<open>I\<close> holds of
  the world.\<close>

definition answering :: "('w, 'x) env_scheme \<Rightarrow> int \<Rightarrow> nat \<Rightarrow> ('w \<Rightarrow> bool) \<Rightarrow> bool" where
  "answering env fd n I \<longleftrightarrow> (\<forall>w bs. I w \<longrightarrow> length bs = n \<longrightarrow> (\<exists>w1 w2.
     e_write env fd bs w = (int n, w1) \<and> e_read env fd n w1 = ((int n, bs), w2) \<and> I w2))"

lemma answered:
  assumes "answering env fd (length (cbuffer s)) I" "I (cworld s)"
  shows "\<exists>w. send_n_wait bld env fd s = Inr (s\<lparr>cworld := w\<rparr>) \<and> I w"
proof -
  obtain w1 w2 where w: "e_write env fd (cbuffer s) (cworld s) = (int (length (cbuffer s)), w1)"
    "e_read env fd (length (cbuffer s)) w1 = ((int (length (cbuffer s)), cbuffer s), w2)" "I w2"
    using assms unfolding answering_def by blast
  then have "send_n_wait bld env fd s = Inr (s\<lparr>cworld := w2\<rparr>)"
    by (simp add: send_n_wait_def send_message_def recv_message_def)
  then show ?thesis using w(3) by blast
qed

lemma loop_endless:
  assumes "answering env fd (length (cbuffer s)) I" "I (cworld s)"
  shows "client_loop bld env fd 0 s = None"
proof -
  have "answering env fd (length (cbuffer s)) I \<Longrightarrow> I (cworld s) \<Longrightarrow> single = 0 \<Longrightarrow> False"
    if "client_loop bld env fd single s = Some m" for single m
    using that
  proof (induction rule: client_loop.raw_induct [rotated, consumes 1, case_names step])
    case (step loop bld env fd single s m)
    obtain w where w: "send_n_wait bld env fd s = Inr (s\<lparr>cworld := w\<rparr>)" "I w" using answered [OF step(3,4)] by blast
    then show ?case using step(1) [of bld env fd single "s\<lparr>cworld := w\<rparr>" m] step(2-5) by simp
  qed
  then show ?thesis using assms by (cases "client_loop bld env fd 0 s") blast+
qed

lemma main_loop:
  assumes "e_socket env w = (fd, w1)" "0 \<le> fd" "e_inet_pton env (SERVER_ADDRESS bld) = (1, a)"
    and "e_connect env fd (htons (SERVER_PORT bld)) a w1 = (rc, w2)" "0 \<le> rc"
  shows "client_main cfg bld env argc w = map_option (\<lambda>res. bindE res (\<lambda>s.
       case e_close env fd (cworld s) of (_, w) \<Rightarrow> Inr (0, s\<lparr>cworld := w\<rparr>)))
     (client_loop bld env fd (argc - 1) (client_log bld LOG_DEBUG ''Client connected to server''
        \<lparr>cbuffer = replicate (DEFAULT_BUFFER_SIZE cfg) 0, clog = [], cworld = w2\<rparr>))"
  using assms by (simp add: client_main_def create_ipv4_socket_def connect_to_server_def)

subsection \<open>Claims\<close>

text \<open>C29: Whatever the kernel does within its contract, the client has no undefined behaviour. It
  returns only when started with an argument, with 0 and its buffer at its size; then it has
  closed what it opened. Without one it stops at an assertion or runs for ever.\<close>

theorem client_safe:
  assumes "read_spec env v" "write_spec env v" "close_spec env v" "close_reliable env v"
    and "\<And>w. opens_fresh v w (fst (e_socket env w)) (snd (e_socket env w))"
    and "\<And>fd p a w. same_view v w (snd (e_connect env fd p a w))"
    and "\<And>a. - 1 \<le> fst (e_inet_pton env a) \<and> fst (e_inet_pton env a) \<le> 1"
  shows "case client_main cfg bld env argc w of None \<Rightarrow> argc = 1
    | Some m \<Rightarrow> safeE (\<lambda>(rc, s). argc \<noteq> 1 \<and> rc = 0 \<and> length (cbuffer s) = DEFAULT_BUFFER_SIZE cfg
        \<and> kv_open v (cworld s) = kv_open v w) m"
proof -
  obtain fd w1 where 1: "e_socket env w = (fd, w1)" by force
  obtain rp a where 2: "e_inet_pton env (SERVER_ADDRESS bld) = (rp, a)" by force
  obtain rc w2 where 3: "e_connect env fd (htons (SERVER_PORT bld)) a w1 = (rc, w2)" by force
  have p: "- 1 \<le> rp" "rp \<le> 1" using assms(7) [of "SERVER_ADDRESS bld"] 2 by simp_all
  show ?thesis
  proof (cases "0 \<le> fd \<and> rp = 1 \<and> 0 \<le> rc")
    case False
    then show ?thesis
      using 1 2 3 p by (auto simp: client_main_def create_ipv4_socket_def connect_to_server_def assertion_defs)
  next
    case True
    have o: "opened v w fd w1" using assms(5) [of w] 1 True by (simp add: opens_fresh_opened)
    have w2: "kv_open v w2 = insert fd (kv_open v w)" "fd \<notin> kv_open v w"
      using o assms(6) [of w1 fd "htons (SERVER_PORT bld)" a] 3 by (auto simp: opened_def same_view_def)
    let ?s = "client_log bld LOG_DEBUG ''Client connected to server''
        \<lparr>cbuffer = replicate (DEFAULT_BUFFER_SIZE cfg) 0, clog = [], cworld = w2\<rparr>"
    note M = main_loop [OF 1 _ _ 3, of cfg argc]
    have cl: "e_close env fd (cworld s) = (c, w') \<Longrightarrow> exchanged v fd ?s s \<Longrightarrow> kv_open v w' = kv_open v w" for s c w'
    proof -
      assume e: "e_close env fd (cworld s) = (c, w')" and x: "exchanged v fd ?s s"
      have op: "kv_open v (cworld s) = insert fd (kv_open v w)" using x w2 by (simp add: exchanged_def)
      then have "c = 0" using assms(4) e unfolding close_reliable_def by (metis fst_conv insertI1)
      then show ?thesis using assms(3) [unfolded close_spec_def, rule_format, OF e] op w2 by auto
    qed
    show ?thesis
    proof (cases "argc = 1")
      case one: True
      show ?thesis
      proof (cases "client_loop bld env fd 0 ?s")
        case None
        then show ?thesis using M 2 True one by simp
      next
        case (Some m)
        then show ?thesis using loop_exits [OF assms(1,2) Some] M 2 True one by auto
      qed
    next
      case False
      then have lo: "client_loop bld env fd (argc - 1) ?s = Some (send_n_wait bld env fd ?s)" by (intro loop_once) simp
      have "safeE (\<lambda>s. case e_close env fd (cworld s) of (_, w') \<Rightarrow>
          length (cbuffer s) = DEFAULT_BUFFER_SIZE cfg \<and> kv_open v w' = kv_open v w) (send_n_wait bld env fd ?s)"
        by (rule safeE_mono [OF send_n_wait_safe [OF assms(1,2)]])
          (use cl exchanged_length in \<open>fastforce split: prod.splits\<close>)
      then show ?thesis
        using M 2 True False unfolding lo by (auto simp: case_prod_unfold)
    qed
  qed
qed

text \<open>C30: With an argument and a peer that answers whole messages, the client returns 0 after one
  exchange: nothing but the connection is logged, the buffer holds the message it sent, and the
  socket has been closed.\<close>

theorem client_single_shot:
  assumes "answering env fd (DEFAULT_BUFFER_SIZE cfg) I" "argc \<noteq> 1"
    and "e_socket env w = (fd, w1)" "0 \<le> fd" "e_inet_pton env (SERVER_ADDRESS bld) = (1, a)"
    and "e_connect env fd (htons (SERVER_PORT bld)) a w1 = (rc, w2)" "0 \<le> rc" "I w2"
  shows "\<exists>w3. I w3 \<and> client_main cfg bld env argc w = Some (Inr (0,
     client_log bld LOG_DEBUG ''Client connected to server''
       \<lparr>cbuffer = replicate (DEFAULT_BUFFER_SIZE cfg) 0, clog = [], cworld = snd (e_close env fd w3)\<rparr>))"
proof -
  let ?s = "client_log bld LOG_DEBUG ''Client connected to server''
     \<lparr>cbuffer = replicate (DEFAULT_BUFFER_SIZE cfg) 0, clog = [], cworld = w2\<rparr>"
  obtain w3 where w3: "send_n_wait bld env fd ?s = Inr (?s\<lparr>cworld := w3\<rparr>)" "I w3"
    using answered [of env fd ?s I bld] assms(1,8) by auto
  then have "client_main cfg bld env argc w = Some (Inr (0, ?s\<lparr>cworld := snd (e_close env fd w3)\<rparr>))"
    using main_loop [OF assms(3-7), of cfg argc] assms(2) by (simp add: loop_once case_prod_unfold)
  then show ?thesis using w3(2) by (auto simp: client_log_def)
qed

text \<open>C31: Without an argument and with a peer that answers whole messages, the client never ends.\<close>

theorem client_runs_forever:
  assumes "answering env fd (DEFAULT_BUFFER_SIZE cfg) I"
    and "e_socket env w = (fd, w1)" "0 \<le> fd" "e_inet_pton env (SERVER_ADDRESS bld) = (1, a)"
    and "e_connect env fd (htons (SERVER_PORT bld)) a w1 = (rc, w2)" "0 \<le> rc" "I w2"
  shows "client_main cfg bld env 1 w = None"
  using main_loop [OF assms(2-6), of cfg 1] loop_endless [of env fd _ I bld] assms(1,7) by simp

subsection \<open>A client and a server that serves it\<close>

text \<open>Two ends of a connection in one world: \<open>up\<close> holds the bytes on their way to the server's end
  \<open>sfd\<close>, \<open>down\<close> those on their way to the client's end \<open>cfd\<close>. Writes are taken whole, reads
  deliver what is there.\<close>

definition pipe_write :: "('w, 'x) env_scheme \<Rightarrow> int \<Rightarrow> ('w \<Rightarrow> byte list) \<Rightarrow> ('w \<Rightarrow> byte list) \<Rightarrow> bool" where
  "pipe_write env fd q other \<longleftrightarrow> (\<forall>bs w. fst (e_write env fd bs w) = int (length bs)
     \<and> q (snd (e_write env fd bs w)) = q w @ bs \<and> other (snd (e_write env fd bs w)) = other w)"

definition pipe_read :: "('w, 'x) env_scheme \<Rightarrow> int \<Rightarrow> ('w \<Rightarrow> byte list) \<Rightarrow> ('w \<Rightarrow> byte list) \<Rightarrow> bool" where
  "pipe_read env fd q other \<longleftrightarrow> (\<forall>n w. fst (e_read env fd n w) = (int (length (take n (q w))), take n (q w))
     \<and> q (snd (e_read env fd n w)) = drop n (q w) \<and> other (snd (e_read env fd n w)) = other w)"

definition connected ::
    "('w, 'x) env_scheme \<Rightarrow> int \<Rightarrow> int \<Rightarrow> ('w \<Rightarrow> byte list) \<Rightarrow> ('w \<Rightarrow> byte list) \<Rightarrow> bool" where
  "connected env cfd sfd up down \<longleftrightarrow> pipe_write env cfd up down \<and> pipe_read env sfd up down
     \<and> pipe_write env sfd down up \<and> pipe_read env cfd down up"

lemma pipe_writeD: "pipe_write env fd q other \<Longrightarrow> \<exists>w'. e_write env fd bs w = (int (length bs), w') \<and> q w' = q w @ bs \<and> other w' = other w"
  unfolding pipe_write_def by (metis prod.collapse)

lemma pipe_readD: "pipe_read env fd q other \<Longrightarrow> \<exists>w'. e_read env fd n w = ((int (length (take n (q w))), take n (q w)), w')
    \<and> q w' = drop n (q w) \<and> other w' = other w"
  unfolding pipe_read_def by (metis prod.collapse)

lemma served:
  assumes C: "connected env cfd sfd up down" and q: "up w = m" "down w = []" "length m = DEFAULT_BUFFER_SIZE cfg" "m \<noteq> []"
    and n: "length m \<le> n" "n \<le> length buf"
  shows "\<exists>w'. read_n_echo env cfg sfd buf n w = Inr (int (length m), m @ drop (length m) buf, w') \<and> up w' = [] \<and> down w' = m"
proof -
  have c: "pipe_read env sfd up down" "pipe_write env sfd down up" using C by (simp_all add: connected_def)
  obtain w1 where r: "e_read env sfd n w = ((int (length m), m), w1)" "up w1 = []" "down w1 = []"
    using pipe_readD [OF c(1), of n w] q n by auto
  obtain w2 where w: "e_write env sfd m w1 = (int (length m), w2)" "down w2 = m" "up w2 = []"
    using pipe_writeD [OF c(2), of m w1] r by auto
  then show ?thesis using r(1) q(3,4) n by (auto simp: read_n_echo_def)
qed

text \<open>C11: A request of the client is answered by a server that serves it with \<open>read_n_echo\<close>: no side
  exits, the server takes exactly the message and leaves it in its buffer, and the client has its
  own message back, with nothing logged and nothing left on the way.\<close>

theorem request_answered_by_server:
  assumes "connected env cfd sfd up down" "up (cworld s) = []" "down (cworld s) = []"
    and "length (cbuffer s) = DEFAULT_BUFFER_SIZE cfg" "0 < DEFAULT_BUFFER_SIZE cfg"
    and "DEFAULT_BUFFER_SIZE cfg \<le> n" "n \<le> length buf"
  shows "\<exists>w1 w2 w3. send_message bld env cfd s = Inr (s\<lparr>cworld := w1\<rparr>)
     \<and> read_n_echo env cfg sfd buf n w1 = Inr (int (DEFAULT_BUFFER_SIZE cfg), cbuffer s @ drop (DEFAULT_BUFFER_SIZE cfg) buf, w2)
     \<and> recv_message bld env cfd (s\<lparr>cworld := w2\<rparr>) = Inr (s\<lparr>cworld := w3\<rparr>) \<and> up w3 = [] \<and> down w3 = []"
proof -
  have c: "pipe_write env cfd up down" "pipe_read env cfd down up" using assms(1) by (simp_all add: connected_def)
  obtain w1 where 1: "e_write env cfd (cbuffer s) (cworld s) = (int (length (cbuffer s)), w1)"
    "up w1 = cbuffer s" "down w1 = []"
    using pipe_writeD [OF c(1), of "cbuffer s" "cworld s"] assms(2,3) by auto
  have ne: "cbuffer s \<noteq> []" using assms(4,5) by auto
  obtain w2 where 2: "read_n_echo env cfg sfd buf n w1 = Inr (int (length (cbuffer s)), cbuffer s @ drop (length (cbuffer s)) buf, w2)"
    "up w2 = []" "down w2 = cbuffer s"
    using served [OF assms(1) 1(2,3) assms(4) ne, of n buf] assms(4,6,7) by auto
  obtain w3 where 3: "e_read env cfd (length (cbuffer s)) w2 = ((int (length (cbuffer s)), cbuffer s), w3)"
    "down w3 = []" "up w3 = []"
    using pipe_readD [OF c(2), of "length (cbuffer s)" w2] 2 by auto
  show ?thesis
    using 1(1) 2(1) 3 assms(4)
    by (intro exI [of _ w1] exI [of _ w2] exI [of _ w3]) (simp add: send_message_def recv_message_def Let_def)
qed

end
