(* ===== verification/ClientSample.thy ===== *)
theory ClientSample
  imports Client SampleKernel
begin

text \<open>
  Kernels for the client: the sample kernel with a network, and a connection whose other end is
  served by \<open>read_n_echo\<close> whenever the client waits for an answer.
\<close>

definition client_cfg :: config where
  "client_cfg = \<lparr>DO_BENCH = False, MEASURE_LATENCY = False, DEFAULT_BUFFER_SIZE = 2\<rparr>"

definition client_bld :: client_build where
  "client_bld = \<lparr>SERVER_PORT = 8080, SERVER_ADDRESS = ''127.0.0.1'', DEBUG = True, LOG_LEVEL = LOG_WARNING\<rparr>"

lemma client_cfg_simps [simp]: "DEFAULT_BUFFER_SIZE client_cfg = 2" "DEFAULT_SERVER_BUFFER_SIZE client_cfg = 10"
  by (simp_all add: client_cfg_def DEFAULT_SERVER_BUFFER_SIZE_def)

definition with_network :: "'w env \<Rightarrow> 'w client_env" where
  "with_network env = env.extend env (client_env.fields (\<lambda>a. (1, 16777343)) (\<lambda>fd p a w. (0, w)))"

lemma network_simps [simp]:
  "e_inet_pton (with_network env) a = (1, 16777343)" "e_connect (with_network env) fd p x w = (0, w)"
  "e_read (with_network env) = e_read env" "e_write (with_network env) = e_write env"
  "e_close (with_network env) = e_close env" "e_socket (with_network env) = e_socket env"
  by (simp_all add: with_network_def env.extend_def client_env.fields_def)

theorem client_safe_witness:
  "case client_main client_cfg client_bld (with_network (sample_env :: unit sworld env)) 2 (sample_world (\<lambda>_. [[9]]) []) of None \<Rightarrow> False
     | Some m \<Rightarrow> safeE (\<lambda>(rc, s). rc = 0 \<and> length (cbuffer s) = 2 \<and> kv_open sview (cworld s) = {2, 1, 0}) m"
proof -
  let ?e = "with_network (sample_env :: unit sworld env)"
  have l: "like_sample ?e" by (simp add: like_sample_def with_network_def env.extend_def env.truncate_def sample_env_def client_env.fields_def)
  note k = kernel_specD [OF sample_kernel [OF l]]
  have "opens_fresh sview w (fst (e_socket ?e w)) (snd (e_socket ?e w))" for w
    using sample_setup [OF l] by (simp add: setup_spec_def)
  from client_safe [OF k(1,2,4) sample_close_reliable [OF l] this, where cfg = client_cfg and bld = client_bld
      and argc = 2 and w = "sample_world (\<lambda>_. [[9]]) []"]
  show ?thesis
    by (cases "client_main client_cfg client_bld ?e 2 (sample_world (\<lambda>_. [[9]]) [])") (simp_all add: sample_world_def sview_def)
qed

subsection \<open>A connection with a server behind it\<close>

record link =
  l_up :: "byte list"
  l_down :: "byte list"
  l_open :: "int list"

text \<open>Descriptor 3 is the client's end, every other one the server's.\<close>

definition link_env :: "link env" where
  "link_env = \<lparr>
     e_malloc = (\<lambda>n w. (Some (\<lambda>_. 0), w)), e_clock = (\<lambda>w. (\<lparr>tv_sec = 0, tv_nsec = 0\<rparr>, w)),
     e_read = (\<lambda>fd n w. if fd = 3 then ((int (length (take n (l_down w))), take n (l_down w)), w\<lparr>l_down := drop n (l_down w)\<rparr>)
        else ((int (length (take n (l_up w))), take n (l_up w)), w\<lparr>l_up := drop n (l_up w)\<rparr>)),
     e_write = (\<lambda>fd bs w. (int (length bs), if fd = 3 then w\<lparr>l_up := l_up w @ bs\<rparr> else w\<lparr>l_down := l_down w @ bs\<rparr>)),
     e_accept4 = (\<lambda>fd w. ((- 1, EAGAIN), w)), e_close = (\<lambda>fd w. (0, w\<lparr>l_open := removeAll fd (l_open w)\<rparr>)),
     e_socket = (\<lambda>w. (3, w\<lparr>l_open := 3 # l_open w\<rparr>)), e_fcntl_nonblock = (\<lambda>fd w. (0, w)),
     e_bind = (\<lambda>fd p a w. (0, w)), e_listen = (\<lambda>fd n w. (0, w)), e_timerfd_create = (\<lambda>w. (- 1, w)),
     e_timerfd_settime = (\<lambda>fd a b w. (0, w)), e_sigaction_usr1 = (\<lambda>w. (0, w)),
     e_sigemptyset = (\<lambda>w. (0, w)), e_sigaddset_usr1 = (\<lambda>w. (0, w)), e_sigprocmask = (\<lambda>b w. (0, w))\<rparr>"

lemma link_connected: "connected link_env 3 4 l_up l_down"
  by (auto simp: connected_def pipe_write_def pipe_read_def link_env_def)

definition quiet_link :: link where
  "quiet_link = \<lparr>l_up = [], l_down = [], l_open = [2, 1, 0]\<rparr>"

theorem request_answered_by_server_witness:
  "\<exists>w1 w2 w3. send_message client_bld link_env 3 \<lparr>cbuffer = [5, 6], clog = [], cworld = quiet_link\<rparr>
       = Inr \<lparr>cbuffer = [5, 6], clog = [], cworld = w1\<rparr>
     \<and> read_n_echo link_env client_cfg 4 (replicate 10 0) 10 w1 = Inr (2, [5, 6] @ replicate 8 0, w2)
     \<and> recv_message client_bld link_env 3 \<lparr>cbuffer = [5, 6], clog = [], cworld = w2\<rparr>
       = Inr \<lparr>cbuffer = [5, 6], clog = [], cworld = w3\<rparr> \<and> l_up w3 = [] \<and> l_down w3 = []"
  using request_answered_by_server [OF link_connected, of "\<lparr>cbuffer = [5, 6], clog = [], cworld = quiet_link\<rparr>"
      client_cfg 10 "replicate 10 0" client_bld]
  by (simp add: quiet_link_def)

text \<open>A read of the client lets the server take its turn first.\<close>

definition served_env :: "link client_env" where
  "served_env = with_network (link_env\<lparr>e_read := (\<lambda>fd n w.
     e_read link_env fd n (case read_n_echo link_env client_cfg 4 (replicate 10 0) 10 w of
       Inr (_, _, w') \<Rightarrow> w' | Inl _ \<Rightarrow> w))\<rparr>)"

definition link_idle :: "link \<Rightarrow> bool" where
  "link_idle w \<longleftrightarrow> l_up w = [] \<and> l_down w = []"

lemma served_answering: "answering served_env 3 2 link_idle"
  unfolding answering_def
proof (intro allI impI)
  fix w :: link and bs :: "byte list"
  assume w: "link_idle w" "length bs = 2"
  let ?w = "w\<lparr>l_up := bs\<rparr>"
  have q: "l_up ?w = bs" "l_down ?w = []" "bs \<noteq> []" using w by (auto simp: link_idle_def)
  obtain w2 where w2: "read_n_echo link_env client_cfg 4 (replicate 10 0) 10 ?w = Inr (int (length bs), bs @ drop (length bs) (replicate 10 0), w2)"
    "l_up w2 = []" "l_down w2 = bs"
    using served [OF link_connected q(1,2) _ q(3), of client_cfg 10 "replicate 10 0"] w(2) by auto
  have "e_write served_env 3 bs w = (int 2, ?w)" using w by (simp add: served_env_def link_env_def link_idle_def)
  moreover have "e_read served_env 3 2 ?w = ((int 2, bs), w2\<lparr>l_down := []\<rparr>)"
    using w2 w(2) by (simp add: served_env_def) (simp add: link_env_def)
  ultimately show "\<exists>w1 w2. e_write served_env 3 bs w = (int 2, w1) \<and> e_read served_env 3 2 w1 = ((int 2, bs), w2) \<and> link_idle w2"
    using w2(2) by (auto simp: link_idle_def)
qed

lemma served_start:
  "e_socket served_env quiet_link = (3, quiet_link\<lparr>l_open := [3, 2, 1, 0]\<rparr>)"
  "e_inet_pton served_env (SERVER_ADDRESS client_bld) = (1, 16777343)"
  "e_connect served_env 3 p a w = (0, w)" "link_idle (quiet_link\<lparr>l_open := [3, 2, 1, 0]\<rparr>)"
  by (simp_all add: served_env_def link_env_def quiet_link_def link_idle_def)

theorem client_single_shot_witness:
  "\<exists>w3. link_idle w3 \<and> client_main client_cfg client_bld served_env 2 quiet_link
     = Some (Inr (0, \<lparr>cbuffer = [0, 0], clog = [], cworld = snd (e_close served_env 3 w3)\<rparr>))"
  using client_single_shot [of served_env 3 client_cfg link_idle 2, OF _ _ served_start(1) _ served_start(2,3) _ served_start(4)]
    served_answering
  by (simp add: client_log_def dlog_def client_bld_def less_eq_log_level_t_def numeral_2_eq_2)

theorem client_runs_forever_witness: "client_main client_cfg client_bld served_env 1 quiet_link = None"
  using client_runs_forever [of served_env 3 client_cfg link_idle, OF _ served_start(1) _ served_start(2,3) _ served_start(4)]
    served_answering by simp

end
